(* ===== verification/Prelude.thy ===== *)
theory Prelude
  imports Main "HOL-Library.Word" "HOL-Library.List_Lexorder"
begin

text \<open>
  Shared vocabulary of the mini-LSM model: the machine types of the Rust code
  (\<open>u8\<close>, \<open>u16\<close>, \<open>u32\<close> as words), byte strings ordered lexicographically as
  Rust orders \<open>&[u8]\<close> slices (\<open>HOL-Library.List_Lexorder\<close> over the unsigned order
  of \<open>8 word\<close>), the error type that makes panics and I/O failures values, the
  big-endian codecs of the \<open>bytes\<close> crate (\<open>BufMut::put_u16/put_u32\<close>,
  \<open>Buf::get_u16/get_u32/copy_to_bytes\<close>), Rust's overflow-checked arithmetic, and the
  generic lemmas on them that the component theories use.
\<close>

unbundle bit_operations_syntax

named_theorems codec_simps "decoding equations of the big-endian byte codecs"

type_synonym byte = "8 word"
type_synonym u16 = "16 word"
type_synonym u32 = "32 word"
type_synonym bytes = "byte list"
type_synonym kv = "bytes \<times> bytes"

text \<open>
  Errors of the code as values: \<open>Panic\<close> stands for every panic of the source
  (a failed \<open>assert!\<close>, an out-of-range slice or index, an arithmetic overflow in a
  debug build, \<open>unwrap\<close> of \<open>None\<close>), \<open>Io_error\<close> for an \<open>Err\<close> returned by a file
  operation (\<open>read_exact_at\<close>, \<open>write\<close>, \<open>open\<close>) and propagated by \<open>?\<close>.
\<close>

datatype err = Panic | Io_error

definition ok_of :: "'a option \<Rightarrow> err + 'a" where
  "ok_of x = (case x of None \<Rightarrow> Inl Panic | Some a \<Rightarrow> Inr a)"

subsection \<open>Big-endian codecs of the bytes crate\<close>

definition put_u16 :: "u16 \<Rightarrow> bytes" where
  "put_u16 w = [ucast (drop_bit 8 w), ucast w]"

definition put_u32 :: "u32 \<Rightarrow> bytes" where
  "put_u32 w = [ucast (drop_bit 24 w), ucast (drop_bit 16 w), ucast (drop_bit 8 w), ucast w]"

text \<open>\<open>Buf::get_u16\<close> on a slice: reads two bytes and advances; panics (\<open>None\<close>) when
  fewer than two bytes remain.\<close>

fun get_u16 :: "bytes \<Rightarrow> (u16 \<times> bytes) option" where
  "get_u16 (a # b # rest) = Some (push_bit 8 (ucast a) OR ucast b, rest)"
| "get_u16 _ = None"

fun get_u32 :: "bytes \<Rightarrow> (u32 \<times> bytes) option" where
  "get_u32 (a # b # c # d # rest) =
     Some (push_bit 24 (ucast a) OR push_bit 16 (ucast b) OR push_bit 8 (ucast c) OR ucast d, rest)"
| "get_u32 _ = None"

text \<open>\<open>Buf::copy_to_bytes n\<close> (and slicing \<open>data[..n]\<close>): panics when fewer than \<open>n\<close>
  bytes remain.\<close>

definition get_bytes :: "nat \<Rightarrow> bytes \<Rightarrow> (bytes \<times> bytes) option" where
  "get_bytes n buf = (if n \<le> length buf then Some (take n buf, drop n buf) else None)"

subsection \<open>Overflow-checked arithmetic\<close>

text \<open>Rust's \<open>+\<close> on \<open>u16\<close> and \<open>-\<close> on \<open>usize\<close>/\<open>u64\<close> panic on overflow in a debug
  build (the build the crate's tests run); these are the checked versions.\<close>

definition chk_add16 :: "u16 \<Rightarrow> u16 \<Rightarrow> u16 option" where
  "chk_add16 a b = (if unat a + unat b < 2 ^ 16 then Some (a + b) else None)"

definition chk_sub :: "nat \<Rightarrow> nat \<Rightarrow> nat option" where
  "chk_sub a b = (if b \<le> a then Some (a - b) else None)"

subsection \<open>Strictly ascending keys\<close>

abbreviation keys_ascending :: "kv list \<Rightarrow> bool" where
  "keys_ascending es \<equiv> sorted_wrt (<) (map fst es)"

definition fits_u16 :: "kv \<Rightarrow> bool" where
  "fits_u16 e \<longleftrightarrow> length (fst e) < 2 ^ 16 \<and> length (snd e) < 2 ^ 16"

subsection \<open>Generic lemmas\<close>

lemma ok_of_simps [simp]:
  "ok_of None = Inl Panic" "ok_of (Some a) = Inr a"
  by (simp_all add: ok_of_def)

lemma length_put_u16 [simp]: "length (put_u16 w) = 2"
  by (simp add: put_u16_def)

lemma length_put_u32 [simp]: "length (put_u32 w) = 4"
  by (simp add: put_u32_def)

lemma put_u16_not_Nil [simp]: "put_u16 w \<noteq> []"
  by (simp add: put_u16_def)

lemma put_u32_not_Nil [simp]: "put_u32 w \<noteq> []"
  by (simp add: put_u32_def)

lemma length_concat_put_u16 [simp]: "length (concat (map put_u16 ws)) = 2 * length ws"
  by (induction ws) simp_all

lemma be16_roundtrip:
  "push_bit 8 (ucast (ucast (drop_bit 8 w) :: byte)) OR ucast (ucast w :: byte) = (w :: u16)"
  by (rule bit_word_eqI) (auto simp: bit_simps)

lemma be32_roundtrip:
  "push_bit 24 (ucast (ucast (drop_bit 24 w) :: byte)) OR push_bit 16 (ucast (ucast (drop_bit 16 w) :: byte))
     OR push_bit 8 (ucast (ucast (drop_bit 8 w) :: byte)) OR ucast (ucast w :: byte) = (w :: u32)"
  by (rule bit_word_eqI)
    (case_tac "n < 8"; case_tac "n < 16"; case_tac "n < 24"; auto simp: bit_simps)

lemma get_u16_put_u16 [simp, codec_simps]: "get_u16 (put_u16 w @ rest) = Some (w, rest)"
  by (simp add: put_u16_def be16_roundtrip)

lemma get_u32_put_u32 [simp, codec_simps]: "get_u32 (put_u32 w @ rest) = Some (w, rest)"
  using be32_roundtrip [of w] by (simp add: put_u32_def disj_assoc)

lemma get_u16_put_u16_Nil [simp, codec_simps]: "get_u16 (put_u16 w) = Some (w, [])"
  using get_u16_put_u16 [of w "[]"] by simp

lemma get_bytes_append [simp, codec_simps]:
  "n = length xs \<Longrightarrow> get_bytes n (xs @ ys) = Some (xs, ys)"
  by (simp add: get_bytes_def)

lemma get_u16_Some:
  "get_u16 buf = Some (w, rest) \<Longrightarrow> length buf = length rest + 2"
  by (cases buf rule: get_u16.cases) auto

lemma get_u32_Some:
  "get_u32 buf = Some (w, rest) \<Longrightarrow> length buf = length rest + 4"
  by (cases buf rule: get_u32.cases) auto

lemma get_bytes_Some:
  "get_bytes n buf = Some (xs, rest) \<Longrightarrow> length buf = n + length rest \<and> buf = xs @ rest"
  by (auto simp: get_bytes_def split: if_splits)

lemma unat_of_nat_below:
  "n < 2 ^ LENGTH('a) \<Longrightarrow> unat (word_of_nat n :: 'a::len word) = n"
  by (simp add: unat_of_nat)

lemma unat_of_nat_u16 [simp]: "n < 65536 \<Longrightarrow> unat (word_of_nat n :: u16) = n"
  by (simp add: unat_of_nat)

lemma unat_of_nat_u32 [simp]: "n < 4294967296 \<Longrightarrow> unat (word_of_nat n :: u32) = n"
  by (simp add: unat_of_nat)

lemma word_of_nat_unat_id: "word_of_nat (unat w) = (w :: 'a::len word)"
  by simp

lemma unat_u16_bound: "unat (w :: u16) < 65536"
  using unsigned_less [of w] by simp

lemma chk_add16_Some_iff:
  "chk_add16 a b = Some c \<longleftrightarrow> unat a + unat b < 65536 \<and> c = a + b"
  by (auto simp: chk_add16_def)

lemma chk_add16_None_iff:
  "chk_add16 a b = None \<longleftrightarrow> 65536 \<le> unat a + unat b"
  by (auto simp: chk_add16_def)

lemma unat_chk_add16:
  "chk_add16 a b = Some c \<Longrightarrow> unat c = unat a + unat b"
  using unat_add_lem [of a b] by (auto simp: chk_add16_def split: if_splits)

lemma chk_sub_simps [simp]:
  "b \<le> a \<Longrightarrow> chk_sub a b = Some (a - b)" "a < b \<Longrightarrow> chk_sub a b = None"
  by (simp_all add: chk_sub_def)

lemma fits_u16_simp [simp]: "fits_u16 (k, v) \<longleftrightarrow> length k < 65536 \<and> length v < 65536"
  by (simp add: fits_u16_def)

lemma those_Some_nth:
  "those xs = Some ys \<Longrightarrow> length ys = length xs \<and> (\<forall>i < length xs. xs ! i = Some (ys ! i))"
proof (induction xs arbitrary: ys)
  case Nil
  then show ?case by simp
next
  case (Cons x xs)
  then show ?case by (auto simp: nth_Cons split: option.splits nat.splits)
qed

lemma length_takeWhile_eqI:
  assumes "i \<le> length xs" and "\<forall>j < i. P (xs ! j)" and "i < length xs \<Longrightarrow> \<not> P (xs ! i)"
  shows "length (takeWhile P xs) = i"
proof -
  have "takeWhile P xs = take i xs"
    using assms by (intro takeWhile_eq_take_P_nth) auto
  then show ?thesis using assms(1) by simp
qed

end
