(* ===== verification/Block.thy ===== *)
theory Block
  imports Prelude
begin

text \<open>
  The block of \<open>src/mini-lsm-starter/src/block.rs\<close>: a record of the entry bytes and the
  \<open>u16\<close> entry offsets, its wire encoding (\<open>Block::encode\<close>) and decoding
  (\<open>Block::decode\<close>, a panic being \<open>None\<close>), the entry layout written by
  \<open>BlockBuilder::add\<close> and parsed by \<open>BlockIterator::seek_to_offset\<close>, and the
  abstraction \<open>block_entries\<close>: the key-value pairs a reader finds at the block's
  offsets. The lemmas show that decoding inverts encoding whenever the entry count fits
  the 2-byte trailer, and that a block laid out from a list of entries reads back that
  list.
\<close>

record block =
  blk_data :: bytes
  blk_offsets :: "u16 list"

subsection \<open>Wire format\<close>

definition block_encode :: "block \<Rightarrow> bytes" where
  "block_encode b =
     blk_data b @ concat (map put_u16 (blk_offsets b)) @ put_u16 (word_of_nat (length (blk_offsets b)))"

text \<open>The loop of \<open>Block::decode\<close> that reads the offsets region two bytes at a time,
  from \<open>offsets_start\<close> up to the count field at \<open>n - 2\<close>.\<close>

function decode_offsets :: "bytes \<Rightarrow> nat \<Rightarrow> nat \<Rightarrow> u16 list option" where
  "decode_offsets d i stop =
     (if i < stop then
        (case get_u16 (take 2 (drop i d)) of
           None \<Rightarrow> None
         | Some (w, _) \<Rightarrow> map_option (Cons w) (decode_offsets d (i + 2) stop))
      else Some [])"
  by pat_completeness auto
termination
  by (relation "measure (\<lambda>(d, i, stop). stop - i)") auto

declare decode_offsets.simps [simp del]

definition block_decode :: "bytes \<Rightarrow> block option" where
  "block_decode d =
     (case chk_sub (length d) 2 of
        None \<Rightarrow> None
      | Some num_start \<Rightarrow>
          (case get_u16 (drop num_start d) of
             None \<Rightarrow> None
           | Some (num, _) \<Rightarrow>
               (case chk_sub (length d) ((unat num + 1) * 2) of
                  None \<Rightarrow> None
                | Some offsets_start \<Rightarrow>
                    (case decode_offsets d offsets_start num_start of
                       None \<Rightarrow> None
                     | Some offs \<Rightarrow> Some \<lparr>blk_data = take offsets_start d, blk_offsets = offs\<rparr>))))"

subsection \<open>Entries\<close>

text \<open>The bytes \<open>BlockBuilder::add\<close> appends for one pair: the 2-byte key length, the key,
  the 2-byte value length, the value. The lengths are \<open>len() as u16\<close>, a truncating
  cast.\<close>

definition entry_encode :: "bytes \<Rightarrow> bytes \<Rightarrow> bytes" where
  "entry_encode k v =
     put_u16 (word_of_nat (length k)) @ k @ put_u16 (word_of_nat (length v)) @ v"

text \<open>\<open>BlockIterator::seek_to_offset\<close>: parse the entry starting at \<open>off\<close>; each slice
  or \<open>get_u16\<close> past the end of the data panics.\<close>

definition read_entry :: "bytes \<Rightarrow> nat \<Rightarrow> kv option" where
  "read_entry d off =
     (if length d < off then None
      else case get_u16 (drop off d) of
        None \<Rightarrow> None
      | Some (klen, r1) \<Rightarrow>
          (case get_bytes (unat klen) r1 of
             None \<Rightarrow> None
           | Some (k, r2) \<Rightarrow>
               (case get_u16 r2 of
                  None \<Rightarrow> None
                | Some (vlen, r3) \<Rightarrow>
                    (case get_bytes (unat vlen) r3 of
                       None \<Rightarrow> None
                     | Some (v, _) \<Rightarrow> Some (k, v)))))"

text \<open>The abstraction of a block: the pairs found at its offsets, in offset order
  (\<open>None\<close> when some offset does not hold a parsable entry).\<close>

definition block_entries :: "block \<Rightarrow> kv list option" where
  "block_entries b = those (map (\<lambda>off. read_entry (blk_data b) (unat off)) (blk_offsets b))"

text \<open>The layout of a block holding a list of entries, as the builder lays it out.\<close>

definition kv_size :: "kv \<Rightarrow> nat" where
  "kv_size e = 4 + length (fst e) + length (snd e)"

fun entry_offsets :: "nat \<Rightarrow> kv list \<Rightarrow> nat list" where
  "entry_offsets n [] = []"
| "entry_offsets n (e # es) = n # entry_offsets (n + kv_size e) es"

definition entries_data :: "kv list \<Rightarrow> bytes" where
  "entries_data es = concat (map (\<lambda>(k, v). entry_encode k v) es)"

definition block_of_entries :: "kv list \<Rightarrow> block" where
  "block_of_entries es =
     \<lparr>blk_data = entries_data es, blk_offsets = map word_of_nat (entry_offsets 0 es)\<rparr>"

subsection \<open>Lemmas on the layout\<close>

lemma length_entry_encode [simp]: "length (entry_encode k v) = kv_size (k, v)"
  by (simp add: entry_encode_def kv_size_def)

lemma entries_data_simps [simp]:
  "entries_data [] = []"
  "entries_data (e # es) = entry_encode (fst e) (snd e) @ entries_data es"
  "entries_data (es @ fs) = entries_data es @ entries_data fs"
  by (simp_all add: entries_data_def split_beta)

lemma length_entries_data: "length (entries_data es) = sum_list (map kv_size es)"
  by (induction es) (simp_all add: split_beta)

lemma entry_offsets_append:
  "entry_offsets n (es @ fs) = entry_offsets n es @ entry_offsets (n + length (entries_data es)) fs"
  by (induction es arbitrary: n) (simp_all add: add.assoc)

lemma length_entry_offsets [simp]: "length (entry_offsets n es) = length es"
  by (induction es arbitrary: n) simp_all

lemma entry_offsets_bound: "off \<in> set (entry_offsets n es) \<Longrightarrow> off < n + length (entries_data es)"
  by (induction es arbitrary: n) (fastforce simp: kv_size_def)+

lemma read_entry_encode [simp]:
  assumes "fits_u16 (k, v)"
  shows "read_entry (pre @ entry_encode k v @ suf) (length pre) = Some (k, v)"
  using assms by (simp add: read_entry_def entry_encode_def)

lemma read_entries_layout:
  assumes "\<forall>e \<in> set es. fits_u16 e"
  shows "those (map (read_entry (pre @ entries_data es @ suf)) (entry_offsets (length pre) es)) = Some es"
  using assms
proof (induction es arbitrary: pre)
  case Nil
  then show ?case by simp
next
  case (Cons e es)
  obtain k v where e: "e = (k, v)" by fastforce
  have "read_entry (pre @ entries_data (e # es) @ suf) (length pre) = Some e"
    using Cons.prems e read_entry_encode [of k v pre "entries_data es @ suf"] by simp
  moreover have "those (map (read_entry ((pre @ entry_encode k v) @ entries_data es @ suf))
      (entry_offsets (length (pre @ entry_encode k v)) es)) = Some es"
    using Cons.prems by (intro Cons.IH) simp
  ultimately show ?case by (simp add: e)
qed

lemma unat_entry_offsets:
  assumes "length (entries_data es) \<le> 65536"
  shows "map (unat \<circ> (word_of_nat :: nat \<Rightarrow> u16)) (entry_offsets 0 es) = entry_offsets 0 es"
proof (rule map_idI)
  fix off assume "off \<in> set (entry_offsets 0 es)"
  then have "off < 65536" using entry_offsets_bound [of off 0 es] assms by simp
  then show "(unat \<circ> (word_of_nat :: nat \<Rightarrow> u16)) off = off" by simp
qed

text \<open>A block laid out from entries reads back those entries.\<close>

lemma block_entries_of_entries:
  assumes "\<forall>e \<in> set es. fits_u16 e" and "length (entries_data es) \<le> 65536"
  shows "block_entries (block_of_entries es) = Some es"
proof -
  have "those (map (read_entry (entries_data es)) (entry_offsets 0 es)) = Some es"
    using read_entries_layout [OF assms(1), of "[]" "[]"] by simp
  moreover have "map (\<lambda>off. read_entry (entries_data es) (unat off))
      (map (word_of_nat :: nat \<Rightarrow> u16) (entry_offsets 0 es))
    = map (read_entry (entries_data es)) (map (unat \<circ> (word_of_nat :: nat \<Rightarrow> u16)) (entry_offsets 0 es))"
    by simp
  ultimately show ?thesis
    using unat_entry_offsets [OF assms(2)]
    by (simp add: block_entries_def block_of_entries_def del: map_map)
qed

subsection \<open>Decoding inverts encoding\<close>

lemma decode_offsets_concat:
  "decode_offsets (pre @ concat (map put_u16 ws) @ suf) (length pre) (length pre + 2 * length ws)
     = Some ws"
proof (induction ws arbitrary: pre)
  case Nil
  then show ?case by (simp add: decode_offsets.simps)
next
  case (Cons w ws)
  have IH: "decode_offsets ((pre @ put_u16 w) @ concat (map put_u16 ws) @ suf)
              (length (pre @ put_u16 w)) (length (pre @ put_u16 w) + 2 * length ws) = Some ws"
    by (rule Cons.IH)
  have take2: "take 2 (drop (length pre) (pre @ concat (map put_u16 (w # ws)) @ suf)) = put_u16 w"
    by simp
  show ?case
    using IH by (simp add: decode_offsets.simps [of _ "length pre"] take2 add.assoc)
qed

lemma block_decode_encode_raw:
  assumes "length (blk_offsets b) < 65536"
  shows "block_decode (block_encode b) = Some b"
proof -
  let ?d = "blk_data b" and ?os = "blk_offsets b" and ?k = "length (blk_offsets b)"
  let ?cnt = "put_u16 (word_of_nat ?k)"
  have len: "length (block_encode b) = length ?d + 2 * ?k + 2"
    by (simp add: block_encode_def)
  have cnt: "drop (length ?d + 2 * ?k) (block_encode b) = ?cnt"
    by (simp add: block_encode_def)
  have offs: "decode_offsets (block_encode b) (length ?d) (length ?d + 2 * ?k) = Some ?os"
    using decode_offsets_concat [of ?d ?os ?cnt] by (simp add: block_encode_def)
  have data: "take (length ?d) (block_encode b) = ?d"
    by (simp add: block_encode_def)
  have sub2: "chk_sub (length (block_encode b)) 2 = Some (length ?d + 2 * ?k)"
    by (simp add: len)
  have subk: "chk_sub (length (block_encode b)) (Suc (Suc (?k * 2))) = Some (length ?d)"
    by (simp add: len)
  show ?thesis
    using assms by (simp add: block_decode_def sub2 cnt subk offs data)
qed

end
