(* ===== verification/Block_Builder.thy ===== *)
theory Block_Builder
  imports Block
begin

text \<open>
  \<open>BlockBuilder\<close> of \<open>src/mini-lsm-starter/src/block/builder.rs\<close>: a record with the
  source's five fields, \<open>new\<close>, \<open>add\<close> (its \<open>u16\<close> arithmetic overflow-checked as in a
  debug build, a panic being \<open>None\<close>), \<open>is_empty\<close> and \<open>build\<close>. The representation
  relation \<open>bb_repr b es\<close> says that the builder holds exactly the pairs \<open>es\<close> laid out
  as \<open>block_of_entries es\<close>; every operation keeps it, every builder reachable from
  \<open>new\<close> by adds of pairs whose lengths fit in \<open>u16\<close> satisfies it, and the block it
  builds reads back \<open>es\<close> and survives an encode/decode round trip.
\<close>

record block_builder =
  bb_block_size :: nat
  bb_data :: bytes
  bb_offsets :: "u16 list"
  bb_num_of_elements :: nat
  bb_next_offset :: u16

definition bb_new :: "nat \<Rightarrow> block_builder" where
  "bb_new block_size =
     \<lparr>bb_block_size = block_size, bb_data = [], bb_offsets = [], bb_num_of_elements = 0,
      bb_next_offset = 0\<rparr>"

text \<open>\<open>BlockBuilder::add\<close>: \<open>Some (False, b)\<close> is the early \<open>return false\<close> that leaves the
  builder untouched, \<open>Some (True, b')\<close> an accepted pair, \<open>None\<close> a \<open>u16\<close> overflow panic
  in \<open>2 + key_len + 2 + value_len\<close> or in \<open>self.next_offset + entry_size + 2\<close>.\<close>

definition bb_add :: "block_builder \<Rightarrow> bytes \<Rightarrow> bytes \<Rightarrow> (bool \<times> block_builder) option" where
  "bb_add b key value =
     (let key_len = (word_of_nat (length key) :: u16);
          value_len = (word_of_nat (length value) :: u16)
      in case chk_add16 2 key_len of None \<Rightarrow> None | Some s1 \<Rightarrow>
        (case chk_add16 s1 2 of None \<Rightarrow> None | Some s2 \<Rightarrow>
        (case chk_add16 s2 value_len of None \<Rightarrow> None | Some entry_size \<Rightarrow>
        (case chk_add16 (bb_next_offset b) entry_size of None \<Rightarrow> None | Some t1 \<Rightarrow>
        (case chk_add16 t1 2 of None \<Rightarrow> None | Some t2 \<Rightarrow>
         if bb_block_size b \<le> unat t2 then Some (False, b)
         else
           (case chk_add16 (bb_next_offset b) entry_size of None \<Rightarrow> None | Some next \<Rightarrow>
            Some (True, b\<lparr>bb_data := bb_data b @ put_u16 key_len @ key @ put_u16 value_len @ value,
                          bb_offsets := bb_offsets b @ [bb_next_offset b],
                          bb_next_offset := next,
                          bb_num_of_elements := bb_num_of_elements b + 1\<rparr>)))))))"

definition bb_is_empty :: "block_builder \<Rightarrow> bool" where
  "bb_is_empty b \<longleftrightarrow> bb_num_of_elements b = 0"

definition bb_build :: "block_builder \<Rightarrow> block" where
  "bb_build b = \<lparr>blk_data = bb_data b, blk_offsets = bb_offsets b\<rparr>"

subsection \<open>Representation invariant\<close>

definition bb_repr :: "block_builder \<Rightarrow> kv list \<Rightarrow> bool" where
  "bb_repr b es \<longleftrightarrow>
     bb_data b = entries_data es \<and>
     bb_offsets b = map word_of_nat (entry_offsets 0 es) \<and>
     unat (bb_next_offset b) = length (bb_data b) \<and>
     bb_num_of_elements b = length es \<and>
     (\<forall>e \<in> set es. fits_u16 e)"

text \<open>The executable invariant: the builder's own block reads back to some list of pairs
  and the builder is exactly the layout of that list.\<close>

definition bb_inv :: "block_builder \<Rightarrow> bool" where
  "bb_inv b = (case block_entries (bb_build b) of None \<Rightarrow> False | Some es \<Rightarrow> bb_repr b es)"

text \<open>The builders a caller can produce: \<open>new\<close>, then adds of pairs whose key and value
  lengths fit the 2-byte length fields (the caller's obligation, per the spec).\<close>

inductive bb_reachable :: "block_builder \<Rightarrow> bool" where
  new: "bb_reachable (bb_new n)"
| add: "bb_reachable b \<Longrightarrow> fits_u16 (k, v) \<Longrightarrow> bb_add b k v = Some (r, b') \<Longrightarrow> bb_reachable b'"

subsection \<open>Lemmas on \<open>add\<close>\<close>

lemma chk_add16_unat:
  "chk_add16 a b = (if unat a + unat b < 65536 then Some (a + b) else None)"
  by (simp add: chk_add16_def)

lemma unat_plus_small: "unat a + unat b < 65536 \<Longrightarrow> unat (a + b :: u16) = unat a + unat b"
  by (simp add: unat_add_lem [symmetric])

text \<open>Every branch of \<open>add\<close> for a pair whose lengths fit \<open>u16\<close>: a panic exactly when
  the end of the new entry plus the 2-byte trailer passes \<open>u16\<close>, a rejection when it
  reaches the budget, an append of the entry otherwise.\<close>

lemma bb_add_unfold:
  assumes "fits_u16 (k, v)"
  shows "bb_add b k v =
    (if 65536 \<le> unat (bb_next_offset b) + kv_size (k, v) + 2 then None
     else if bb_block_size b \<le> unat (bb_next_offset b) + kv_size (k, v) + 2 then Some (False, b)
     else Some (True, b\<lparr>bb_data := bb_data b @ entry_encode k v,
                          bb_offsets := bb_offsets b @ [bb_next_offset b],
                          bb_next_offset := bb_next_offset b + word_of_nat (kv_size (k, v)),
                          bb_num_of_elements := bb_num_of_elements b + 1\<rparr>))"
proof -
  have kl: "unat (word_of_nat (length k) :: u16) = length k"
    and vl: "unat (word_of_nat (length v) :: u16) = length v"
    using assms by simp_all
  show ?thesis
    using assms
    by (simp add: bb_add_def chk_add16_unat kl vl unat_plus_small kv_size_def entry_encode_def
        Let_def)
qed

lemma bb_add_True_budget:
  "bb_add b k v = Some (True, b') \<Longrightarrow> unat (bb_next_offset b') + 2 < bb_block_size b'"
  by (auto simp: bb_add_def Let_def chk_add16_Some_iff unat_plus_small split: option.splits if_splits)

lemma bb_repr_add:
  assumes "bb_repr b es" and "fits_u16 (k, v)" and "bb_add b k v = Some (True, b')"
  shows "bb_repr b' (es @ [(k, v)])"
proof -
  have nb: "\<not> 65536 \<le> unat (bb_next_offset b) + kv_size (k, v) + 2"
    and b': "b' = b\<lparr>bb_data := bb_data b @ entry_encode k v,
                    bb_offsets := bb_offsets b @ [bb_next_offset b],
                    bb_next_offset := bb_next_offset b + word_of_nat (kv_size (k, v)),
                    bb_num_of_elements := bb_num_of_elements b + 1\<rparr>"
    using assms(3) by (simp_all add: bb_add_unfold [OF assms(2)] split: if_splits)
  have len: "unat (bb_next_offset b) = length (entries_data es)"
    using assms(1) by (simp add: bb_repr_def)
  have "unat (bb_next_offset b + word_of_nat (kv_size (k, v))) = length (entries_data es) + kv_size (k, v)"
    using nb len by (simp add: unat_plus_small)
  moreover have "bb_next_offset b = word_of_nat (length (entries_data es))"
    using len word_of_nat_unat_id [of "bb_next_offset b"] by simp
  ultimately show ?thesis
    using assms(1,2) by (simp add: b' bb_repr_def entry_offsets_append)
qed

lemma bb_repr_add_any:
  "bb_repr b es \<Longrightarrow> fits_u16 (k, v) \<Longrightarrow> bb_add b k v = Some (r, b') \<Longrightarrow>
     bb_repr b' (if r then es @ [(k, v)] else es)"
  by (cases r) (auto dest: bb_repr_add simp: bb_add_unfold split: if_splits)

lemma bb_repr_new: "bb_repr (bb_new n) []"
  by (simp add: bb_repr_def bb_new_def)

lemma bb_repr_data_bound: "bb_repr b es \<Longrightarrow> length (bb_data b) < 65536"
  using unat_u16_bound [of "bb_next_offset b"] by (simp add: bb_repr_def)

lemma length_entries_ge: "4 * length es \<le> length (entries_data es)"
  by (induction es) (auto simp: kv_size_def)

lemma bb_repr_build_entries:
  "bb_repr b es \<Longrightarrow> block_entries (bb_build b) = Some es"
  using block_entries_of_entries [of es] bb_repr_data_bound [of b es]
  by (simp add: bb_repr_def bb_build_def block_of_entries_def)

lemma bb_repr_build: "bb_repr b es \<Longrightarrow> bb_build b = block_of_entries es"
  by (simp add: bb_repr_def bb_build_def block_of_entries_def)

lemma bb_repr_Nil_new: "bb_repr b [] \<Longrightarrow> b = bb_new (bb_block_size b)"
  by (cases b) (auto simp: bb_repr_def bb_new_def unat_eq_zero)

lemma bb_add_block_size: "bb_add b k v = Some (r, b') \<Longrightarrow> bb_block_size b' = bb_block_size b"
  by (auto simp: bb_add_def Let_def split: option.splits if_splits)

lemma bb_repr_add_budget:
  assumes "bb_repr b es" and "fits_u16 (k, v)" and "bb_add b k v = Some (True, b')"
  shows "length (entries_data (es @ [(k, v)])) + 2 < bb_block_size b"
  using bb_repr_add [OF assms] bb_add_True_budget [OF assms(3)] bb_add_block_size [OF assms(3)]
  by (simp add: bb_repr_def)

lemma bb_repr_unique: "bb_repr b es \<Longrightarrow> bb_repr b es' \<Longrightarrow> es' = es"
  by (metis bb_repr_build_entries option.inject)

lemma bb_inv_iff: "bb_inv b \<longleftrightarrow> (\<exists>es. bb_repr b es)"
  by (auto simp: bb_inv_def bb_repr_build_entries split: option.splits dest: bb_repr_build_entries)

lemma bb_reachable_repr: "bb_reachable b \<Longrightarrow> \<exists>es. bb_repr b es"
proof (induction rule: bb_reachable.induct)
  case (new n)
  then show ?case using bb_repr_new by blast
next
  case (add b k v r b')
  then show ?case using bb_repr_add_any by blast
qed

subsection \<open>Properties of the builder\<close>

text \<open>A rejected \<open>add\<close> changes nothing, so a builder that holds a pair keeps the
  budget of its last accepted \<open>add\<close>; the encoded block is the data, two bytes per
  offset and the two-byte count.\<close>

lemma bb_add_False_same: "fits_u16 (k, v) \<Longrightarrow> bb_add b k v = Some (False, b') \<Longrightarrow> b' = b"
  by (auto simp: bb_add_unfold split: if_splits)

lemma bb_reachable_budget:
  "bb_reachable b \<Longrightarrow> bb_num_of_elements b \<noteq> 0 \<Longrightarrow> length (bb_data b) + 2 < bb_block_size b"
proof (induction rule: bb_reachable.induct)
  case (new n)
  then show ?case by (simp add: bb_new_def)
next
  case (add b k v r b')
  obtain es where repr: "bb_repr b es" using bb_reachable_repr [OF add.hyps(1)] ..
  show ?case
  proof (cases r)
    case True
    then have "bb_repr b' (es @ [(k, v)])" using bb_repr_add [OF repr add.hyps(2)] add.hyps(3) by simp
    then show ?thesis using bb_add_True_budget [of b k v b'] add.hyps(3) True by (simp add: bb_repr_def)
  next
    case False
    then have "b' = b" using bb_add_False_same [OF add.hyps(2)] add.hyps(3) by simp
    then show ?thesis using add.IH add.prems by simp
  qed
qed

lemma length_block_encode:
  "length (block_encode blk) = length (blk_data blk) + 2 * length (blk_offsets blk) + 2"
  by (simp add: block_encode_def put_u16_def)

text \<open>C3. All-or-nothing \<open>add\<close> (spec sections 4.1 and 8): when \<open>add\<close> returns
  \<open>false\<close> the builder is left exactly as it was: no byte of the entry is written, no
  offset pushed, \<open>next_offset\<close> and the entry count unchanged.\<close>

theorem add_rejection_leaves_builder:
  "bb_add b k v = Some (False, b') \<Longrightarrow> b' = b"
  by (auto simp: bb_add_def Let_def split: option.splits if_splits)

theorem add_rejection_leaves_builder_witness:
  "bb_add (bb_new 6) [1] [2] = Some (False, bb_new 6)"
proof -
  have r: "\<exists>b'. bb_add (bb_new 6) [1] [2] = Some (False, b')"
    by (simp add: bb_add_unfold bb_new_def kv_size_def)
  then obtain b' where b': "bb_add (bb_new 6) [1] [2] = Some (False, b')" by blast
  then have "b' = bb_new 6" by (rule add_rejection_leaves_builder)
  with b' show ?thesis by simp
qed

text \<open>C4. Builder invariant: every builder reachable from \<open>BlockBuilder::new\<close> by adds of
  pairs whose key and value lengths fit the 2-byte length fields satisfies the executable
  invariant \<open>bb_inv\<close>: its data is the concatenated entry encodings of the pairs it
  accepted, its offsets are their start positions, \<open>next_offset\<close> is the data length
  and \<open>num_of_elements\<close> the number of pairs.\<close>

theorem builder_reachable_invariant: "bb_reachable b \<Longrightarrow> bb_inv b"
  using bb_reachable_repr bb_inv_iff by blast

theorem builder_reachable_invariant_witness:
  "bb_reachable (bb_new 64) \<and> bb_inv (bb_new 64) \<and>
   bb_add (bb_new 64) [1] [2] = Some (True, \<lparr>bb_block_size = 64, bb_data = [0, 1, 1, 0, 1, 2],
      bb_offsets = [0], bb_num_of_elements = 1, bb_next_offset = 6\<rparr>) \<and>
   bb_inv \<lparr>bb_block_size = 64, bb_data = [0, 1, 1, 0, 1, 2],
      bb_offsets = [0], bb_num_of_elements = 1, bb_next_offset = 6\<rparr>"
proof -
  have r0: "bb_reachable (bb_new 64)" by (rule bb_reachable.new)
  have a: "bb_add (bb_new 64) [1] [2] = Some (True, \<lparr>bb_block_size = 64, bb_data = [0, 1, 1, 0, 1, 2],
      bb_offsets = [0], bb_num_of_elements = 1, bb_next_offset = 6\<rparr>)"
    by (simp add: bb_add_unfold bb_new_def kv_size_def entry_encode_def put_u16_def)
  have r1: "bb_reachable \<lparr>bb_block_size = 64, bb_data = [0, 1, 1, 0, 1, 2],
      bb_offsets = [0], bb_num_of_elements = 1, bb_next_offset = 6\<rparr>"
    by (rule bb_reachable.add [OF r0 _ a]) simp
  show ?thesis
    using r0 r1 a builder_reachable_invariant [OF r0] builder_reachable_invariant [OF r1] by simp
qed

text \<open>C5. Budget bound: after an accepted \<open>add\<close> the builder's data plus the 2-byte
  count trailer stays strictly below the configured \<open>block_size\<close>.\<close>

theorem add_accepted_within_budget:
  "bb_repr b es \<Longrightarrow> fits_u16 (k, v) \<Longrightarrow> bb_add b k v = Some (True, b') \<Longrightarrow>
     length (bb_data b') + 2 < bb_block_size b'"
  using bb_repr_add [of b es k v b'] bb_add_True_budget [of b k v b'] by (simp add: bb_repr_def)

theorem add_accepted_within_budget_witness:
  "bb_repr (bb_new 64) [] \<and> fits_u16 ([1], [2]) \<and>
   bb_add (bb_new 64) [1] [2] = Some (True, \<lparr>bb_block_size = 64, bb_data = [0, 1, 1, 0, 1, 2],
      bb_offsets = [0], bb_num_of_elements = 1, bb_next_offset = 6\<rparr>) \<and>
   length [0, 1, 1, 0, 1, (2::byte)] + 2 < (64::nat)"
proof -
  have r: "bb_repr (bb_new 64) []" by (rule bb_repr_new)
  have f: "fits_u16 ([1], [2])" by simp
  have a: "bb_add (bb_new 64) [1] [2] = Some (True, \<lparr>bb_block_size = 64, bb_data = [0, 1, 1, 0, 1, 2],
      bb_offsets = [0], bb_num_of_elements = 1, bb_next_offset = 6\<rparr>)"
    by (simp add: bb_add_unfold bb_new_def kv_size_def entry_encode_def put_u16_def)
  show ?thesis using add_accepted_within_budget [OF r f a] r f a by simp
qed

text \<open>C6. Overflow panics of \<open>add\<close>: for a builder holding some pairs and a pair whose
  lengths fit \<open>u16\<close>, \<open>add\<close> panics (a \<open>u16\<close> overflow in a debug build) exactly
  when the end of the new entry plus the 2-byte trailer reaches 65536, whatever the
  budget; otherwise it returns.\<close>

theorem add_panics_iff_u16_overflow:
  "bb_repr b es \<Longrightarrow> fits_u16 (k, v) \<Longrightarrow>
     bb_add b k v = None \<longleftrightarrow> 65536 \<le> length (bb_data b) + kv_size (k, v) + 2"
  by (auto simp: bb_add_unfold bb_repr_def)

theorem add_panics_iff_u16_overflow_witness:
  "bb_add (bb_new 4096) (replicate 65530 0) [] = None"
proof -
  have r: "bb_repr (bb_new 4096) []" by (rule bb_repr_new)
  have f: "fits_u16 (replicate 65530 0, [])" by simp
  show ?thesis
    using add_panics_iff_u16_overflow [OF r f] by (simp add: bb_new_def kv_size_def)
qed

text \<open>C8. The budget does not bound the encoded block. Take any builder reachable from
  \<open>new\<close> that holds \<open>n > 0\<close> pairs. \<open>Block::encode\<close> of its block is the data plus
  \<open>2 * n + 2\<close> bytes, while \<open>add\<close> keeps only the data plus 2 below \<open>block_size\<close>, since its
  check ignores the 2 offset bytes of each entry. So the encoded block may exceed
  \<open>block_size\<close>, by less than \<open>2 * n\<close> bytes.\<close>

theorem encoded_block_size_bound:
  assumes "bb_reachable b" and "bb_num_of_elements b \<noteq> 0"
  shows "length (block_encode (bb_build b)) = length (bb_data b) + 2 * bb_num_of_elements b + 2 \<and>
         length (bb_data b) + 2 < bb_block_size b \<and>
         length (block_encode (bb_build b)) < bb_block_size b + 2 * bb_num_of_elements b"
proof -
  obtain es where repr: "bb_repr b es" using bb_reachable_repr [OF assms(1)] ..
  have "length (bb_offsets b) = bb_num_of_elements b" using repr by (simp add: bb_repr_def)
  then have len: "length (block_encode (bb_build b)) = length (bb_data b) + 2 * bb_num_of_elements b + 2"
    by (simp add: length_block_encode bb_build_def)
  moreover have "length (bb_data b) + 2 < bb_block_size b" using bb_reachable_budget [OF assms] .
  ultimately show ?thesis by simp
qed

theorem encoded_block_size_bound_witness:
  "bb_reachable \<lparr>bb_block_size = 20, bb_data = [0, 1, 1, 0, 0, 0, 1, 2, 0, 0, 0, 1, 3, 0, 0],
      bb_offsets = [0, 5, 10], bb_num_of_elements = 3, bb_next_offset = 15\<rparr> \<and>
   length (block_encode (bb_build \<lparr>bb_block_size = 20, bb_data = [0, 1, 1, 0, 0, 0, 1, 2, 0, 0, 0, 1, 3, 0, 0],
      bb_offsets = [0, 5, 10], bb_num_of_elements = 3, bb_next_offset = 15\<rparr>)) = 23"
proof -
  have a1: "bb_add (bb_new 20) [1] [] = Some (True, \<lparr>bb_block_size = 20, bb_data = [0, 1, 1, 0, 0],
      bb_offsets = [0], bb_num_of_elements = 1, bb_next_offset = 5\<rparr>)"
    by (simp add: bb_add_unfold bb_new_def kv_size_def entry_encode_def put_u16_def)
  have a2: "bb_add \<lparr>bb_block_size = 20, bb_data = [0, 1, 1, 0, 0],
      bb_offsets = [0], bb_num_of_elements = 1, bb_next_offset = 5\<rparr> [2] [] =
      Some (True, \<lparr>bb_block_size = 20, bb_data = [0, 1, 1, 0, 0, 0, 1, 2, 0, 0],
      bb_offsets = [0, 5], bb_num_of_elements = 2, bb_next_offset = 10\<rparr>)"
    by (simp add: bb_add_unfold kv_size_def entry_encode_def put_u16_def)
  have a3: "bb_add \<lparr>bb_block_size = 20, bb_data = [0, 1, 1, 0, 0, 0, 1, 2, 0, 0],
      bb_offsets = [0, 5], bb_num_of_elements = 2, bb_next_offset = 10\<rparr> [3] [] =
      Some (True, \<lparr>bb_block_size = 20, bb_data = [0, 1, 1, 0, 0, 0, 1, 2, 0, 0, 0, 1, 3, 0, 0],
      bb_offsets = [0, 5, 10], bb_num_of_elements = 3, bb_next_offset = 15\<rparr>)"
    by (simp add: bb_add_unfold kv_size_def entry_encode_def put_u16_def)
  have r: "bb_reachable \<lparr>bb_block_size = 20, bb_data = [0, 1, 1, 0, 0, 0, 1, 2, 0, 0, 0, 1, 3, 0, 0],
      bb_offsets = [0, 5, 10], bb_num_of_elements = 3, bb_next_offset = 15\<rparr>"
    using bb_reachable.add [OF bb_reachable.add [OF bb_reachable.add [OF bb_reachable.new _ a1] _ a2] _ a3]
    by simp
  show ?thesis using r encoded_block_size_bound [OF r] by simp
qed

end
