(* ===== verification/Storage_Iterator.thy ===== *)
theory Storage_Iterator
  imports Prelude
begin

text \<open>
  The \<open>StorageIterator\<close> capability every iterator of the crate implements (spec
  section 6; its trait declaration lives in \<open>iterators/mod.rs\<close>, outside the sources
  at hand): \<open>key\<close>, \<open>value\<close>, \<open>is_valid\<close> and a fallible \<open>next\<close>. It is a record
  of four functions over the iterator's state type \<open>'i\<close>; the merge iterators are
  defined over any such record, and each concrete iterator provides one.
  \<open>next\<close> returns the state it leaves behind, with \<open>Some e\<close> when it returned
  \<open>Err(e)\<close> (Rust mutates through \<open>&mut self\<close> before an error propagates), and
  \<open>None\<close> when it does not return: the merge iterators' \<open>next\<close> contains loops that
  spin forever on a source that breaks the contract.
  \<open>drain\<close> is the caller's loop \<open>while it.is_valid() { collect; it.next()? }\<close>
  with a fuel bound (\<open>None\<close> when the fuel runs out), and \<open>lawful ops I view\<close> is the
  contract an iterator keeps towards an abstract list of pairs \<open>view\<close> under an
  invariant \<open>I\<close>.
\<close>

record 'i iter_ops =
  it_key :: "'i \<Rightarrow> bytes"
  it_value :: "'i \<Rightarrow> bytes"
  it_is_valid :: "'i \<Rightarrow> bool"
  it_next :: "'i \<Rightarrow> ('i \<times> err option) option"

fun drain :: "'i iter_ops \<Rightarrow> nat \<Rightarrow> 'i \<Rightarrow> (err + kv list) option" where
  "drain ops 0 it = (if it_is_valid ops it then None else Some (Inr []))"
| "drain ops (Suc n) it =
     (if it_is_valid ops it then
        (case it_next ops it of
           None \<Rightarrow> None
         | Some (_, Some e) \<Rightarrow> Some (Inl e)
         | Some (it', None) \<Rightarrow> map_option (map_sum id (Cons (it_key ops it, it_value ops it))) (drain ops n it'))
      else Some (Inr []))"

text \<open>An iterator whose states satisfying \<open>I\<close> present the list \<open>view it\<close>: valid exactly
  when the list is non-empty, positioned at its head, and \<open>next\<close>, when it succeeds,
  drops the head and keeps \<open>I\<close>.\<close>

definition lawful :: "'i iter_ops \<Rightarrow> ('i \<Rightarrow> bool) \<Rightarrow> ('i \<Rightarrow> kv list) \<Rightarrow> bool" where
  "lawful ops I view \<longleftrightarrow>
     (\<forall>it. I it \<longrightarrow>
        (it_is_valid ops it \<longleftrightarrow> view it \<noteq> []) \<and>
        (view it \<noteq> [] \<longrightarrow> (it_key ops it, it_value ops it) = hd (view it)) \<and>
        (\<forall>it'. view it \<noteq> [] \<longrightarrow> it_next ops it = Some (it', None) \<longrightarrow> I it' \<and> view it' = tl (view it)))"

text \<open>A source the merge iterators can rely on: lawful, its \<open>next\<close> returns without
  error while it is valid, and its view is strictly ascending.\<close>

definition sound :: "'i iter_ops \<Rightarrow> ('i \<Rightarrow> bool) \<Rightarrow> ('i \<Rightarrow> kv list) \<Rightarrow> bool" where
  "sound ops I view \<longleftrightarrow>
     lawful ops I view \<and>
     (\<forall>it. I it \<longrightarrow> it_is_valid ops it \<longrightarrow> (\<exists>it'. it_next ops it = Some (it', None))) \<and>
     (\<forall>it. I it \<longrightarrow> keys_ascending (view it))"

text \<open>A reference source over a list of pairs (the shape of an in-memory source such
  as a memtable iterator), used to exercise the merge iterators on concrete inputs.\<close>

definition list_iter_ops :: "kv list iter_ops" where
  "list_iter_ops =
     \<lparr>it_key = (\<lambda>xs. fst (hd xs)), it_value = (\<lambda>xs. snd (hd xs)), it_is_valid = (\<lambda>xs. xs \<noteq> []),
      it_next = (\<lambda>xs. Some (tl xs, None))\<rparr>"

lemma lawful_valid: "lawful ops I view \<Longrightarrow> I it \<Longrightarrow> it_is_valid ops it \<longleftrightarrow> view it \<noteq> []"
  unfolding lawful_def by blast

lemma lawful_head:
  "lawful ops I view \<Longrightarrow> I it \<Longrightarrow> view it \<noteq> [] \<Longrightarrow> (it_key ops it, it_value ops it) = hd (view it)"
  unfolding lawful_def by blast

lemma lawful_next:
  "lawful ops I view \<Longrightarrow> I it \<Longrightarrow> view it \<noteq> [] \<Longrightarrow> it_next ops it = Some (it', None) \<Longrightarrow>
     I it' \<and> view it' = tl (view it)"
  unfolding lawful_def by blast

lemma drain_invalid [simp]: "\<not> it_is_valid ops it \<Longrightarrow> drain ops n it = Some (Inr [])"
  by (cases n) simp_all

lemma drain_more_fuel:
  "drain ops n it = Some r \<Longrightarrow> drain ops (n + m) it = Some r"
proof (induction n arbitrary: it r)
  case 0
  then show ?case by (cases m) (simp_all split: if_splits)
next
  case (Suc n)
  show ?case
  proof (cases "it_is_valid ops it")
    case False
    then show ?thesis using Suc.prems by simp
  next
    case True
    show ?thesis
    proof (cases "it_next ops it")
      case None
      then show ?thesis using Suc.prems True by simp
    next
      case (Some r')
      obtain it' e where "r' = (it', e)" by fastforce
      then show ?thesis using Suc True Some by (cases e) auto
    qed
  qed
qed

text \<open>A lawful iterator whose next always returns and never fails drains to its view with as much fuel
  as the view is long.\<close>

lemma drain_lawful:
  assumes "lawful ops I view" and "I it"
    and "\<And>it. I it \<Longrightarrow> it_is_valid ops it \<Longrightarrow> \<exists>it'. it_next ops it = Some (it', None)"
  shows "drain ops (length (view it)) it = Some (Inr (view it))"
  using assms(2)
proof (induction "length (view it)" arbitrary: it)
  case 0
  then have "\<not> it_is_valid ops it" using lawful_valid [OF assms(1)] by simp
  with "0.hyps" show ?case by simp
next
  case (Suc n)
  then have ne: "view it \<noteq> []" by auto
  then have valid: "it_is_valid ops it"
    using lawful_valid [OF assms(1) Suc.prems] by simp
  obtain it' where nx: "it_next ops it = Some (it', None)"
    using assms(3) [OF Suc.prems valid] by blast
  have I': "I it'" and v': "view it' = tl (view it)"
    using lawful_next [OF assms(1) Suc.prems ne nx] by simp_all
  have hd: "(it_key ops it, it_value ops it) = hd (view it)"
    using lawful_head [OF assms(1) Suc.prems ne] .
  have len: "n = length (view it')"
    using Suc.hyps(2) v' by simp
  have rest: "drain ops n it' = Some (Inr (view it'))"
    using Suc.hyps(1) [OF len I'] len by simp
  have vw: "view it = (it_key ops it, it_value ops it) # view it'"
    using hd v' ne by simp
  have "drain ops (Suc n) it = Some (Inr ((it_key ops it, it_value ops it) # view it'))"
    using valid nx rest by simp
  then show ?case
    using Suc.hyps(2) vw by simp
qed

lemma sound_lawful: "sound ops I view \<Longrightarrow> lawful ops I view"
  by (simp add: sound_def)

lemma sound_ascending: "sound ops I view \<Longrightarrow> I it \<Longrightarrow> keys_ascending (view it)"
  by (simp add: sound_def)

lemma sound_total:
  "sound ops I view \<Longrightarrow> I it \<Longrightarrow> it_is_valid ops it \<Longrightarrow> \<exists>it'. it_next ops it = Some (it', None)"
  unfolding sound_def by blast

lemma sound_invalid: "sound ops I view \<Longrightarrow> I it \<Longrightarrow> \<not> it_is_valid ops it \<Longrightarrow> view it = []"
  by (simp add: lawful_valid [OF sound_lawful])

lemma sound_head:
  "sound ops I view \<Longrightarrow> I it \<Longrightarrow> it_is_valid ops it \<Longrightarrow>
     view it = (it_key ops it, it_value ops it) # tl (view it)"
proof -
  assume a: "sound ops I view" "I it" "it_is_valid ops it"
  then have ne: "view it \<noteq> []" using lawful_valid [OF sound_lawful [OF a(1)] a(2)] by simp
  have "(it_key ops it, it_value ops it) = hd (view it)"
    using lawful_head [OF sound_lawful [OF a(1)] a(2) ne] .
  then show ?thesis using ne by (cases "view it") simp_all
qed

lemma sound_next:
  assumes "sound ops I view" and "I it" and "it_is_valid ops it"
  shows "\<exists>it'. it_next ops it = Some (it', None) \<and> I it' \<and> view it' = tl (view it)"
proof -
  obtain it' where nx: "it_next ops it = Some (it', None)"
    using sound_total [OF assms] by blast
  moreover have "view it \<noteq> []" using lawful_valid [OF sound_lawful [OF assms(1)] assms(2)] assms(3) by simp
  ultimately show ?thesis using lawful_next [OF sound_lawful [OF assms(1)] assms(2)] by blast
qed

lemma drain_sound:
  assumes "sound ops I view" and "I it"
  shows "drain ops (length (view it)) it = Some (Inr (view it))"
proof (rule drain_lawful [OF sound_lawful [OF assms(1)] assms(2)])
  fix it' assume "I it'" and "it_is_valid ops it'"
  then show "\<exists>it''. it_next ops it' = Some (it'', None)" by (rule sound_total [OF assms(1)])
qed

lemma drain_sound_le:
  assumes "sound ops I view" and "I it" and "length (view it) \<le> n"
  shows "drain ops n it = Some (Inr (view it))"
proof -
  have "drain ops (length (view it) + (n - length (view it))) it = Some (Inr (view it))"
    by (rule drain_more_fuel [OF drain_sound [OF assms(1,2)]])
  then show ?thesis using assms(3) by simp
qed

lemma list_iter_sound: "sound list_iter_ops keys_ascending id"
proof -
  have "keys_ascending xs \<Longrightarrow> keys_ascending (tl xs)" for xs :: "kv list"
    by (cases xs) simp_all
  then show ?thesis by (auto simp: sound_def lawful_def list_iter_ops_def)
qed

end
