(* ===== verification/Block_Iterator.thy ===== *)
theory Block_Iterator
  imports Block Storage_Iterator
begin

text \<open>
  \<open>BlockIterator\<close> of \<open>src/mini-lsm-starter/src/block/iterator.rs\<close>: the record of its
  four fields, \<open>seek_to_offset\<close>, \<open>seek_to\<close>, \<open>seek_to_first\<close>, \<open>next\<close> and the binary
  search of \<open>seek_to_key\<close> (a \<open>function\<close> whose termination measure is
  \<open>right - left\<close>), a panic of the entry parser being \<open>None\<close>. Validity is
  \<open>!self.key.is_empty()\<close>, as in the source. The lemmas show that \<open>seek_to\<close> reads the
  entry at the index, that \<open>seek_to_key\<close> lands on the lower bound of the target among
  strictly ascending keys, and that a scan from \<open>seek_to_first\<close> yields the block's
  entries up to the first empty key.
\<close>

record block_iter =
  bi_block :: block
  bi_key :: bytes
  bi_value :: bytes
  bi_idx :: nat

definition bi_new :: "block \<Rightarrow> block_iter" where
  "bi_new b = \<lparr>bi_block = b, bi_key = [], bi_value = [], bi_idx = 0\<rparr>"

definition bi_is_valid :: "block_iter \<Rightarrow> bool" where
  "bi_is_valid it \<longleftrightarrow> bi_key it \<noteq> []"

definition bi_seek_to_offset :: "block_iter \<Rightarrow> nat \<Rightarrow> block_iter option" where
  "bi_seek_to_offset it off =
     (case read_entry (blk_data (bi_block it)) off of
        None \<Rightarrow> None
      | Some (k, v) \<Rightarrow> Some (it\<lparr>bi_key := k, bi_value := v\<rparr>))"

definition bi_seek_to :: "block_iter \<Rightarrow> nat \<Rightarrow> block_iter option" where
  "bi_seek_to it i =
     (if length (blk_offsets (bi_block it)) \<le> i then Some (it\<lparr>bi_key := [], bi_value := []\<rparr>)
      else map_option (\<lambda>it'. it'\<lparr>bi_idx := i\<rparr>)
             (bi_seek_to_offset it (unat (blk_offsets (bi_block it) ! i))))"

definition bi_seek_to_first :: "block_iter \<Rightarrow> block_iter option" where
  "bi_seek_to_first it = bi_seek_to it 0"

definition bi_next :: "block_iter \<Rightarrow> block_iter option" where
  "bi_next it = bi_seek_to (it\<lparr>bi_idx := bi_idx it + 1\<rparr>) (bi_idx it + 1)"

function bi_bsearch :: "block_iter \<Rightarrow> bytes \<Rightarrow> nat \<Rightarrow> nat \<Rightarrow> block_iter option" where
  "bi_bsearch it key left right =
     (if left < right then
        (let mid = (left + right) div 2 in
         case bi_seek_to it mid of
           None \<Rightarrow> None
         | Some it' \<Rightarrow>
             (if bi_key it' = key then Some it'
              else if bi_key it' < key then bi_bsearch it' key (mid + 1) right
              else bi_bsearch it' key left mid))
      else bi_seek_to it left)"
  by pat_completeness auto
termination
  by (relation "measure (\<lambda>(it, key, left, right). right - left)") auto

declare bi_bsearch.simps [simp del]

definition bi_seek_to_key :: "block_iter \<Rightarrow> bytes \<Rightarrow> block_iter option" where
  "bi_seek_to_key it key = bi_bsearch it key 0 (length (blk_offsets (bi_block it)))"

definition bi_create_and_seek_to_first :: "block \<Rightarrow> block_iter option" where
  "bi_create_and_seek_to_first b = bi_seek_to_first (bi_new b)"

definition bi_create_and_seek_to_key :: "block \<Rightarrow> bytes \<Rightarrow> block_iter option" where
  "bi_create_and_seek_to_key b key = bi_seek_to_key (bi_new b) key"

text \<open>\<open>BlockIterator\<close> seen through the iterator interface; \<open>next\<close> cannot fail
  except by a panic of the entry parser.\<close>

definition block_iter_ops :: "block_iter iter_ops" where
  "block_iter_ops =
     \<lparr>it_key = bi_key, it_value = bi_value, it_is_valid = bi_is_valid,
      it_next = (\<lambda>it. Some (case bi_next it of None \<Rightarrow> (it, Some Panic) | Some it' \<Rightarrow> (it', None)))\<rparr>"

subsection \<open>Position of an iterator\<close>

text \<open>\<open>bi_at es i it\<close>: the iterator shows entry \<open>i\<close> of \<open>es\<close>, or, past the end, the
  cleared key and value of the exhausted state.\<close>

definition bi_at :: "kv list \<Rightarrow> nat \<Rightarrow> block_iter \<Rightarrow> bool" where
  "bi_at es i it \<longleftrightarrow>
     (if i < length es then bi_key it = fst (es ! i) \<and> bi_value it = snd (es ! i) \<and> bi_idx it = i
      else bi_key it = [] \<and> bi_value it = [])"

definition lower_bound :: "kv list \<Rightarrow> bytes \<Rightarrow> nat" where
  "lower_bound es key = length (takeWhile (\<lambda>e. fst e < key) es)"

lemma block_entries_nth:
  assumes "block_entries b = Some es" and "i < length es"
  shows "length (blk_offsets b) = length es"
    and "read_entry (blk_data b) (unat (blk_offsets b ! i)) = Some (es ! i)"
  using those_Some_nth [OF assms(1) [unfolded block_entries_def]] assms(2) by auto

lemma bi_seek_to_at:
  assumes "block_entries (bi_block it) = Some es"
  shows "\<exists>it'. bi_seek_to it i = Some it' \<and> bi_block it' = bi_block it \<and> bi_at es i it'"
proof (cases "i < length es")
  case True
  then show ?thesis
    using block_entries_nth [OF assms True]
    by (auto simp: bi_seek_to_def bi_seek_to_offset_def bi_at_def split: prod.splits)
next
  case False
  have "length (blk_offsets (bi_block it)) = length es"
    using those_Some_nth [OF assms [unfolded block_entries_def]] by simp
  with False show ?thesis by (simp add: bi_seek_to_def bi_at_def)
qed

lemma lower_bound_eqI:
  assumes "i \<le> length es" and "\<forall>j < i. fst (es ! j) < key"
    and "i < length es \<Longrightarrow> \<not> fst (es ! i) < key"
  shows "lower_bound es key = i"
  unfolding lower_bound_def using assms by (rule length_takeWhile_eqI)

lemma bi_bsearch_at:
  assumes "block_entries (bi_block it) = Some es" and "keys_ascending es"
    and "left \<le> right" and "right \<le> length es"
    and "\<forall>j < left. fst (es ! j) < key"
    and "\<forall>j. right \<le> j \<and> j < length es \<longrightarrow> key < fst (es ! j)"
  shows "\<exists>it'. bi_bsearch it key left right = Some it' \<and> bi_block it' = bi_block it \<and>
           bi_at es (lower_bound es key) it'"
  using assms
proof (induction it key left right rule: bi_bsearch.induct)
  case (1 it key left right)
  show ?case
  proof (cases "left < right")
    case False
    then have "left = right" using "1.prems"(3) by simp
    then have lb: "lower_bound es key = left"
      using "1.prems"(4-6) by (intro lower_bound_eqI) auto
    show ?thesis
      using bi_seek_to_at [OF "1.prems"(1), of left] False lb
      by (simp add: bi_bsearch.simps [of it key left right])
  next
    case True
    define mid where "mid = (left + right) div 2"
    have mid: "left \<le> mid" "mid < right" using True by (simp_all add: mid_def)
    then have mid_len: "mid < length es" using "1.prems"(4) by simp
    obtain it' where sk: "bi_seek_to it mid = Some it'" and blk: "bi_block it' = bi_block it"
      and at: "bi_at es mid it'"
      using bi_seek_to_at [OF "1.prems"(1), of mid] by blast
    have key': "bi_key it' = fst (es ! mid)" using at mid_len by (simp add: bi_at_def)
    have sorted: "\<And>i j. i < j \<Longrightarrow> j < length es \<Longrightarrow> fst (es ! i) < fst (es ! j)"
      using "1.prems"(2) by (simp add: sorted_wrt_iff_nth_less)
    show ?thesis
    proof (cases "bi_key it' = key")
      case True
      then have "lower_bound es key = mid"
        using key' mid_len sorted by (intro lower_bound_eqI) auto
      then show ?thesis
        using True sk blk at \<open>left < right\<close>
        by (simp add: bi_bsearch.simps [of it key left right] mid_def [symmetric])
    next
      case ne: False
      show ?thesis
      proof (cases "bi_key it' < key")
        case True
        have inv: "\<forall>j < mid + 1. fst (es ! j) < key"
        proof (intro allI impI)
          fix j assume "j < mid + 1"
          then have "j = mid \<or> j < mid" by linarith
          then show "fst (es ! j) < key"
            using True key' sorted [of j mid] mid_len by auto
        qed
        have be': "block_entries (bi_block it') = Some es" using blk "1.prems"(1) by simp
        have le': "mid + 1 \<le> right" using mid by simp
        obtain r where "bi_bsearch it' key (mid + 1) right = Some r" "bi_block r = bi_block it'"
          "bi_at es (lower_bound es key) r"
          using "1.IH"(1) [OF \<open>left < right\<close> mid_def sk ne True be' "1.prems"(2) le'
              "1.prems"(4) inv "1.prems"(6)]
          by blast
        then show ?thesis
          using \<open>left < right\<close> sk ne True blk
          by (simp add: bi_bsearch.simps [of it key left right] mid_def [symmetric])
      next
        case False
        then have gt: "key < fst (es ! mid)" using ne key' by auto
        have inv: "\<forall>j. mid \<le> j \<and> j < length es \<longrightarrow> key < fst (es ! j)"
        proof (intro allI impI)
          fix j assume "mid \<le> j \<and> j < length es"
          then have "j = mid \<or> mid < j \<and> j < length es" by linarith
          then show "key < fst (es ! j)"
            using gt sorted [of mid j] by auto
        qed
        have be': "block_entries (bi_block it') = Some es" using blk "1.prems"(1) by simp
        have le': "mid \<le> length es" using mid_len by simp
        obtain r where "bi_bsearch it' key left mid = Some r" "bi_block r = bi_block it'"
          "bi_at es (lower_bound es key) r"
          using "1.IH"(2) [OF \<open>left < right\<close> mid_def sk ne False be' "1.prems"(2) mid(1)
              le' "1.prems"(5) inv]
          by blast
        then show ?thesis
          using \<open>left < right\<close> sk ne False blk
          by (simp add: bi_bsearch.simps [of it key left right] mid_def [symmetric])
      qed
    qed
  qed
qed


lemma bi_seek_to_key_at:
  assumes "block_entries (bi_block it) = Some es" and "keys_ascending es"
  shows "\<exists>it'. bi_seek_to_key it key = Some it' \<and> bi_block it' = bi_block it \<and>
           bi_at es (lower_bound es key) it'"
proof -
  have "length (blk_offsets (bi_block it)) = length es"
    using those_Some_nth [OF assms(1) [unfolded block_entries_def]] by simp
  moreover have "\<exists>it'. bi_bsearch it key 0 (length es) = Some it' \<and> bi_block it' = bi_block it \<and>
      bi_at es (lower_bound es key) it'"
    by (rule bi_bsearch_at [OF assms]) auto
  ultimately show ?thesis by (simp add: bi_seek_to_key_def)
qed

subsection \<open>Scanning a block\<close>

text \<open>The list a block iterator still has to show: nothing when its key is empty (the
  source's invalid state), else the entries from its index up to the first empty key.\<close>

definition bi_view :: "kv list \<Rightarrow> block_iter \<Rightarrow> kv list" where
  "bi_view es it = (if bi_key it = [] then [] else takeWhile (\<lambda>e. fst e \<noteq> []) (drop (bi_idx it) es))"

definition bi_inv :: "block \<Rightarrow> kv list \<Rightarrow> block_iter \<Rightarrow> bool" where
  "bi_inv b es it \<longleftrightarrow>
     block_entries b = Some es \<and> bi_block it = b \<and>
     (bi_key it \<noteq> [] \<longrightarrow> bi_idx it < length es \<and> bi_at es (bi_idx it) it)"

lemma takeWhile_drop_nth:
  "i < length xs \<Longrightarrow>
     takeWhile P (drop i xs) = (if P (xs ! i) then xs ! i # takeWhile P (drop (Suc i) xs) else [])"
  by (simp add: Cons_nth_drop_Suc [symmetric])

lemma bi_at_inv:
  "block_entries b = Some es \<Longrightarrow> bi_block it = b \<Longrightarrow> bi_at es i it \<Longrightarrow> bi_inv b es it"
  by (auto simp: bi_inv_def bi_at_def split: if_splits)

lemma bi_at_view:
  "bi_at es i it \<Longrightarrow> bi_view es it = takeWhile (\<lambda>e. fst e \<noteq> []) (drop i es)"
  by (auto simp: bi_view_def bi_at_def not_less takeWhile_drop_nth split: if_splits)

lemma bi_next_at:
  assumes "bi_inv b es it" and "bi_key it \<noteq> []"
  shows "\<exists>it'. bi_next it = Some it' \<and> bi_block it' = b \<and> bi_at es (Suc (bi_idx it)) it'"
  using bi_seek_to_at [of "it\<lparr>bi_idx := Suc (bi_idx it)\<rparr>" es "Suc (bi_idx it)"] assms
  by (auto simp: bi_next_def bi_inv_def)

lemma block_iter_lawful: "lawful block_iter_ops (bi_inv b es) (bi_view es)"
  unfolding lawful_def
proof (intro allI impI conjI)
  fix it assume inv: "bi_inv b es it"
  show "it_is_valid block_iter_ops it \<longleftrightarrow> bi_view es it \<noteq> []"
    using inv by (auto simp: block_iter_ops_def bi_is_valid_def bi_view_def bi_inv_def bi_at_def
        takeWhile_drop_nth)
  show "bi_view es it \<noteq> [] \<Longrightarrow>
      (it_key block_iter_ops it, it_value block_iter_ops it) = hd (bi_view es it)"
    using inv by (auto simp: block_iter_ops_def bi_view_def bi_inv_def bi_at_def
        takeWhile_drop_nth split: if_splits)
  fix it' assume ne: "bi_view es it \<noteq> []" and nx: "it_next block_iter_ops it = Some (it', None)"
  then have key: "bi_key it \<noteq> []" by (simp add: bi_view_def split: if_splits)
  obtain it'' where n: "bi_next it = Some it''" "bi_block it'' = b" "bi_at es (Suc (bi_idx it)) it''"
    using bi_next_at [OF inv key] by blast
  then have it': "it' = it''" using nx by (simp add: block_iter_ops_def)
  have be: "block_entries b = Some es" using inv by (simp add: bi_inv_def)
  show "bi_inv b es it'" using bi_at_inv [OF be n(2,3)] it' by simp
  have at: "bi_at es (bi_idx it) it" and idx: "bi_idx it < length es"
    using inv key by (simp_all add: bi_inv_def)
  have "bi_view es it = takeWhile (\<lambda>e. fst e \<noteq> []) (drop (bi_idx it) es)"
    using bi_at_view [OF at] .
  moreover have "drop (bi_idx it) es = es ! bi_idx it # drop (Suc (bi_idx it)) es"
    using idx by (simp add: Cons_nth_drop_Suc)
  moreover have "fst (es ! bi_idx it) \<noteq> []" using at idx key by (simp add: bi_at_def)
  ultimately show "bi_view es it' = tl (bi_view es it)"
    using bi_at_view [OF n(3)] it' by simp
qed

lemma bi_next_total:
  "bi_inv b es it \<Longrightarrow> it_is_valid block_iter_ops it \<Longrightarrow> \<exists>it'. it_next block_iter_ops it = Some (it', None)"
  using bi_next_at [of b es it] by (auto simp: block_iter_ops_def bi_is_valid_def)

text \<open>A scan from \<open>seek_to_first\<close> yields the block's entries up to, not including,
  the first entry with an empty key.\<close>

lemma bi_scan_takeWhile:
  assumes "block_entries b = Some es"
  shows "\<exists>it. bi_create_and_seek_to_first b = Some it \<and>
           drain block_iter_ops (length es) it = Some (Inr (takeWhile (\<lambda>e. fst e \<noteq> []) es))"
proof -
  obtain it where sk: "bi_seek_to (bi_new b) 0 = Some it" and blk: "bi_block it = b"
    and at: "bi_at es 0 it"
    using bi_seek_to_at [of "bi_new b" es 0] assms by (auto simp: bi_new_def)
  have inv: "bi_inv b es it" using bi_at_inv [OF assms blk at] .
  have view: "bi_view es it = takeWhile (\<lambda>e. fst e \<noteq> []) es"
    using bi_at_view [OF at] by simp
  have "drain block_iter_ops (length (bi_view es it)) it = Some (Inr (bi_view es it))"
    using drain_lawful [OF block_iter_lawful inv] bi_next_total by blast
  then have "drain block_iter_ops (length (bi_view es it) + (length es - length (bi_view es it))) it
      = Some (Inr (bi_view es it))"
    by (rule drain_more_fuel)
  moreover have "length (bi_view es it) \<le> length es"
    using view by (simp add: length_takeWhile_le)
  ultimately show ?thesis
    using sk view by (simp add: bi_create_and_seek_to_first_def bi_seek_to_first_def)
qed

subsection \<open>Properties of the block iterator\<close>

text \<open>C2. Seek correctness (spec sections 4.2 and 8): in a block whose entries have
  strictly ascending keys, \<open>create_and_seek_to_key\<close> lands on the first entry whose
  key is \<open>>=\<close> the target (the lower bound), showing its key and value at that index,
  or, when every key is smaller, in the exhausted state with empty key and value.\<close>

theorem seek_to_key_lower_bound:
  "block_entries b = Some es \<Longrightarrow> keys_ascending es \<Longrightarrow>
     \<exists>it. bi_create_and_seek_to_key b key = Some it \<and> bi_at es (lower_bound es key) it"
  using bi_seek_to_key_at [of "bi_new b" es key]
  by (auto simp: bi_create_and_seek_to_key_def bi_new_def)

theorem seek_to_key_lower_bound_witness:
  "block_entries \<lparr>blk_data = [0, 1, 1, 0, 1, 10, 0, 1, 3, 0, 1, 30], blk_offsets = [0, 6]\<rparr>
     = Some [([1], [10]), ([3], [30])] \<and>
   (\<exists>it. bi_create_and_seek_to_key
           \<lparr>blk_data = [0, 1, 1, 0, 1, 10, 0, 1, 3, 0, 1, 30], blk_offsets = [0, 6]\<rparr> [2] = Some it \<and>
         bi_key it = [3] \<and> bi_value it = [30] \<and> bi_idx it = 1)"
proof -
  have e: "block_entries \<lparr>blk_data = [0, 1, 1, 0, 1, 10, 0, 1, 3, 0, 1, 30], blk_offsets = [0, 6]\<rparr>
     = Some [([1], [10]), ([3], [30])]"
    by (simp add: block_entries_def read_entry_def get_bytes_def)
  have s: "keys_ascending [([1], [10]), ([3], [30 :: byte])]" by simp
  have lb: "lower_bound [([1], [10]), ([3], [30])] [2] = 1" by (simp add: lower_bound_def)
  show ?thesis
    using seek_to_key_lower_bound [OF e s, of "[2]"] e lb by (simp add: bi_at_def)
qed

end
