(* ===== verification/Table.thy ===== *)
theory Table
  imports Block
begin

text \<open>
  The table of \<open>src/mini-lsm-starter/src/table.rs\<close>: \<open>BlockMeta\<close> with its encoder (whose
  \<open>assert_eq!\<close> is a panic branch) and its decoding loop, \<open>FileObject\<close> as the file's
  bytes with \<open>read\<close> failing with an I/O error past the end, \<open>SsTable\<close> with \<open>open\<close>,
  \<open>read_block\<close>, \<open>read_block_cached\<close> over the block cache's get-or-compute contract,
  \<open>find_block_idx\<close> (a binary search, as a \<open>function\<close> with measure
  \<open>right - left\<close>) and \<open>num_of_blocks\<close>. The lemmas show that the metadata decoder
  inverts the encoder, that the encoder's assertion never fires, that
  \<open>find_block_idx\<close> is the predecessor search of the spec, and that the cached read
  returns what an uncached read returns when the cache holds only blocks of this table
  read before. The metadata encoder writes offsets \<open>as u32\<close>, and they read back modulo
  \<open>2 ^ 32\<close> (C37). The test fixture \<open>open_for_test\<close> is \<open>sst_open_for_test\<close>.
\<close>

record block_meta =
  bm_offset :: nat
  bm_first_key :: bytes

subsection \<open>Block metadata codec\<close>

definition meta_entry_encode :: "block_meta \<Rightarrow> bytes" where
  "meta_entry_encode m =
     put_u32 (word_of_nat (bm_offset m)) @ put_u16 (word_of_nat (length (bm_first_key m))) @ bm_first_key m"

text \<open>\<open>BlockMeta::encode_block_meta\<close> appends to \<open>buf\<close>; it returns the extended buffer,
  or \<open>None\<close> when its closing \<open>assert_eq!(est_len, buf.len() - ori_len)\<close> fails.\<close>

definition encode_block_meta :: "block_meta list \<Rightarrow> bytes \<Rightarrow> bytes option" where
  "encode_block_meta metas buf =
     (let ori_len = length buf;
          est_len = sum_list (map (\<lambda>m. 4 + 2 + length (bm_first_key m)) metas) + 4;
          buf' = buf @ concat (map meta_entry_encode metas) @ put_u32 (word_of_nat ori_len)
      in if est_len = length buf' - ori_len then Some buf' else None)"

function decode_block_meta :: "bytes \<Rightarrow> block_meta list option" where
  "decode_block_meta buf =
     (if buf = [] then Some []
      else case get_u32 buf of
        None \<Rightarrow> None
      | Some (off, r1) \<Rightarrow>
          (case get_u16 r1 of
             None \<Rightarrow> None
           | Some (key_len, r2) \<Rightarrow>
               (case get_bytes (unat key_len) r2 of
                  None \<Rightarrow> None
                | Some (first_key, r3) \<Rightarrow>
                    map_option (Cons \<lparr>bm_offset = unat off, bm_first_key = first_key\<rparr>)
                      (decode_block_meta r3))))"
  by pat_completeness auto
termination
  by (relation "measure length") (auto dest!: get_u32_Some get_u16_Some get_bytes_Some)

declare decode_block_meta.simps [simp del]

subsection \<open>File object\<close>

text \<open>A \<open>FileObject\<close> is the file's bytes and the length cached at construction.
  \<open>read_exact_at\<close> fails (an I/O error) when the range runs past the end of the file.
  The file system's own failures on \<open>create\<close> are not modelled; \<open>open\<close> is
  \<open>unimplemented!()\<close> in the source, a panic.\<close>

record file_object =
  fo_data :: bytes
  fo_size :: nat

definition fo_read :: "file_object \<Rightarrow> nat \<Rightarrow> nat \<Rightarrow> err + bytes" where
  "fo_read f offset len =
     (if offset + len \<le> length (fo_data f) then Inr (take len (drop offset (fo_data f)))
      else Inl Io_error)"

definition fo_create :: "'path \<Rightarrow> bytes \<Rightarrow> err + file_object" where
  "fo_create path data = Inr \<lparr>fo_data = data, fo_size = length data\<rparr>"

definition fo_open :: "'path \<Rightarrow> err + file_object" where
  "fo_open path = Inl Panic"

subsection \<open>SSTable\<close>

text \<open>The block cache, consumed through \<open>try_get_with\<close>: a map from
  \<open>(table id, block index)\<close> to blocks; on a miss the producer runs once and a
  successful result is inserted.\<close>

type_synonym block_cache = "nat \<times> nat \<Rightarrow> block option"

definition try_get_with :: "block_cache \<Rightarrow> nat \<times> nat \<Rightarrow> err + block \<Rightarrow> (err + block) \<times> block_cache" where
  "try_get_with c k init =
     (case c k of
        Some b \<Rightarrow> (Inr b, c)
      | None \<Rightarrow> (case init of Inl e \<Rightarrow> (Inl e, c) | Inr b \<Rightarrow> (Inr b, c(k \<mapsto> b))))"

record sstable =
  sst_file :: file_object
  sst_block_metas :: "block_meta list"
  sst_block_meta_offset :: nat
  sst_id :: nat
  sst_block_cache :: "block_cache option"

definition sst_open :: "nat \<Rightarrow> block_cache option \<Rightarrow> file_object \<Rightarrow> err + sstable" where
  "sst_open table_id block_cache file =
     (let n = fo_size file in
      case chk_sub n 4 of
        None \<Rightarrow> Inl Panic
      | Some p \<Rightarrow>
          (case fo_read file p 4 of
             Inl e \<Rightarrow> Inl e
           | Inr raw \<Rightarrow>
               (case get_u32 raw of
                  None \<Rightarrow> Inl Panic
                | Some (mo, _) \<Rightarrow>
                    (let block_meta_offset = unat mo in
                     case chk_sub n block_meta_offset of
                       None \<Rightarrow> Inl Panic
                     | Some x \<Rightarrow>
                         (case chk_sub x 4 of
                            None \<Rightarrow> Inl Panic
                          | Some len \<Rightarrow>
                              (case fo_read file block_meta_offset len of
                                 Inl e \<Rightarrow> Inl e
                               | Inr block_meta \<Rightarrow>
                                   (case decode_block_meta block_meta of
                                      None \<Rightarrow> Inl Panic
                                    | Some block_metas \<Rightarrow>
                                        Inr \<lparr>sst_file = file, sst_block_metas = block_metas,
                                             sst_block_meta_offset = block_meta_offset,
                                             sst_id = table_id, sst_block_cache = block_cache\<rparr>)))))))"

text \<open>The test fixture \<open>open_for_test\<close>: table id 0 and no block cache.\<close>

definition sst_open_for_test :: "file_object \<Rightarrow> err + sstable" where
  "sst_open_for_test file = sst_open 0 None file"

definition read_block :: "sstable \<Rightarrow> nat \<Rightarrow> err + block" where
  "read_block t block_idx =
     (if length (sst_block_metas t) \<le> block_idx then Inl Panic
      else
        (let offset = bm_offset (sst_block_metas t ! block_idx);
             offset_end = (if block_idx + 1 < length (sst_block_metas t)
                           then bm_offset (sst_block_metas t ! (block_idx + 1))
                           else sst_block_meta_offset t)
         in case chk_sub offset_end offset of
              None \<Rightarrow> Inl Panic
            | Some len \<Rightarrow>
                (case fo_read (sst_file t) offset len of
                   Inl e \<Rightarrow> Inl e
                 | Inr block_data \<Rightarrow> ok_of (block_decode block_data))))"

definition read_block_cached :: "sstable \<Rightarrow> nat \<Rightarrow> err + block" where
  "read_block_cached t block_idx =
     (case sst_block_cache t of
        Some c \<Rightarrow> fst (try_get_with c (sst_id t, block_idx) (read_block t block_idx))
      | None \<Rightarrow> read_block t block_idx)"

function find_block_idx_loop :: "block_meta list \<Rightarrow> bytes \<Rightarrow> nat \<Rightarrow> nat \<Rightarrow> nat" where
  "find_block_idx_loop metas key left right =
     (if left < right then
        (let mid = (left + right) div 2; curr_key = bm_first_key (metas ! mid) in
         if curr_key = key then mid
         else if curr_key < key then find_block_idx_loop metas key (mid + 1) right
         else find_block_idx_loop metas key left mid)
      else if left = 0 then 0 else left - 1)"
  by pat_completeness auto
termination
  by (relation "measure (\<lambda>(metas, key, left, right). right - left)") auto

declare find_block_idx_loop.simps [simp del]

definition find_block_idx :: "sstable \<Rightarrow> bytes \<Rightarrow> nat" where
  "find_block_idx t key = find_block_idx_loop (sst_block_metas t) key 0 (length (sst_block_metas t))"

definition num_of_blocks :: "sstable \<Rightarrow> nat" where
  "num_of_blocks t = length (sst_block_metas t)"

subsection \<open>Lemmas on the metadata codec\<close>

definition meta_fits :: "block_meta \<Rightarrow> bool" where
  "meta_fits m \<longleftrightarrow> bm_offset m < 2 ^ 32 \<and> length (bm_first_key m) < 2 ^ 16"

text \<open>\<open>meta.offset as u32\<close> keeps the offset modulo \<open>2 ^ 32\<close>.\<close>

definition wrap_offset :: "block_meta \<Rightarrow> block_meta" where
  "wrap_offset m = m\<lparr>bm_offset := bm_offset m mod 2 ^ 32\<rparr>"

lemma length_meta_entry_encode [simp]:
  "length (meta_entry_encode m) = 6 + length (bm_first_key m)"
  by (simp add: meta_entry_encode_def)

lemma decode_block_meta_Nil [simp]: "decode_block_meta [] = Some []"
  by (simp add: decode_block_meta.simps)

lemma decode_block_meta_Cons_wrap:
  assumes "length (bm_first_key m) < 2 ^ 16"
  shows "decode_block_meta (meta_entry_encode m @ rest) = map_option (Cons (wrap_offset m)) (decode_block_meta rest)"
proof (cases m)
  case (fields off k)
  have "decode_block_meta (put_u32 (word_of_nat off) @ put_u16 (word_of_nat (length k)) @ k @ rest)
      = map_option (Cons \<lparr>bm_offset = off mod 2 ^ 32, bm_first_key = k\<rparr>) (decode_block_meta rest)"
    using assms fields
    by (subst decode_block_meta.simps) (simp add: unat_of_nat)
  then show ?thesis using fields by (simp add: meta_entry_encode_def wrap_offset_def)
qed

lemma decode_block_meta_Cons:
  assumes "meta_fits m"
  shows "decode_block_meta (meta_entry_encode m @ rest) = map_option (Cons m) (decode_block_meta rest)"
proof -
  have "wrap_offset m = m" using assms by (simp add: meta_fits_def wrap_offset_def)
  then show ?thesis using decode_block_meta_Cons_wrap [of m rest] assms by (simp add: meta_fits_def)
qed

lemma decode_encode_block_meta:
  "\<forall>m \<in> set metas. meta_fits m \<Longrightarrow> decode_block_meta (concat (map meta_entry_encode metas)) = Some metas"
  by (induction metas) (simp_all add: decode_block_meta_Cons)

lemma encode_block_meta_Some:
  "encode_block_meta metas buf =
     Some (buf @ concat (map meta_entry_encode metas) @ put_u32 (word_of_nat (length buf)))"
proof -
  have "length (concat (map meta_entry_encode metas)) =
          sum_list (map (\<lambda>m. 4 + 2 + length (bm_first_key m)) metas)"
    by (induction metas) simp_all
  then show ?thesis by (simp add: encode_block_meta_def)
qed

subsection \<open>Lemmas on find_block_idx\<close>

abbreviation first_keys_ascending :: "block_meta list \<Rightarrow> bool" where
  "first_keys_ascending metas \<equiv> sorted_wrt (<) (map bm_first_key metas)"

lemma find_block_idx_loop_pred:
  assumes "first_keys_ascending metas" and "left \<le> right" and "right \<le> length metas"
    and "\<forall>j < left. bm_first_key (metas ! j) < key"
    and "\<forall>j. right \<le> j \<and> j < length metas \<longrightarrow> key < bm_first_key (metas ! j)"
  shows "find_block_idx_loop metas key left right =
           length (takeWhile (\<lambda>m. bm_first_key m \<le> key) metas) - 1"
  using assms
proof (induction metas key left right rule: find_block_idx_loop.induct)
  case (1 metas key left right)
  have sorted: "\<And>i j. i < j \<Longrightarrow> j < length metas \<Longrightarrow> bm_first_key (metas ! i) < bm_first_key (metas ! j)"
    using "1.prems"(1) by (simp add: sorted_wrt_iff_nth_less)
  show ?case
  proof (cases "left < right")
    case False
    then have "left = right" using "1.prems"(2) by simp
    then have "length (takeWhile (\<lambda>m. bm_first_key m \<le> key) metas) = left"
      using "1.prems"(3-5) by (intro length_takeWhile_eqI) auto
    then show ?thesis
      using False by (simp add: find_block_idx_loop.simps [of metas key left right])
  next
    case True
    define mid where "mid = (left + right) div 2"
    have mid: "left \<le> mid" "mid < right" "mid < length metas"
      using True "1.prems"(3) by (simp_all add: mid_def)
    show ?thesis
    proof (cases "bm_first_key (metas ! mid) = key")
      case eq: True
      have "length (takeWhile (\<lambda>m. bm_first_key m \<le> key) metas) = Suc mid"
      proof (rule length_takeWhile_eqI)
        show "\<forall>j < Suc mid. bm_first_key (metas ! j) \<le> key"
          using eq sorted mid(3) by (metis less_Suc_eq order.order_iff_strict)
        show "Suc mid < length metas \<Longrightarrow> \<not> bm_first_key (metas ! Suc mid) \<le> key"
          using eq sorted [of mid "Suc mid"] by auto
      qed (use mid in simp)
      then show ?thesis
        using True eq by (simp add: find_block_idx_loop.simps [of metas key left right] mid_def [symmetric])
    next
      case ne: False
      show ?thesis
      proof (cases "bm_first_key (metas ! mid) < key")
        case lt: True
        have inv: "\<forall>j < mid + 1. bm_first_key (metas ! j) < key"
        proof (intro allI impI)
          fix j assume "j < mid + 1"
          then have "j = mid \<or> j < mid" by linarith
          then show "bm_first_key (metas ! j) < key"
            using lt sorted [of j mid] mid(3) by auto
        qed
        have "find_block_idx_loop metas key (mid + 1) right =
                length (takeWhile (\<lambda>m. bm_first_key m \<le> key) metas) - 1"
          using "1.IH"(1) [OF True mid_def refl ne lt "1.prems"(1)] mid inv "1.prems"(3,5) by simp
        then show ?thesis
          using True ne lt by (simp add: find_block_idx_loop.simps [of metas key left right] mid_def [symmetric] Let_def)
      next
        case gt: False
        then have gt': "key < bm_first_key (metas ! mid)" using ne by auto
        have inv: "\<forall>j. mid \<le> j \<and> j < length metas \<longrightarrow> key < bm_first_key (metas ! j)"
        proof (intro allI impI)
          fix j assume "mid \<le> j \<and> j < length metas"
          then have "j = mid \<or> mid < j \<and> j < length metas" by linarith
          then show "key < bm_first_key (metas ! j)"
            using gt' sorted [of mid j] by auto
        qed
        have "find_block_idx_loop metas key left mid =
                length (takeWhile (\<lambda>m. bm_first_key m \<le> key) metas) - 1"
          using "1.IH"(2) [OF True mid_def refl ne gt "1.prems"(1)] mid inv "1.prems"(4) by simp
        then show ?thesis
          using True ne gt by (simp add: find_block_idx_loop.simps [of metas key left right] mid_def [symmetric] Let_def)
      qed
    qed
  qed
qed

lemma takeWhile_le_sorted:
  assumes "first_keys_ascending metas"
  shows "\<forall>j < length (takeWhile (\<lambda>m. bm_first_key m \<le> key) metas). bm_first_key (metas ! j) \<le> key"
    and "\<forall>j. length (takeWhile (\<lambda>m. bm_first_key m \<le> key) metas) \<le> j \<and> j < length metas \<longrightarrow>
           key < bm_first_key (metas ! j)"
proof -
  let ?c = "length (takeWhile (\<lambda>m. bm_first_key m \<le> key) metas)"
  show "\<forall>j < ?c. bm_first_key (metas ! j) \<le> key"
    by (metis (mono_tags, lifting) nth_mem set_takeWhileD takeWhile_nth)
  show "\<forall>j. ?c \<le> j \<and> j < length metas \<longrightarrow> key < bm_first_key (metas ! j)"
  proof (intro allI impI)
    fix j assume j: "?c \<le> j \<and> j < length metas"
    then have c: "?c < length metas" by simp
    then have "key < bm_first_key (metas ! ?c)" using nth_length_takeWhile [OF c] by simp
    moreover have "?c < j \<Longrightarrow> bm_first_key (metas ! ?c) < bm_first_key (metas ! j)"
      using assms j by (simp add: sorted_wrt_iff_nth_less)
    ultimately show "key < bm_first_key (metas ! j)"
      using j by (cases "?c = j") auto
  qed
qed

lemma find_block_idx_pred:
  "first_keys_ascending (sst_block_metas t) \<Longrightarrow>
     find_block_idx t key = length (takeWhile (\<lambda>m. bm_first_key m \<le> key) (sst_block_metas t)) - 1"
  unfolding find_block_idx_def by (rule find_block_idx_loop_pred) auto

subsection \<open>The cached read\<close>

definition cache_consistent :: "sstable \<Rightarrow> block_cache \<Rightarrow> bool" where
  "cache_consistent t c \<longleftrightarrow> (\<forall>i b. c (sst_id t, i) = Some b \<longrightarrow> read_block t i = Inr b)"

lemma try_get_with_consistent:
  assumes "cache_consistent t c"
  shows "fst (try_get_with c (sst_id t, i) (read_block t i)) = read_block t i"
    and "cache_consistent t (snd (try_get_with c (sst_id t, i) (read_block t i)))"
  using assms by (auto simp: try_get_with_def cache_consistent_def split: option.splits sum.splits)

subsection \<open>Properties of the table\<close>

text \<open>C9. Predecessor search (spec sections 4.3 and 8): for a table whose block first keys
  are strictly ascending, \<open>find_block_idx\<close> returns a valid block index; when some
  block's first key is \<open><=\<close> the key it returns the rightmost such block (every later
  block starts above the key), and otherwise block 0.\<close>

theorem find_block_idx_predecessor:
  assumes "first_keys_ascending (sst_block_metas t)" and "sst_block_metas t \<noteq> []"
  shows "find_block_idx t key < num_of_blocks t \<and>
    ((\<exists>j < num_of_blocks t. bm_first_key (sst_block_metas t ! j) \<le> key) \<longrightarrow>
       bm_first_key (sst_block_metas t ! find_block_idx t key) \<le> key \<and>
       (\<forall>j. find_block_idx t key < j \<and> j < num_of_blocks t \<longrightarrow>
            key < bm_first_key (sst_block_metas t ! j))) \<and>
    (\<not> (\<exists>j < num_of_blocks t. bm_first_key (sst_block_metas t ! j) \<le> key) \<longrightarrow>
       find_block_idx t key = 0)"
proof -
  let ?ms = "sst_block_metas t"
  let ?c = "length (takeWhile (\<lambda>m. bm_first_key m \<le> key) ?ms)"
  have idx: "find_block_idx t key = ?c - 1" using find_block_idx_pred [OF assms(1)] .
  have below: "\<forall>j < ?c. bm_first_key (?ms ! j) \<le> key"
    and above: "\<forall>j. ?c \<le> j \<and> j < length ?ms \<longrightarrow> key < bm_first_key (?ms ! j)"
    using takeWhile_le_sorted [OF assms(1)] by blast+
  have cn: "?c \<le> length ?ms" by (rule length_takeWhile_le)
  show ?thesis
  proof (cases "?c = 0")
    case True
    have "\<not> (\<exists>j < length ?ms. bm_first_key (?ms ! j) \<le> key)"
      using above True by (auto simp: not_le)
    then show ?thesis
      using idx True assms(2) by (simp add: num_of_blocks_def)
  next
    case False
    have lt: "?c - 1 < length ?ms" using cn False by linarith
    have le: "bm_first_key (?ms ! (?c - 1)) \<le> key" using below False by simp
    have gt: "\<forall>j. ?c - 1 < j \<and> j < length ?ms \<longrightarrow> key < bm_first_key (?ms ! j)"
    proof (intro allI impI)
      fix j assume "?c - 1 < j \<and> j < length ?ms"
      then have "?c \<le> j \<and> j < length ?ms" by linarith
      then show "key < bm_first_key (?ms ! j)" using above by blast
    qed
    show ?thesis
      using idx lt le gt by (auto simp: num_of_blocks_def)
  qed
qed

theorem find_block_idx_predecessor_witness:
  "find_block_idx \<lparr>sst_file = \<lparr>fo_data = [], fo_size = 0\<rparr>,
      sst_block_metas = [\<lparr>bm_offset = 0, bm_first_key = [1]\<rparr>, \<lparr>bm_offset = 10, bm_first_key = [5]\<rparr>],
      sst_block_meta_offset = 20, sst_id = 0, sst_block_cache = None\<rparr> [6] = 1"
proof -
  let ?t = "\<lparr>sst_file = \<lparr>fo_data = [], fo_size = 0\<rparr>,
      sst_block_metas = [\<lparr>bm_offset = 0, bm_first_key = [1]\<rparr>, \<lparr>bm_offset = 10, bm_first_key = [5 :: byte]\<rparr>],
      sst_block_meta_offset = 20, sst_id = 0, sst_block_cache = None\<rparr>"
  have s: "first_keys_ascending (sst_block_metas ?t)" by simp
  have n: "sst_block_metas ?t \<noteq> []" by simp
  have "bm_first_key (sst_block_metas ?t ! 1) \<le> [6]" by simp
  then have "bm_first_key (sst_block_metas ?t ! find_block_idx ?t [6]) \<le> [6] \<and>
      (\<forall>j. find_block_idx ?t [6] < j \<and> j < num_of_blocks ?t \<longrightarrow> [6] < bm_first_key (sst_block_metas ?t ! j))"
      and lt: "find_block_idx ?t [6] < num_of_blocks ?t"
    using find_block_idx_predecessor [OF s n, of "[6]"] by (auto simp: num_of_blocks_def)
  then have "find_block_idx ?t [6] \<noteq> 0 \<or> [1 :: byte] > [6]"
    by (auto simp: num_of_blocks_def)
  with lt show ?thesis by (simp add: num_of_blocks_def)
qed

text \<open>C10. Metadata round trip (spec section 4.3): \<open>encode_block_meta\<close> never fails its
  length assertion; it appends to the buffer a metadata region and a 4-byte trailer holding
  the buffer's original length, and \<open>decode_block_meta\<close> of that region returns the
  metas encoded, provided offsets fit \<open>u32\<close> and first keys fit the 2-byte length.\<close>

theorem block_meta_roundtrip:
  "\<forall>m \<in> set metas. meta_fits m \<Longrightarrow>
     \<exists>region. encode_block_meta metas buf = Some (buf @ region @ put_u32 (word_of_nat (length buf))) \<and>
       decode_block_meta region = Some metas"
  using encode_block_meta_Some decode_encode_block_meta by blast

theorem block_meta_roundtrip_witness:
  "\<exists>region. encode_block_meta [\<lparr>bm_offset = 0, bm_first_key = [1]\<rparr>, \<lparr>bm_offset = 300, bm_first_key = [2, 3]\<rparr>] [9]
      = Some ([9] @ region @ put_u32 1) \<and>
    decode_block_meta region = Some [\<lparr>bm_offset = 0, bm_first_key = [1]\<rparr>, \<lparr>bm_offset = 300, bm_first_key = [2, 3]\<rparr>]"
proof -
  have "\<forall>m \<in> set [\<lparr>bm_offset = 0, bm_first_key = [1 :: byte]\<rparr>, \<lparr>bm_offset = 300, bm_first_key = [2, 3]\<rparr>]. meta_fits m"
    by (simp add: meta_fits_def)
  from block_meta_roundtrip [OF this, of "[9]"] show ?thesis by simp
qed

text \<open>C11. The cached read refines the uncached one: when the table's block cache holds only
  blocks that \<open>read_block\<close> returns for this table's id, \<open>read_block_cached\<close> returns
  exactly what \<open>read_block\<close> returns (block or error), and the cache after the
  get-or-compute step still holds only such blocks.\<close>

theorem read_block_cached_refines:
  "sst_block_cache t = Some c \<Longrightarrow> cache_consistent t c \<Longrightarrow>
     read_block_cached t i = read_block t i \<and>
     cache_consistent t (snd (try_get_with c (sst_id t, i) (read_block t i)))"
  using try_get_with_consistent [of t c i] by (simp add: read_block_cached_def)

theorem read_block_cached_refines_witness:
  "read_block_cached \<lparr>sst_file = \<lparr>fo_data = [0, 1, 1, 0, 1, 2, 0, 0, 0, 1, 0, 0, 0, 0, 0, 1, 1, 0, 0, 0, 10],
        fo_size = 21\<rparr>,
      sst_block_metas = [\<lparr>bm_offset = 0, bm_first_key = [1]\<rparr>], sst_block_meta_offset = 10, sst_id = 7,
      sst_block_cache = Some (\<lambda>k. if k = (7, 0) then Some \<lparr>blk_data = [0, 1, 1, 0, 1, 2], blk_offsets = [0]\<rparr>
        else None)\<rparr> 0
   = Inr \<lparr>blk_data = [0, 1, 1, 0, 1, 2], blk_offsets = [0]\<rparr>"
proof -
  let ?b = "\<lparr>blk_data = [0, 1, 1, 0, 1, 2 :: byte], blk_offsets = [0 :: u16]\<rparr>"
  let ?c = "\<lambda>k. if k = (7 :: nat, 0 :: nat) then Some ?b else None"
  let ?t = "\<lparr>sst_file = \<lparr>fo_data = [0, 1, 1, 0, 1, 2, 0, 0, 0, 1, 0, 0, 0, 0, 0, 1, 1, 0, 0, 0, 10 :: byte],
        fo_size = 21\<rparr>,
      sst_block_metas = [\<lparr>bm_offset = 0, bm_first_key = [1 :: byte]\<rparr>], sst_block_meta_offset = 10, sst_id = 7,
      sst_block_cache = Some ?c\<rparr>"
  have rb: "read_block ?t 0 = Inr ?b"
    by (simp add: read_block_def fo_read_def block_decode_def decode_offsets.simps)
  have cc: "cache_consistent ?t ?c"
    using rb by (auto simp: cache_consistent_def)
  show ?thesis
    using read_block_cached_refines [of ?t ?c 0] cc rb by simp
qed


text \<open>C30: \<open>SsTable::open\<close> does not return an error on a malformed file; it panics in a
  debug build, at the \<open>u64\<close> subtractions of \<open>table.rs\<close> lines 109 and 111: when the file is
  shorter than the 4-byte trailer, and when the offset the trailer holds leaves no room
  for the trailer itself (\<open>n - block_meta_offset - 4\<close> underflows).\<close>

theorem sst_open_malformed_panics:
  assumes sz: "fo_size f = length (fo_data f)"
  shows "(fo_size f < 4 \<longrightarrow> sst_open table_id block_cache f = Inl Panic) \<and>
         (4 \<le> fo_size f \<longrightarrow> get_u32 (drop (fo_size f - 4) (fo_data f)) = Some (mo, rest) \<longrightarrow>
            fo_size f < unat mo + 4 \<longrightarrow> sst_open table_id block_cache f = Inl Panic)"
proof (intro conjI impI)
  assume "fo_size f < 4"
  then show "sst_open table_id block_cache f = Inl Panic" by (simp add: sst_open_def chk_sub_def)
next
  assume n: "4 \<le> fo_size f" and g: "get_u32 (drop (fo_size f - 4) (fo_data f)) = Some (mo, rest)"
    and big: "fo_size f < unat mo + 4"
  have "length (drop (fo_size f - 4) (fo_data f)) = 4" using n sz by simp
  then have rd: "fo_read f (fo_size f - 4) 4 = Inr (drop (fo_size f - 4) (fo_data f))"
    using n sz by (simp add: fo_read_def)
  show "sst_open table_id block_cache f = Inl Panic"
  proof (cases "unat mo \<le> fo_size f")
    case True
    then have "fo_size f - unat mo < 4" using big by simp
    then show ?thesis using n rd g True by (simp add: sst_open_def chk_sub_def Let_def)
  next
    case False
    then show ?thesis using n rd g by (simp add: sst_open_def chk_sub_def Let_def)
  qed
qed

theorem sst_open_malformed_panics_witness:
  "sst_open 0 None \<lparr>fo_data = [0, 0], fo_size = 2\<rparr> = Inl Panic \<and>
   sst_open 0 None \<lparr>fo_data = [0, 0, 0, 0, 0, 0, 0, 5], fo_size = 8\<rparr> = Inl Panic"
proof -
  have a: "sst_open 0 None \<lparr>fo_data = [0, 0], fo_size = 2\<rparr> = Inl Panic"
    using sst_open_malformed_panics [of "\<lparr>fo_data = [0, 0], fo_size = 2\<rparr>"] by simp
  have g: "get_u32 (drop (fo_size \<lparr>fo_data = [0, 0, 0, 0, 0, 0, 0, 5], fo_size = 8\<rparr> - 4)
      (fo_data \<lparr>fo_data = [0, 0, 0, 0, 0, 0, 0, 5], fo_size = 8\<rparr>)) = Some (5, [])"
    by simp
  have "sst_open 0 None \<lparr>fo_data = [0, 0, 0, 0, 0, 0, 0, 5], fo_size = 8\<rparr> = Inl Panic"
    using sst_open_malformed_panics [of "\<lparr>fo_data = [0, 0, 0, 0, 0, 0, 0, 5], fo_size = 8\<rparr>" 0 None 5 "[]"] g
    by simp
  then show ?thesis using a by simp
qed

text \<open>C37: \<open>encode_block_meta\<close> writes each block offset with \<open>meta.offset as u32\<close>, which
  silently truncates: for any first keys that fit \<open>u16\<close>, the metadata region decodes to
  the same metadata with every offset taken modulo \<open>2 ^ 32\<close>. A table whose data
  region reaches 4 GiB reads back wrong offsets, and no check reports it.\<close>

theorem block_meta_offset_wraps:
  assumes "\<forall>m \<in> set metas. length (bm_first_key m) < 2 ^ 16"
  shows "\<exists>region. encode_block_meta metas buf = Some (buf @ region @ put_u32 (word_of_nat (length buf))) \<and>
           decode_block_meta region = Some (map wrap_offset metas)"
proof -
  have "decode_block_meta (concat (map meta_entry_encode metas)) = Some (map wrap_offset metas)"
    using assms by (induction metas) (simp_all add: decode_block_meta_Cons_wrap)
  then show ?thesis using encode_block_meta_Some by blast
qed

theorem block_meta_offset_wraps_witness:
  "\<exists>region. encode_block_meta [\<lparr>bm_offset = 0, bm_first_key = [1]\<rparr>, \<lparr>bm_offset = 4294967596, bm_first_key = [2]\<rparr>] [9]
      = Some ([9] @ region @ put_u32 1) \<and>
    decode_block_meta region = Some [\<lparr>bm_offset = 0, bm_first_key = [1]\<rparr>, \<lparr>bm_offset = 300, bm_first_key = [2]\<rparr>]"
  using block_meta_offset_wraps [of "[\<lparr>bm_offset = 0, bm_first_key = [1]\<rparr>, \<lparr>bm_offset = 4294967596, bm_first_key = [2]\<rparr>]" "[9]"]
  by (simp add: wrap_offset_def)

end
