(* ===== verification/Table_Builder.thy ===== *)
theory Table_Builder
  imports Block_Builder Table
begin

text \<open>
  \<open>SsTableBuilder\<close> of \<open>src/mini-lsm-starter/src/table/builder.rs\<close>: the record of its
  five fields, \<open>new\<close>, \<open>add\<close> (with the \<open>assert!\<close> on the retry as a panic branch),
  \<open>estimated_size\<close>, \<open>build_block\<close> and \<open>build\<close>. The abstraction
  \<open>sb_repr sb bs cur\<close> says that the builder has emitted the blocks holding the pair
  lists \<open>bs\<close> and holds \<open>cur\<close> in its block builder; \<open>add\<close> keeps it, and the table
  \<open>build\<close> returns has one block per list of \<open>bs @ [cur]\<close>, laid out back to back
  and followed by the metadata region and its offset.
\<close>

record sst_builder =
  sb_block_size :: nat
  sb_block_builder :: block_builder
  sb_meta :: "block_meta list"
  sb_data :: bytes
  sb_first_key :: bytes

definition sb_new :: "nat \<Rightarrow> sst_builder" where
  "sb_new block_size =
     \<lparr>sb_block_size = block_size, sb_block_builder = bb_new block_size, sb_meta = [], sb_data = [],
      sb_first_key = []\<rparr>"

definition sb_build_block :: "sst_builder \<Rightarrow> sst_builder" where
  "sb_build_block sb =
     (let block_builder = sb_block_builder sb;
          block_data = block_encode (bb_build block_builder);
          meta = \<lparr>bm_offset = length (sb_data sb), bm_first_key = sb_first_key sb\<rparr>
      in sb\<lparr>sb_block_builder := bb_new (sb_block_size sb), sb_meta := sb_meta sb @ [meta],
            sb_data := sb_data sb @ block_data, sb_first_key := []\<rparr>)"

definition sb_add :: "sst_builder \<Rightarrow> bytes \<Rightarrow> bytes \<Rightarrow> sst_builder option" where
  "sb_add sb key value =
     (let sb1 = (if sb_first_key sb = [] then sb\<lparr>sb_first_key := key\<rparr> else sb)
      in case bb_add (sb_block_builder sb1) key value of
           None \<Rightarrow> None
         | Some (True, bb') \<Rightarrow> Some (sb1\<lparr>sb_block_builder := bb'\<rparr>)
         | Some (False, bb') \<Rightarrow>
             (let sb2 = sb_build_block (sb1\<lparr>sb_block_builder := bb'\<rparr>);
                  sb3 = sb2\<lparr>sb_first_key := key\<rparr>
              in case bb_add (sb_block_builder sb3) key value of
                   Some (True, bb'') \<Rightarrow> Some (sb3\<lparr>sb_block_builder := bb''\<rparr>)
                 | _ \<Rightarrow> None))"

definition sb_estimated_size :: "sst_builder \<Rightarrow> nat" where
  "sb_estimated_size sb = length (sb_data sb)"

definition sb_build :: "sst_builder \<Rightarrow> nat \<Rightarrow> block_cache option \<Rightarrow> 'path \<Rightarrow> err + sstable" where
  "sb_build sb table_id block_cache path =
     (let sb1 = sb_build_block sb;
          buf = sb_data sb1;
          meta_offset = length buf
      in case encode_block_meta (sb_meta sb1) buf of
           None \<Rightarrow> Inl Panic
         | Some buf' \<Rightarrow>
             (case fo_create path buf' of
                Inl e \<Rightarrow> Inl e
              | Inr file \<Rightarrow>
                  Inr \<lparr>sst_file = file, sst_block_metas = sb_meta sb1,
                       sst_block_meta_offset = meta_offset, sst_id = table_id,
                       sst_block_cache = block_cache\<rparr>))"

text \<open>The test fixture \<open>build_for_test\<close>: table id 0 and no block cache.\<close>

definition sb_build_for_test :: "sst_builder \<Rightarrow> 'path \<Rightarrow> err + sstable" where
  "sb_build_for_test sb path = sb_build sb 0 None path"

subsection \<open>Layout of the emitted blocks\<close>

definition block_bytes :: "kv list \<Rightarrow> bytes" where
  "block_bytes es = block_encode (block_of_entries es)"

definition first_key_of :: "kv list \<Rightarrow> bytes" where
  "first_key_of es = (case es of [] \<Rightarrow> [] | e # _ \<Rightarrow> fst e)"

fun layout_metas :: "nat \<Rightarrow> kv list list \<Rightarrow> block_meta list" where
  "layout_metas off [] = []"
| "layout_metas off (es # bs) =
     \<lparr>bm_offset = off, bm_first_key = first_key_of es\<rparr> # layout_metas (off + length (block_bytes es)) bs"

definition layout_data :: "kv list list \<Rightarrow> bytes" where
  "layout_data bs = concat (map block_bytes bs)"

definition sb_repr :: "sst_builder \<Rightarrow> kv list list \<Rightarrow> kv list \<Rightarrow> bool" where
  "sb_repr sb bs cur \<longleftrightarrow>
     sb_data sb = layout_data bs \<and>
     sb_meta sb = layout_metas 0 bs \<and>
     bb_repr (sb_block_builder sb) cur \<and>
     bb_block_size (sb_block_builder sb) = sb_block_size sb \<and>
     sb_first_key sb = first_key_of cur \<and>
     (cur \<noteq> [] \<longrightarrow> length (entries_data cur) + 2 < sb_block_size sb) \<and>
     (\<forall>es \<in> set bs. es \<noteq> [] \<and> (\<forall>e \<in> set es. fits_u16 e) \<and> length (entries_data es) < 65536) \<and>
     (\<forall>e \<in> set (concat bs @ cur). fst e \<noteq> [])"

text \<open>The caller's loop \<open>for (k, v) in pairs { builder.add(k, v) }\<close>, stopping at the
  first panic.\<close>

fun sb_add_all :: "sst_builder \<Rightarrow> kv list \<Rightarrow> sst_builder option" where
  "sb_add_all sb [] = Some sb"
| "sb_add_all sb ((k, v) # ps) = (case sb_add sb k v of None \<Rightarrow> None | Some sb' \<Rightarrow> sb_add_all sb' ps)"

definition pairs_ok :: "kv list \<Rightarrow> bool" where
  "pairs_ok ps \<longleftrightarrow> (\<forall>e \<in> set ps. fits_u16 e \<and> fst e \<noteq> [])"

text \<open>The file \<open>build\<close> writes for the emitted blocks \<open>bss\<close>, and the table it returns.\<close>

definition table_file :: "kv list list \<Rightarrow> bytes" where
  "table_file bss =
     layout_data bss @ concat (map meta_entry_encode (layout_metas 0 bss)) @
     put_u32 (word_of_nat (length (layout_data bss)))"

definition table_of :: "kv list list \<Rightarrow> nat \<Rightarrow> block_cache option \<Rightarrow> sstable" where
  "table_of bss table_id block_cache =
     \<lparr>sst_file = \<lparr>fo_data = table_file bss, fo_size = length (table_file bss)\<rparr>,
      sst_block_metas = layout_metas 0 bss, sst_block_meta_offset = length (layout_data bss),
      sst_id = table_id, sst_block_cache = block_cache\<rparr>"

subsection \<open>Lemmas on the layout\<close>

lemma layout_data_simps [simp]:
  "layout_data [] = []" "layout_data (bs @ [es]) = layout_data bs @ block_bytes es"
  by (simp_all add: layout_data_def)

lemma layout_metas_append:
  "layout_metas n (bs @ [es]) =
     layout_metas n bs @ [\<lparr>bm_offset = n + length (layout_data bs), bm_first_key = first_key_of es\<rparr>]"
  by (induction bs arbitrary: n) (simp_all add: layout_data_def add.assoc)

lemma first_key_of_append [simp]:
  "first_key_of (es @ [e]) = (if es = [] then fst e else first_key_of es)"
  by (simp add: first_key_of_def split: list.splits)

lemma first_key_of_empty_iff:
  "\<forall>e \<in> set es. fst e \<noteq> [] \<Longrightarrow> first_key_of es = [] \<longleftrightarrow> es = []"
  by (simp add: first_key_of_def split: list.splits)

lemma sb_build_block_builder [simp]:
  "sb_block_builder (sb_build_block sb) = bb_new (sb_block_size sb)"
  "sb_block_size (sb_build_block sb) = sb_block_size sb"
  by (simp_all add: sb_build_block_def)

subsection \<open>add keeps the representation\<close>

lemma sb_repr_add:
  assumes repr: "sb_repr sb bs cur" and fit: "fits_u16 (k, v)" and key: "k \<noteq> []"
    and add: "sb_add sb k v = Some sb'"
  shows "\<exists>bs' cur'. sb_repr sb' bs' cur' \<and> cur' \<noteq> [] \<and>
           concat (bs' @ [cur']) = concat (bs @ [cur]) @ [(k, v)]"
proof -
  let ?bb = "sb_block_builder sb"
  have bb: "bb_repr ?bb cur" and bsz: "bb_block_size ?bb = sb_block_size sb"
    and fk: "sb_first_key sb = first_key_of cur"
    and keys: "\<forall>e \<in> set (concat bs @ cur). fst e \<noteq> []"
    using repr by (simp_all add: sb_repr_def)
  have fk_iff: "sb_first_key sb = [] \<longleftrightarrow> cur = []"
    using fk keys first_key_of_empty_iff [of cur] by simp
  define sb1 where "sb1 = (if sb_first_key sb = [] then sb\<lparr>sb_first_key := k\<rparr> else sb)"
  have sb1_bb: "sb_block_builder sb1 = ?bb" and sb1_fk: "sb_first_key sb1 = first_key_of (cur @ [(k, v)])"
    using fk fk_iff by (simp_all add: sb1_def)
  have sb1_size: "sb_block_size sb1 = sb_block_size sb" by (simp add: sb1_def)
  have add1: "(case bb_add ?bb k v of
           None \<Rightarrow> None
         | Some (True, bb') \<Rightarrow> Some (sb1\<lparr>sb_block_builder := bb'\<rparr>)
         | Some (False, bb') \<Rightarrow>
             (let sb2 = sb_build_block (sb1\<lparr>sb_block_builder := bb'\<rparr>);
                  sb3 = sb2\<lparr>sb_first_key := k\<rparr>
              in case bb_add (sb_block_builder sb3) k v of
                   Some (True, bb'') \<Rightarrow> Some (sb3\<lparr>sb_block_builder := bb''\<rparr>)
                 | _ \<Rightarrow> None)) = Some sb'"
    using add unfolding sb_add_def sb1_def [symmetric] Let_def [of sb1] sb1_bb .
  obtain r bb' where a1: "bb_add ?bb k v = Some (r, bb')"
    using add1 by (cases "bb_add ?bb k v") auto
  show ?thesis
  proof (cases r)
    case True
    have sb': "sb' = sb1\<lparr>sb_block_builder := bb'\<rparr>"
      using add1 a1 True by simp
    have "bb_repr bb' (cur @ [(k, v)])" using bb_repr_add [OF bb fit] a1 True by simp
    moreover have "bb_block_size bb' = sb_block_size sb" using bb_add_block_size [OF a1] bsz by simp
    moreover have "length (entries_data (cur @ [(k, v)])) + 2 < sb_block_size sb"
      using bb_repr_add_budget [OF bb fit] a1 True bsz by simp
    ultimately have "sb_repr sb' bs (cur @ [(k, v)])"
      using repr key sb1_fk by (auto simp: sb_repr_def sb' sb1_def simp del: entries_data_simps)
    then show ?thesis by auto
  next
    case False
    have bb'_eq: "bb' = ?bb" using a1 False bb_add_unfold [OF fit, of ?bb] by (simp split: if_splits)
    define sb3 where "sb3 = (sb_build_block (sb1\<lparr>sb_block_builder := bb'\<rparr>))\<lparr>sb_first_key := k\<rparr>"
    have sb3_bb: "sb_block_builder sb3 = bb_new (sb_block_size sb)"
      by (simp add: sb3_def sb_build_block_def sb1_def)
    have "\<exists>bb''. bb_add (bb_new (sb_block_size sb)) k v = Some (True, bb'')"
      using add1 a1 False sb1_size by (auto simp: Let_def split: option.splits bool.splits)
    then obtain bb'' where a2: "bb_add (bb_new (sb_block_size sb)) k v = Some (True, bb'')" ..
    have sb': "sb' = sb3\<lparr>sb_block_builder := bb''\<rparr>"
      using add1 a1 False a2 sb1_size by (simp add: Let_def sb3_def)
    have ne: "cur \<noteq> []"
    proof
      assume "cur = []"
      then have "?bb = bb_new (sb_block_size sb)" using bb_repr_Nil_new [of ?bb] bb bsz by simp
      then show False using a1 a2 False by simp
    qed
    have fk1: "sb_first_key sb1 = first_key_of cur" using ne fk fk_iff by (simp add: sb1_def)
    have "bb_repr bb'' [(k, v)]"
      using bb_repr_add [OF bb_repr_new fit] a2 by simp
    moreover have "bb_block_size bb'' = sb_block_size sb"
      using bb_add_block_size [OF a2] by (simp add: bb_new_def)
    moreover have "length (entries_data [(k, v)]) + 2 < sb_block_size sb"
      using bb_repr_add_budget [OF bb_repr_new fit] a2 by (simp add: bb_new_def)
    moreover have "sb_data sb3 = layout_data (bs @ [cur])" and "sb_meta sb3 = layout_metas 0 (bs @ [cur])"
      using repr bb bb'_eq fk1
      by (simp_all add: sb3_def sb_build_block_def sb_repr_def bb_repr_build block_bytes_def
          layout_metas_append sb1_def)
    moreover have "\<forall>es \<in> set (bs @ [cur]). es \<noteq> [] \<and> (\<forall>e \<in> set es. fits_u16 e) \<and>
        length (entries_data es) < 65536"
      using repr ne bb bb_repr_data_bound [OF bb] by (auto simp: sb_repr_def bb_repr_def)
    ultimately have "sb_repr sb' (bs @ [cur]) [(k, v)]"
      using keys key sb1_size by (simp add: sb_repr_def sb' sb3_def first_key_of_def del: entries_data_simps)
    then show ?thesis by (intro exI [of _ "bs @ [cur]"] exI [of _ "[(k, v)]"]) simp
  qed
qed

subsection \<open>Adding a sequence of pairs\<close>

lemma sb_repr_new: "sb_repr (sb_new n) [] []"
  by (simp add: sb_repr_def sb_new_def bb_repr_new first_key_of_def) (simp add: bb_new_def)

lemma sb_repr_add_all:
  assumes "sb_repr sb bs cur" and "pairs_ok ps" and "sb_add_all sb ps = Some sb'"
    and "ps = [] \<longrightarrow> bs = [] \<and> cur = [] \<or> cur \<noteq> []"
  shows "\<exists>bs' cur'. sb_repr sb' bs' cur' \<and> concat (bs' @ [cur']) = concat (bs @ [cur]) @ ps \<and>
           (bs' = [] \<and> cur' = [] \<or> cur' \<noteq> [])"
  using assms
proof (induction sb ps arbitrary: bs cur rule: sb_add_all.induct)
  case (1 sb)
  then show ?case by auto
next
  case (2 sb k v ps)
  obtain sb1 where a: "sb_add sb k v = Some sb1" and r: "sb_add_all sb1 ps = Some sb'"
    using "2.prems"(3) by (auto split: option.splits)
  obtain bs1 cur1 where "sb_repr sb1 bs1 cur1" "cur1 \<noteq> []"
      "concat (bs1 @ [cur1]) = concat (bs @ [cur]) @ [(k, v)]"
    using sb_repr_add [OF "2.prems"(1) _ _ a] "2.prems"(2) by (auto simp: pairs_ok_def)
  then show ?case
    using "2.IH" [OF a, of bs1 cur1] r "2.prems"(2) by (fastforce simp: pairs_ok_def)
qed

subsection \<open>The built table\<close>

lemma sb_repr_blocks:
  "sb_repr sb bs cur \<Longrightarrow>
     \<forall>es \<in> set (bs @ [cur]). (\<forall>e \<in> set es. fits_u16 e) \<and> length (entries_data es) < 65536"
  using bb_repr_data_bound [of "sb_block_builder sb" cur] by (auto simp: sb_repr_def bb_repr_def)

lemma sb_add_all_new:
  assumes "pairs_ok ps" and "sb_add_all (sb_new n) ps = Some sb"
  obtains bs cur where "sb_repr sb bs cur" and "concat (bs @ [cur]) = ps"
    and "bs = [] \<and> cur = [] \<or> cur \<noteq> []"
  using sb_repr_add_all [OF sb_repr_new assms] by auto

lemma length_layout_metas [simp]: "length (layout_metas n bss) = length bss"
  by (induction bss arbitrary: n) simp_all

lemma layout_data_Cons [simp]: "layout_data (es # bss) = block_bytes es @ layout_data bss"
  by (simp add: layout_data_def)

lemma layout_metas_nth:
  "i < length bss \<Longrightarrow> layout_metas n bss ! i =
     \<lparr>bm_offset = n + length (layout_data (take i bss)), bm_first_key = first_key_of (bss ! i)\<rparr>"
proof (induction bss arbitrary: n i)
  case Nil
  then show ?case by simp
next
  case (Cons es bss)
  then show ?case by (cases i) (simp_all add: add.assoc)
qed

lemma layout_data_split:
  "i < length bss \<Longrightarrow>
     layout_data bss = layout_data (take i bss) @ block_bytes (bss ! i) @ layout_data (drop (Suc i) bss)"
proof -
  assume "i < length bss"
  then have "map block_bytes bss = map block_bytes (take i bss @ bss ! i # drop (Suc i) bss)"
    by (rule arg_cong [OF id_take_nth_drop])
  then show ?thesis by (simp add: layout_data_def)
qed

lemma layout_data_take_Suc:
  "i < length bss \<Longrightarrow> layout_data (take (Suc i) bss) = layout_data (take i bss) @ block_bytes (bss ! i)"
  by (simp add: take_Suc_conv_app_nth)

lemma length_first_key_of:
  "\<forall>e \<in> set es. fits_u16 e \<Longrightarrow> length (first_key_of es) < 2 ^ 16"
  by (cases es) (auto simp: first_key_of_def fits_u16_def)

lemma layout_metas_fit:
  assumes "length (layout_data bss) < 2 ^ 32" and "\<forall>es \<in> set bss. \<forall>e \<in> set es. fits_u16 e"
  shows "\<forall>m \<in> set (layout_metas 0 bss). meta_fits m"
proof
  fix m assume "m \<in> set (layout_metas 0 bss)"
  then obtain i where i: "i < length bss" "m = layout_metas 0 bss ! i"
    by (auto simp: in_set_conv_nth)
  have "length (layout_data (take i bss)) \<le> length (layout_data bss)"
    using layout_data_split [OF i(1)] by simp
  moreover have "length (first_key_of (bss ! i)) < 2 ^ 16"
    using assms(2) i(1) length_first_key_of [of "bss ! i"] nth_mem [OF i(1)] by simp
  ultimately show "meta_fits m"
    using assms(1) i by (simp add: layout_metas_nth meta_fits_def)
qed

lemma sb_build_table_of:
  assumes "sb_repr sb bs cur"
  shows "sb_build sb table_id block_cache path = Inr (table_of (bs @ [cur]) table_id block_cache)"
proof -
  have "sb_data (sb_build_block sb) = layout_data (bs @ [cur])"
    and "sb_meta (sb_build_block sb) = layout_metas 0 (bs @ [cur])"
  proof -
    have "bb_build (sb_block_builder sb) = block_of_entries cur"
      using assms bb_repr_build by (simp add: sb_repr_def)
    then show "sb_data (sb_build_block sb) = layout_data (bs @ [cur])"
      and "sb_meta (sb_build_block sb) = layout_metas 0 (bs @ [cur])"
      using assms by (simp_all add: sb_build_block_def sb_repr_def block_bytes_def layout_metas_append)
  qed
  then show ?thesis
    by (simp add: sb_build_def encode_block_meta_Some fo_create_def table_of_def table_file_def)
qed

lemma sst_open_table_of:
  assumes "length (layout_data bss) < 2 ^ 32" and "\<forall>es \<in> set bss. \<forall>e \<in> set es. fits_u16 e"
  shows "sst_open table_id block_cache (sst_file (table_of bss table_id block_cache)) =
           Inr (table_of bss table_id block_cache)"
proof -
  let ?D = "layout_data bss" and ?M = "concat (map meta_entry_encode (layout_metas 0 bss))"
  let ?f = "sst_file (table_of bss table_id block_cache)"
  have tail: "fo_read ?f (length ?D + length ?M) 4 = Inr (put_u32 (word_of_nat (length ?D)))"
    by (simp add: fo_read_def table_of_def table_file_def)
  have mo: "unat (word_of_nat (length ?D) :: u32) = length ?D"
    using assms(1) by simp
  have region: "fo_read ?f (length ?D) (length ?M) = Inr ?M"
    by (simp add: fo_read_def table_of_def table_file_def)
  have dec: "decode_block_meta ?M = Some (layout_metas 0 bss)"
    using decode_encode_block_meta layout_metas_fit [OF assms] by blast
  have size: "fo_size ?f = length ?D + length ?M + 4"
    by (simp add: table_of_def table_file_def)
  show ?thesis
    using get_u32_put_u32 [of "word_of_nat (length ?D)" "[]"]
    by (simp add: sst_open_def size tail mo region dec Let_def) (simp add: table_of_def)
qed

lemma read_block_table_of:
  assumes "i < length bss" and "\<forall>e \<in> set (bss ! i). fits_u16 e"
    and "length (entries_data (bss ! i)) < 65536"
  shows "read_block (table_of bss table_id block_cache) i = Inr (block_of_entries (bss ! i))"
proof -
  let ?es = "bss ! i" and ?off = "length (layout_data (take i bss))"
  let ?T = "table_of bss table_id block_cache"
  have end_eq: "(if i + 1 < length (sst_block_metas ?T) then bm_offset (sst_block_metas ?T ! (i + 1))
                 else sst_block_meta_offset ?T) = ?off + length (block_bytes ?es)"
  proof (cases "Suc i < length bss")
    case True
    then show ?thesis using layout_data_take_Suc [OF assms(1)] by (simp add: layout_metas_nth table_of_def)
  next
    case False
    then have "take (Suc i) bss = bss" using assms(1) by simp
    then show ?thesis using False layout_data_take_Suc [OF assms(1)] by (simp add: table_of_def)
  qed
  have off_eq: "bm_offset (sst_block_metas ?T ! i) = ?off"
    using assms(1) by (simp add: layout_metas_nth table_of_def)
  have rd: "fo_read (sst_file (table_of bss table_id block_cache)) ?off (length (block_bytes ?es)) =
              Inr (block_bytes ?es)"
    using layout_data_split [OF assms(1)]
    by (simp add: fo_read_def table_of_def table_file_def)
  have "length (blk_offsets (block_of_entries ?es)) < 65536"
    using assms(3) length_entries_ge [of ?es] by (simp add: block_of_entries_def)
  then have "block_decode (block_bytes ?es) = Some (block_of_entries ?es)"
    by (simp add: block_bytes_def block_decode_encode_raw)
  then show ?thesis
    using assms(1) rd unfolding read_block_def Let_def end_eq off_eq by (simp add: table_of_def)
qed

subsection \<open>When add does not panic\<close>

lemma sb_add_block_size: "sb_add sb k v = Some sb' \<Longrightarrow> sb_block_size sb' = sb_block_size sb"
  by (auto simp: sb_add_def Let_def sb_build_block_def split: option.splits bool.splits if_splits)

lemma sb_add_Some:
  assumes repr: "sb_repr sb bs cur" and fit: "fits_u16 (k, v)"
    and small: "kv_size (k, v) + 2 < sb_block_size sb" and room: "sb_block_size sb + kv_size (k, v) \<le> 65536"
  shows "\<exists>sb'. sb_add sb k v = Some sb'"
proof -
  let ?bb = "sb_block_builder sb" and ?sb1 = "if sb_first_key sb = [] then sb\<lparr>sb_first_key := k\<rparr> else sb"
  have bb: "bb_repr ?bb cur" and bsz: "bb_block_size ?bb = sb_block_size sb"
    and budget: "cur \<noteq> [] \<longrightarrow> length (entries_data cur) + 2 < sb_block_size sb"
    using repr by (simp_all add: sb_repr_def)
  have next_eq: "unat (bb_next_offset ?bb) = length (entries_data cur)"
    using bb by (simp add: bb_repr_def)
  have no_ovf: "\<not> 65536 \<le> unat (bb_next_offset ?bb) + kv_size (k, v) + 2"
    using budget small room next_eq by (cases "cur = []") auto
  obtain b'' where fresh: "bb_add (bb_new (sb_block_size sb)) k v = Some (True, b'')"
    using small room by (simp add: bb_add_unfold [OF fit] bb_new_def)
  have "\<exists>r b'. bb_add ?bb k v = Some (r, b')"
    using no_ovf by (simp add: bb_add_unfold [OF fit]) blast
  then obtain r b' where cur_add: "bb_add ?bb k v = Some (r, b')" by blast
  show ?thesis
    using cur_add fresh by (cases r) (auto simp: sb_add_def Let_def split: if_splits)
qed

lemma sb_add_all_Some:
  assumes "sb_repr sb bs cur" and "pairs_ok ps"
    and "\<forall>e \<in> set ps. kv_size e + 2 < sb_block_size sb \<and> sb_block_size sb + kv_size e \<le> 65536"
  shows "\<exists>sb'. sb_add_all sb ps = Some sb'"
  using assms
proof (induction sb ps arbitrary: bs cur rule: sb_add_all.induct)
  case (1 sb)
  then show ?case by simp
next
  case (2 sb k v ps)
  obtain sb1 where a: "sb_add sb k v = Some sb1"
    using sb_add_Some [OF "2.prems"(1)] "2.prems"(2,3) by (fastforce simp: pairs_ok_def)
  obtain bs1 cur1 where "sb_repr sb1 bs1 cur1"
    using sb_repr_add [OF "2.prems"(1) _ _ a] "2.prems"(2) by (fastforce simp: pairs_ok_def)
  then show ?case
    using "2.IH" [OF a] a "2.prems"(2,3) sb_add_block_size [OF a] by (simp add: pairs_ok_def)
qed

lemma sb_add_all_new_Some:
  assumes "pairs_ok ps" and "\<forall>e \<in> set ps. kv_size e + 2 < n \<and> n + kv_size e \<le> 65536"
  shows "\<exists>sb. sb_add_all (sb_new n) ps = Some sb"
proof -
  have n: "sb_block_size (sb_new n) = n" by (simp add: sb_new_def)
  have "\<forall>e \<in> set ps. kv_size e + 2 < sb_block_size (sb_new n) \<and> sb_block_size (sb_new n) + kv_size e \<le> 65536"
    using assms(2) unfolding n .
  from sb_add_all_Some [OF sb_repr_new assms(1) this] show ?thesis .
qed

lemma sb_build_Inr: "sb_repr sb bs cur \<Longrightarrow> \<exists>t. sb_build sb table_id block_cache path = Inr t"
  using sb_build_table_of [of sb bs cur table_id block_cache path] by (rule exI)

subsection \<open>First keys of the emitted blocks\<close>

lemma first_keys_sorted:
  assumes "\<forall>es \<in> set bss. es \<noteq> []" and "keys_ascending (concat bss)"
  shows "sorted_wrt (<) (map first_key_of bss)"
  using assms
proof (induction bss)
  case Nil
  then show ?case by simp
next
  case (Cons es bss)
  obtain e es' where es: "es = e # es'" using Cons.prems(1) by (cases es) auto
  have "\<forall>es2 \<in> set bss. fst e < first_key_of es2"
  proof
    fix es2 assume m: "es2 \<in> set bss"
    have "es2 \<noteq> []" using Cons.prems(1) m by simp
    then obtain e2 es2' where "es2 = e2 # es2'" by (meson neq_Nil_conv)
    then show "fst e < first_key_of es2"
      using Cons.prems(2) m es by (fastforce simp: first_key_of_def sorted_wrt_append)
  qed
  then show ?case using Cons by (simp add: es first_key_of_def sorted_wrt_append)
qed

lemma map_first_key_layout_metas: "map bm_first_key (layout_metas n bss) = map first_key_of bss"
  by (induction bss arbitrary: n) simp_all

lemmas sb_eval_simps = sb_add_def bb_add_def chk_add16_def sb_new_def bb_new_def Let_def
  sb_build_block_def sb_build_def encode_block_meta_Some fo_create_def num_of_blocks_def bb_build_def
  block_encode_def

subsection \<open>Properties of the built table\<close>

text \<open>The blocks of a built table read back as the lists the builder laid out.\<close>

lemma table_of_blocks:
  assumes repr: "sb_repr sb bs cur" and i: "i < length (bs @ [cur])"
  shows "read_block (table_of (bs @ [cur]) table_id block_cache) i = Inr (block_of_entries ((bs @ [cur]) ! i)) \<and>
         block_entries (block_of_entries ((bs @ [cur]) ! i)) = Some ((bs @ [cur]) ! i)"
proof -
  have "(\<forall>e \<in> set ((bs @ [cur]) ! i). fits_u16 e) \<and> length (entries_data ((bs @ [cur]) ! i)) < 65536"
    using sb_repr_blocks [OF repr] nth_mem [OF i] by blast
  then show ?thesis
    using read_block_table_of [OF i] block_entries_of_entries [of "(bs @ [cur]) ! i"] by simp
qed

text \<open>C12: a table built from pairs whose keys are non-empty and whose lengths fit the
  2-byte length fields, and whose file stays below 4 GiB (the metadata offsets are
  \<open>u32\<close>), opens from its file as the same table, and its blocks, read back in index
  order, hold exactly the added pairs in order.\<close>

theorem build_open_read_roundtrip:
  assumes "pairs_ok ps" and "sb_add_all (sb_new n) ps = Some sb"
    and "sb_build sb table_id block_cache path = Inr t" and "fo_size (sst_file t) < 2 ^ 32"
  shows "sst_open table_id block_cache (sst_file t) = Inr t \<and>
         (\<exists>bss. concat bss = ps \<and> length bss = num_of_blocks t \<and>
            (\<forall>i < length bss. read_block t i = Inr (block_of_entries (bss ! i)) \<and>
                             block_entries (block_of_entries (bss ! i)) = Some (bss ! i)))"
proof -
  obtain bs cur where repr: "sb_repr sb bs cur" and ps: "concat (bs @ [cur]) = ps"
    using sb_add_all_new [OF assms(1,2)] by blast
  let ?bss = "bs @ [cur]"
  have t: "t = table_of ?bss table_id block_cache"
    using sb_build_table_of [OF repr, of table_id block_cache path] assms(3) by simp
  have blocks: "\<forall>es \<in> set ?bss. (\<forall>e \<in> set es. fits_u16 e) \<and> length (entries_data es) < 65536"
    using sb_repr_blocks [OF repr] .
  have "length (layout_data ?bss) < 2 ^ 32"
    using assms(4) by (simp add: t table_of_def table_file_def)
  then have "sst_open table_id block_cache (sst_file t) = Inr t"
    using sst_open_table_of [of ?bss table_id block_cache] blocks t by simp
  moreover have "\<forall>i < length ?bss. read_block t i = Inr (block_of_entries (?bss ! i)) \<and>
                   block_entries (block_of_entries (?bss ! i)) = Some (?bss ! i)"
    using table_of_blocks [OF repr] t by blast
  ultimately show ?thesis
    using ps by (intro conjI exI [of _ ?bss]) (simp_all add: t table_of_def num_of_blocks_def)
qed

theorem build_open_read_roundtrip_witness:
  "\<exists>sb t. sb_add_all (sb_new 16) [([1], [10]), ([2], [20]), ([3], [30])] = Some sb \<and>
     sb_build sb 7 None ''f'' = Inr t \<and> num_of_blocks t = 2 \<and> sst_open 7 None (sst_file t) = Inr t"
proof -
  let ?ps = "[([1], [10]), ([2], [20]), ([3], [30])] :: kv list"
  have "\<exists>sb t. sb_add_all (sb_new 16) ?ps = Some sb \<and> sb_build sb 7 None ''f'' = Inr t \<and>
      fo_size (sst_file t) < 2 ^ 32 \<and> num_of_blocks t = 2"
    by (simp add: sb_eval_simps)
  then obtain sb t where "sb_add_all (sb_new 16) ?ps = Some sb" "sb_build sb 7 None ''f'' = Inr t"
      "fo_size (sst_file t) < 2 ^ 32" "num_of_blocks t = 2"
    by blast
  moreover have "pairs_ok ?ps" by (simp add: pairs_ok_def)
  ultimately show ?thesis using build_open_read_roundtrip [of ?ps 16 sb 7 None "''f''" t] by blast
qed

text \<open>C13: \<open>add\<close> never reaches its \<open>assert!\<close> and never overflows, and \<open>build\<close>
  returns a table, when every pair fits a fresh block
  (\<open>entry_size + 2 < block_size\<close>) and \<open>block_size + entry_size \<le> 65536\<close>, so that
  the \<open>u16\<close> sum \<open>next_offset + entry_size + 2\<close> of a non-empty block cannot
  overflow.\<close>

theorem build_no_panic:
  assumes "pairs_ok ps" and "\<forall>e \<in> set ps. kv_size e + 2 < n \<and> n + kv_size e \<le> 65536"
  shows "\<exists>sb t. sb_add_all (sb_new n) ps = Some sb \<and> sb_build sb table_id block_cache path = Inr t"
proof -
  from sb_add_all_new_Some [OF assms] obtain sb where a: "sb_add_all (sb_new n) ps = Some sb" ..
  obtain bs cur where repr: "sb_repr sb bs cur"
    using sb_add_all_new [OF assms(1) a] by blast
  from sb_build_Inr [OF repr, of table_id block_cache path]
  obtain t where "sb_build sb table_id block_cache path = Inr t" ..
  with a show ?thesis by (intro exI conjI)
qed

theorem build_no_panic_witness:
  "\<exists>sb t. sb_add_all (sb_new 100) [([1], [10]), ([2], replicate 60 0)] = Some sb \<and>
     sb_build sb 0 None ''t'' = Inr t"
proof -
  have "pairs_ok [([1], [10]), ([2], replicate 60 0)]" by (simp add: pairs_ok_def)
  moreover have "\<forall>e \<in> set [([1], [10]), ([2], replicate 60 0)]. kv_size e + 2 < 100 \<and> 100 + kv_size e \<le> 65536"
    by (simp add: kv_size_def)
  ultimately show ?thesis
    by (rule build_no_panic)
qed

text \<open>C14: a table built from pairs added in strictly ascending key order has strictly
  ascending block first keys, the precondition of \<open>find_block_idx\<close>. Each recorded first
  key is the key of the first pair of the block that \<open>read_block\<close> returns at that
  index.\<close>

theorem built_first_keys_ascending:
  assumes "pairs_ok ps" and "keys_ascending ps" and "sb_add_all (sb_new n) ps = Some sb"
    and "sb_build sb table_id block_cache path = Inr t"
  shows "sorted_wrt (<) (map bm_first_key (sst_block_metas t)) \<and>
    (\<exists>bss. concat bss = ps \<and> length bss = num_of_blocks t \<and>
       (\<forall>i < length bss. read_block t i = Inr (block_of_entries (bss ! i)) \<and>
                        bm_first_key (sst_block_metas t ! i) = first_key_of (bss ! i)))"
proof -
  obtain bs cur where repr: "sb_repr sb bs cur" and ps: "concat (bs @ [cur]) = ps"
    and shape: "bs = [] \<and> cur = [] \<or> cur \<noteq> []"
    using sb_add_all_new [OF assms(1,3)] by blast
  let ?bss = "bs @ [cur]"
  have tt: "t = table_of ?bss table_id block_cache"
    using sb_build_table_of [OF repr, of table_id block_cache path] assms(4) by simp
  then have t: "sst_block_metas t = layout_metas 0 ?bss" by (simp add: table_of_def)
  have keys: "map bm_first_key (sst_block_metas t) = map first_key_of ?bss"
    using t by (simp add: map_first_key_layout_metas)
  have sorted: "sorted_wrt (<) (map bm_first_key (sst_block_metas t))"
  proof (cases "cur = []")
    case True
    then show ?thesis using shape t by simp
  next
    case False
    then have "\<forall>es \<in> set ?bss. es \<noteq> []" using repr by (simp add: sb_repr_def)
    moreover have "keys_ascending (concat ?bss)" using assms(2) ps by simp
    ultimately show ?thesis using first_keys_sorted [of ?bss] keys by simp
  qed
  have "\<forall>i < length ?bss. read_block t i = Inr (block_of_entries (?bss ! i)) \<and>
          bm_first_key (sst_block_metas t ! i) = first_key_of (?bss ! i)"
  proof (intro allI impI conjI)
    fix i assume i: "i < length ?bss"
    show "read_block t i = Inr (block_of_entries (?bss ! i))" using table_of_blocks [OF repr i] tt by simp
    have "length (sst_block_metas t) = length ?bss" using t by simp
    then show "bm_first_key (sst_block_metas t ! i) = first_key_of (?bss ! i)"
      using keys i by (metis nth_map)
  qed
  then show ?thesis
    using sorted ps t by (intro conjI exI [of _ ?bss]) (simp_all add: num_of_blocks_def)
qed

theorem built_first_keys_ascending_witness:
  "\<exists>sb t. sb_add_all (sb_new 16) [([1], [10]), ([2], [20]), ([3], [30])] = Some sb \<and>
     sb_build sb 7 None ''f'' = Inr t \<and> sorted_wrt (<) (map bm_first_key (sst_block_metas t))"
proof -
  let ?ps = "[([1], [10]), ([2], [20]), ([3], [30])] :: kv list"
  have "\<exists>sb t. sb_add_all (sb_new 16) ?ps = Some sb \<and> sb_build sb 7 None ''f'' = Inr t"
    by (simp add: sb_eval_simps)
  then obtain sb t where "sb_add_all (sb_new 16) ?ps = Some sb" "sb_build sb 7 None ''f'' = Inr t"
    by blast
  moreover have "pairs_ok ?ps" and "keys_ascending ?ps" by (simp_all add: pairs_ok_def)
  ultimately show ?thesis using built_first_keys_ascending [of ?ps 16 sb 7 None "''f''" t] by blast
qed

text \<open>C15: when \<open>SsTableBuilder::add\<close> panics. Take any builder state and any pair whose
  lengths fit \<open>u16\<close>. \<open>add\<close> panics exactly when the current block's \<open>u16\<close> sum
  \<open>next_offset + entry_size + 2\<close> overflows, or when the pair does not fit even a fresh
  block, so that the retry's \<open>assert!\<close> fails. The first case is not only a caller
  error: with a \<open>block_size\<close> above 32 KiB, two pairs that each fit a fresh block overflow
  the sum (30004 + 36000 + 2 under a block size of 40000), and \<open>add\<close> panics instead of
  starting a new block.\<close>

theorem sb_add_panics_iff:
  assumes repr: "sb_repr sb bs cur" and fit: "fits_u16 (k, v)"
  shows "sb_add sb k v = None \<longleftrightarrow>
           65536 \<le> length (entries_data cur) + kv_size (k, v) + 2 \<or> sb_block_size sb \<le> kv_size (k, v) + 2"
proof -
  have bb: "bb_repr (sb_block_builder sb) cur" and bsz: "bb_block_size (sb_block_builder sb) = sb_block_size sb"
    using repr by (simp_all add: sb_repr_def)
  then have off: "unat (bb_next_offset (sb_block_builder sb)) = length (entries_data cur)"
    by (simp add: bb_repr_def)
  show ?thesis
    using off bsz fit
    by (auto simp: sb_add_def Let_def bb_add_unfold sb_build_block_def bb_new_def split: if_splits)
qed

theorem sb_add_panics_iff_witness:
  "sb_add (sb_new 10) [1, 2, 3, 4] [5, 6, 7, 8] = None"
proof -
  have "fits_u16 ([1, 2, 3, 4], [5, 6, 7, 8 :: byte])" by simp
  then show ?thesis
    using sb_add_panics_iff [OF sb_repr_new] by (simp add: sb_new_def kv_size_def)
qed

subsection \<open>The table's id and cache\<close>

text \<open>\<open>build\<close> stores the id and the cache it is given and nothing else depends on them.\<close>

lemma sb_build_with_cache:
  "sb_build sb tid bc path = Inr t \<Longrightarrow> sb_build sb tid bc' path = Inr (t\<lparr>sst_block_cache := bc'\<rparr>)"
  by (auto simp: sb_build_def Let_def split: option.splits sum.splits)

lemma sb_build_id: "sb_build sb tid bc path = Inr t \<Longrightarrow> sst_id t = tid"
  by (auto simp: sb_build_def Let_def split: option.splits sum.splits)

end
