(* ===== verification/Table_Iterator.thy ===== *)
theory Table_Iterator
  imports Block_Iterator Table_Builder
begin

text \<open>
  \<open>SsTableIterator\<close> of \<open>src/mini-lsm-starter/src/table/iterator.rs\<close>: a table, a block
  iterator over its current block and the block index. The positioning helpers
  \<open>get_first_blk_iter\<close> and \<open>get_key_blk_iter\<close> return an error (\<open>Inl\<close>) when the
  cached block read fails or a block iterator panics; the \<open>seek\<close> methods leave the
  iterator unchanged on error, as the source assigns its fields only after the \<open>?\<close>.
  \<open>next\<close> advances the block iterator and, when it runs off its block, increments
  \<open>blk_idx\<close> before it reads the next block, so the state after a read error is the
  state the source leaves behind. The lemmas show that on a table whose blocks read
  back as the non-empty lists \<open>bss\<close> the iterator is lawful towards the rest of
  \<open>concat bss\<close>, that a scan from \<open>create_and_seek_to_first\<close> yields the whole
  table, and that \<open>create_and_seek_to_key\<close> lands on the first pair whose key is not
  below the sought key. After a failed block read the iterator is invalid, and a
  retried \<open>next\<close> goes on past the block that failed (C35).
\<close>

record sst_iter =
  si_table :: sstable
  si_blk_iter :: block_iter
  si_blk_idx :: nat

definition si_get_first_blk_iter :: "sstable \<Rightarrow> err + nat \<times> block_iter" where
  "si_get_first_blk_iter t =
     (case read_block_cached t 0 of
        Inl e \<Rightarrow> Inl e
      | Inr b \<Rightarrow> (case bi_create_and_seek_to_first b of None \<Rightarrow> Inl Panic | Some bi \<Rightarrow> Inr (0, bi)))"

definition si_create_and_seek_to_first :: "sstable \<Rightarrow> err + sst_iter" where
  "si_create_and_seek_to_first t =
     (case si_get_first_blk_iter t of
        Inl e \<Rightarrow> Inl e
      | Inr (blk_idx, blk_iter) \<Rightarrow> Inr \<lparr>si_table = t, si_blk_iter = blk_iter, si_blk_idx = blk_idx\<rparr>)"

definition si_seek_to_first :: "sst_iter \<Rightarrow> err + sst_iter" where
  "si_seek_to_first s =
     (case si_get_first_blk_iter (si_table s) of
        Inl e \<Rightarrow> Inl e
      | Inr (blk_idx, blk_iter) \<Rightarrow> Inr (s\<lparr>si_blk_idx := blk_idx, si_blk_iter := blk_iter\<rparr>))"

definition si_get_key_blk_iter :: "sstable \<Rightarrow> bytes \<Rightarrow> err + nat \<times> block_iter" where
  "si_get_key_blk_iter t key =
     (let blk_idx = find_block_idx t key in
      case read_block_cached t blk_idx of
        Inl e \<Rightarrow> Inl e
      | Inr b \<Rightarrow>
          (case bi_create_and_seek_to_key b key of
             None \<Rightarrow> Inl Panic
           | Some blk_iter \<Rightarrow>
               (if bi_is_valid blk_iter then Inr (blk_idx, blk_iter)
                else
                  (let blk_idx' = blk_idx + 1 in
                   if blk_idx' < num_of_blocks t then
                     (case read_block_cached t blk_idx' of
                        Inl e \<Rightarrow> Inl e
                      | Inr b' \<Rightarrow>
                          (case bi_create_and_seek_to_first b' of
                             None \<Rightarrow> Inl Panic
                           | Some blk_iter' \<Rightarrow> Inr (blk_idx', blk_iter')))
                   else Inr (blk_idx', blk_iter)))))"

definition si_create_and_seek_to_key :: "sstable \<Rightarrow> bytes \<Rightarrow> err + sst_iter" where
  "si_create_and_seek_to_key t key =
     (case si_get_key_blk_iter t key of
        Inl e \<Rightarrow> Inl e
      | Inr (blk_idx, blk_iter) \<Rightarrow> Inr \<lparr>si_table = t, si_blk_iter = blk_iter, si_blk_idx = blk_idx\<rparr>)"

definition si_seek_to_key :: "sst_iter \<Rightarrow> bytes \<Rightarrow> err + sst_iter" where
  "si_seek_to_key s key =
     (case si_get_key_blk_iter (si_table s) key of
        Inl e \<Rightarrow> Inl e
      | Inr (blk_idx, blk_iter) \<Rightarrow> Inr (s\<lparr>si_blk_idx := blk_idx, si_blk_iter := blk_iter\<rparr>))"

text \<open>\<open>StorageIterator::next\<close>; a panic of the block iterator's entry parser is
  reported as \<open>Panic\<close>.\<close>

definition si_next :: "sst_iter \<Rightarrow> sst_iter \<times> err option" where
  "si_next s =
     (case bi_next (si_blk_iter s) of
        None \<Rightarrow> (s, Some Panic)
      | Some blk_iter \<Rightarrow>
          (let s1 = s\<lparr>si_blk_iter := blk_iter\<rparr> in
           if bi_is_valid blk_iter then (s1, None)
           else
             (let s2 = s1\<lparr>si_blk_idx := si_blk_idx s1 + 1\<rparr> in
              if si_blk_idx s2 < num_of_blocks (si_table s2) then
                (case read_block_cached (si_table s2) (si_blk_idx s2) of
                   Inl e \<Rightarrow> (s2, Some e)
                 | Inr b \<Rightarrow>
                     (case bi_create_and_seek_to_first b of
                        None \<Rightarrow> (s2, Some Panic)
                      | Some blk_iter' \<Rightarrow> (s2\<lparr>si_blk_iter := blk_iter'\<rparr>, None)))
              else (s2, None))))"

definition sst_iter_ops :: "sst_iter iter_ops" where
  "sst_iter_ops =
     \<lparr>it_key = (\<lambda>s. bi_key (si_blk_iter s)), it_value = (\<lambda>s. bi_value (si_blk_iter s)),
      it_is_valid = (\<lambda>s. bi_is_valid (si_blk_iter s)), it_next = (\<lambda>s. Some (si_next s))\<rparr>"

subsection \<open>Abstraction\<close>

text \<open>A table whose blocks read back, through the cache, as the lists \<open>bss\<close>.\<close>

definition table_holds :: "sstable \<Rightarrow> kv list list \<Rightarrow> bool" where
  "table_holds t bss \<longleftrightarrow>
     num_of_blocks t = length bss \<and>
     (\<forall>i < length bss. read_block_cached t i = Inr (block_of_entries (bss ! i)) \<and>
                      block_entries (block_of_entries (bss ! i)) = Some (bss ! i))"

text \<open>A table whose cache, if it has one, holds only blocks that \<open>read_block\<close> returns.\<close>

definition cache_ok :: "sstable \<Rightarrow> bool" where
  "cache_ok t \<longleftrightarrow> (case sst_block_cache t of None \<Rightarrow> True | Some c \<Rightarrow> cache_consistent t c)"

definition blocks_ok :: "kv list list \<Rightarrow> bool" where
  "blocks_ok bss \<longleftrightarrow> (\<forall>es \<in> set bss. es \<noteq> [] \<and> (\<forall>e \<in> set es. fst e \<noteq> []))"

definition si_inv :: "sstable \<Rightarrow> kv list list \<Rightarrow> sst_iter \<Rightarrow> bool" where
  "si_inv t bss s \<longleftrightarrow>
     si_table s = t \<and>
     (if si_blk_idx s < length bss
      then bi_inv (block_of_entries (bss ! si_blk_idx s)) (bss ! si_blk_idx s) (si_blk_iter s) \<and>
           bi_is_valid (si_blk_iter s)
      else \<not> bi_is_valid (si_blk_iter s))"

definition si_view :: "kv list list \<Rightarrow> sst_iter \<Rightarrow> kv list" where
  "si_view bss s =
     (if si_blk_idx s < length bss
      then bi_view (bss ! si_blk_idx s) (si_blk_iter s) @ concat (drop (Suc (si_blk_idx s)) bss)
      else [])"

subsection \<open>Lemmas on the block iterator with non-empty keys\<close>

lemma bi_view_at_nonempty:
  "\<forall>e \<in> set es. fst e \<noteq> [] \<Longrightarrow> bi_at es j bi \<Longrightarrow> bi_view es bi = drop j es"
  using set_drop_subset [of j es] by (auto simp: bi_at_view takeWhile_eq_all_conv)

lemma bi_at_valid:
  "\<forall>e \<in> set es. fst e \<noteq> [] \<Longrightarrow> bi_at es j bi \<Longrightarrow> bi_is_valid bi \<longleftrightarrow> j < length es"
  using nth_mem [of j es] by (auto simp: bi_at_def bi_is_valid_def split: if_splits)

lemma bi_first_at:
  "block_entries b = Some es \<Longrightarrow>
     \<exists>bi. bi_create_and_seek_to_first b = Some bi \<and> bi_block bi = b \<and> bi_at es 0 bi"
  using bi_seek_to_at [of "bi_new b" es 0]
  by (simp add: bi_create_and_seek_to_first_def bi_seek_to_first_def bi_new_def)

lemma table_holds_read:
  "table_holds t bss \<Longrightarrow> i < length bss \<Longrightarrow>
     read_block_cached t i = Inr (block_of_entries (bss ! i)) \<and>
     block_entries (block_of_entries (bss ! i)) = Some (bss ! i)"
  by (simp add: table_holds_def)

lemma blocks_ok_nth:
  "blocks_ok bss \<Longrightarrow> i < length bss \<Longrightarrow> bss ! i \<noteq> [] \<and> (\<forall>e \<in> set (bss ! i). fst e \<noteq> [])"
  unfolding blocks_ok_def by (meson nth_mem)

text \<open>Entering block \<open>i\<close>: the cached read and \<open>create_and_seek_to_first\<close> give a valid
  iterator that shows the whole block.\<close>

lemma si_enter_block:
  assumes "table_holds t bss" and "blocks_ok bss" and "i < length bss"
  shows "\<exists>bi. read_block_cached t i = Inr (block_of_entries (bss ! i)) \<and>
           bi_create_and_seek_to_first (block_of_entries (bss ! i)) = Some bi \<and>
           bi_inv (block_of_entries (bss ! i)) (bss ! i) bi \<and> bi_is_valid bi \<and>
           bi_view (bss ! i) bi = bss ! i"
proof -
  have rd: "read_block_cached t i = Inr (block_of_entries (bss ! i))"
    and be: "block_entries (block_of_entries (bss ! i)) = Some (bss ! i)"
    using table_holds_read [OF assms(1,3)] by simp_all
  have ok: "bss ! i \<noteq> []" "\<forall>e \<in> set (bss ! i). fst e \<noteq> []"
    using blocks_ok_nth [OF assms(2,3)] by simp_all
  obtain bi where bi: "bi_create_and_seek_to_first (block_of_entries (bss ! i)) = Some bi"
    "bi_block bi = block_of_entries (bss ! i)" "bi_at (bss ! i) 0 bi"
    using bi_first_at [OF be] by blast
  show ?thesis
    using rd bi bi_at_inv [OF be bi(2,3)] bi_at_valid [OF ok(2) bi(3)] bi_view_at_nonempty [OF ok(2) bi(3)] ok(1)
    by auto
qed

subsection \<open>The iterator is lawful\<close>

lemma si_inv_valid:
  assumes "si_inv t bss s" and "bi_is_valid (si_blk_iter s)"
  obtains "si_blk_idx s < length bss"
    and "bi_inv (block_of_entries (bss ! si_blk_idx s)) (bss ! si_blk_idx s) (si_blk_iter s)"
    and "bi_idx (si_blk_iter s) < length (bss ! si_blk_idx s)"
    and "bi_at (bss ! si_blk_idx s) (bi_idx (si_blk_iter s)) (si_blk_iter s)"
  using assms by (auto simp: si_inv_def bi_inv_def bi_is_valid_def split: if_splits)

lemma si_view_valid:
  assumes "si_inv t bss s" and "blocks_ok bss" and "bi_is_valid (si_blk_iter s)"
  shows "si_view bss s = drop (bi_idx (si_blk_iter s)) (bss ! si_blk_idx s) @
           concat (drop (Suc (si_blk_idx s)) bss)"
proof -
  obtain i: "si_blk_idx s < length bss"
    and at: "bi_at (bss ! si_blk_idx s) (bi_idx (si_blk_iter s)) (si_blk_iter s)"
    using si_inv_valid [OF assms(1,3)] by blast
  show ?thesis
    using bi_view_at_nonempty [OF _ at] blocks_ok_nth [OF assms(2) i] i by (simp add: si_view_def)
qed

lemma si_lawful_head:
  assumes "si_inv t bss s" and "blocks_ok bss"
  shows "bi_is_valid (si_blk_iter s) \<longleftrightarrow> si_view bss s \<noteq> []"
    and "si_view bss s \<noteq> [] \<Longrightarrow>
           (bi_key (si_blk_iter s), bi_value (si_blk_iter s)) = hd (si_view bss s)"
proof -
  show "bi_is_valid (si_blk_iter s) \<longleftrightarrow> si_view bss s \<noteq> []"
  proof
    assume v: "bi_is_valid (si_blk_iter s)"
    then show "si_view bss s \<noteq> []"
      using si_view_valid [OF assms v] si_inv_valid [OF assms(1) v] by fastforce
  next
    assume "si_view bss s \<noteq> []"
    then show "bi_is_valid (si_blk_iter s)"
      using assms(1) by (auto simp: si_view_def si_inv_def split: if_splits)
  qed
  assume ne: "si_view bss s \<noteq> []"
  then have v: "bi_is_valid (si_blk_iter s)"
    using assms(1) by (auto simp: si_view_def si_inv_def split: if_splits)
  obtain idx: "bi_idx (si_blk_iter s) < length (bss ! si_blk_idx s)"
    and at: "bi_at (bss ! si_blk_idx s) (bi_idx (si_blk_iter s)) (si_blk_iter s)"
    using si_inv_valid [OF assms(1) v] by blast
  show "(bi_key (si_blk_iter s), bi_value (si_blk_iter s)) = hd (si_view bss s)"
    using si_view_valid [OF assms v] at idx by (simp add: bi_at_def hd_drop_conv_nth)
qed

lemma si_next_step:
  assumes hold: "table_holds t bss" and ok: "blocks_ok bss" and inv: "si_inv t bss s"
    and v: "bi_is_valid (si_blk_iter s)"
  shows "\<exists>s'. si_next s = (s', None) \<and> si_inv t bss s' \<and> si_view bss s' = tl (si_view bss s)"
proof -
  let ?i = "si_blk_idx s" and ?bi = "si_blk_iter s"
  let ?es = "bss ! ?i" and ?j = "bi_idx (si_blk_iter s)"
  obtain i: "?i < length bss" and binv: "bi_inv (block_of_entries ?es) ?es ?bi"
    and j: "?j < length ?es" and at: "bi_at ?es ?j ?bi"
    using si_inv_valid [OF inv v] by blast
  have keys: "\<forall>e \<in> set ?es. fst e \<noteq> []" using blocks_ok_nth [OF ok i] by simp
  have key: "bi_key ?bi \<noteq> []" using v by (simp add: bi_is_valid_def)
  obtain bi2 where nx: "bi_next ?bi = Some bi2" and blk2: "bi_block bi2 = block_of_entries ?es"
    and at2: "bi_at ?es (Suc ?j) bi2"
    using bi_next_at [OF binv key] by blast
  have be: "block_entries (block_of_entries ?es) = Some ?es"
    using table_holds_read [OF hold i] by simp
  have view: "si_view bss s = drop ?j ?es @ concat (drop (Suc ?i) bss)"
    using si_view_valid [OF inv ok v] .
  have tbl: "si_table s = t" and nb: "num_of_blocks t = length bss"
    using inv hold by (simp_all add: si_inv_def table_holds_def)
  show ?thesis
  proof (cases "Suc ?j < length ?es")
    case True
    then have v2: "bi_is_valid bi2" using bi_at_valid [OF keys at2] by simp
    have "si_view bss (s\<lparr>si_blk_iter := bi2\<rparr>) = drop (Suc ?j) ?es @ concat (drop (Suc ?i) bss)"
      using bi_view_at_nonempty [OF keys at2] i by (simp add: si_view_def)
    moreover have "si_inv t bss (s\<lparr>si_blk_iter := bi2\<rparr>)"
      using inv i v2 bi_at_inv [OF be blk2 at2] by (simp add: si_inv_def)
    ultimately show ?thesis
      using nx v2 view j by (simp add: si_next_def drop_Suc tl_drop)
  next
    case False
    then have last: "drop ?j ?es = [?es ! ?j]" using j
      by (metis Cons_nth_drop_Suc drop_all not_less)
    have nv2: "\<not> bi_is_valid bi2" using bi_at_valid [OF keys at2] False by simp
    define s2 where "s2 = s\<lparr>si_blk_iter := bi2, si_blk_idx := Suc ?i\<rparr>"
    show ?thesis
    proof (cases "Suc ?i < length bss")
      case True
      obtain bi3 where rd: "read_block_cached t (Suc ?i) = Inr (block_of_entries (bss ! Suc ?i))"
        and cr: "bi_create_and_seek_to_first (block_of_entries (bss ! Suc ?i)) = Some bi3"
        and inv3: "bi_inv (block_of_entries (bss ! Suc ?i)) (bss ! Suc ?i) bi3"
        and v3: "bi_is_valid bi3" and view3: "bi_view (bss ! Suc ?i) bi3 = bss ! Suc ?i"
        using si_enter_block [OF hold ok True] by blast
      have "si_next s = (s2\<lparr>si_blk_iter := bi3\<rparr>, None)"
        using nx nv2 True tbl nb rd cr by (simp add: si_next_def s2_def)
      moreover have "si_inv t bss (s2\<lparr>si_blk_iter := bi3\<rparr>)"
        using tbl True inv3 v3 by (simp add: si_inv_def s2_def)
      moreover have "si_view bss (s2\<lparr>si_blk_iter := bi3\<rparr>) = concat (drop (Suc ?i) bss)"
        using True view3 Cons_nth_drop_Suc [OF True, symmetric] by (simp add: si_view_def s2_def)
      ultimately show ?thesis using view last by simp
    next
      case False
      have "si_next s = (s2, None)"
        using nx nv2 False tbl nb by (simp add: si_next_def s2_def)
      moreover have "si_inv t bss s2" using tbl False nv2 by (simp add: si_inv_def s2_def)
      moreover have "si_view bss s2 = []" using False by (simp add: si_view_def s2_def)
      ultimately show ?thesis using view last False by simp
    qed
  qed
qed

lemma sst_iter_lawful:
  assumes "table_holds t bss" and "blocks_ok bss"
  shows "lawful sst_iter_ops (si_inv t bss) (si_view bss)"
  unfolding lawful_def
proof (intro allI impI conjI)
  fix s assume inv: "si_inv t bss s"
  show "it_is_valid sst_iter_ops s \<longleftrightarrow> si_view bss s \<noteq> []"
    using si_lawful_head(1) [OF inv assms(2)] by (simp add: sst_iter_ops_def)
  show "si_view bss s \<noteq> [] \<Longrightarrow> (it_key sst_iter_ops s, it_value sst_iter_ops s) = hd (si_view bss s)"
    using si_lawful_head(2) [OF inv assms(2)] by (simp add: sst_iter_ops_def)
  fix s' assume ne: "si_view bss s \<noteq> []" and nx: "it_next sst_iter_ops s = Some (s', None)"
  have v: "bi_is_valid (si_blk_iter s)" using si_lawful_head(1) [OF inv assms(2)] ne by simp
  obtain s'' where "si_next s = (s'', None)" "si_inv t bss s''" "si_view bss s'' = tl (si_view bss s)"
    using si_next_step [OF assms inv v] by blast
  then show "si_inv t bss s'" "si_view bss s' = tl (si_view bss s)"
    using nx by (simp_all add: sst_iter_ops_def)
qed

lemma sst_next_total:
  "table_holds t bss \<Longrightarrow> blocks_ok bss \<Longrightarrow> si_inv t bss s \<Longrightarrow> it_is_valid sst_iter_ops s \<Longrightarrow>
     \<exists>s'. it_next sst_iter_ops s = Some (s', None)"
  using si_next_step [of t bss s] by (auto simp: sst_iter_ops_def)

lemma si_first:
  assumes "table_holds t bss" and "blocks_ok bss" and "bss \<noteq> []"
  shows "\<exists>s. si_create_and_seek_to_first t = Inr s \<and> si_inv t bss s \<and> si_view bss s = concat bss"
proof -
  have i: "0 < length bss" using assms(3) by simp
  obtain bi where rd: "read_block_cached t 0 = Inr (block_of_entries (bss ! 0))"
    and cr: "bi_create_and_seek_to_first (block_of_entries (bss ! 0)) = Some bi"
    and inv: "bi_inv (block_of_entries (bss ! 0)) (bss ! 0) bi" and v: "bi_is_valid bi"
    and vw: "bi_view (bss ! 0) bi = bss ! 0"
    using si_enter_block [OF assms(1,2) i] by blast
  let ?s = "\<lparr>si_table = t, si_blk_iter = bi, si_blk_idx = 0\<rparr>"
  have "si_create_and_seek_to_first t = Inr ?s"
    using rd cr by (simp add: si_create_and_seek_to_first_def si_get_first_blk_iter_def)
  moreover have "si_inv t bss ?s" using inv v i by (simp add: si_inv_def)
  moreover have "si_view bss ?s = concat bss"
    using i vw by (cases bss) (simp_all add: si_view_def)
  ultimately show ?thesis by blast
qed

lemma si_scan:
  assumes "table_holds t bss" and "blocks_ok bss" and "bss \<noteq> []"
  shows "\<exists>s. si_create_and_seek_to_first t = Inr s \<and>
           drain sst_iter_ops (length (concat bss)) s = Some (Inr (concat bss))"
proof -
  obtain s where cr: "si_create_and_seek_to_first t = Inr s" and inv: "si_inv t bss s"
    and vw: "si_view bss s = concat bss"
    using si_first [OF assms] by blast
  have "drain sst_iter_ops (length (si_view bss s)) s = Some (Inr (si_view bss s))"
    using drain_lawful [OF sst_iter_lawful [OF assms(1,2)] inv] sst_next_total [OF assms(1,2)] by blast
  then show ?thesis using cr vw by auto
qed

subsection \<open>Tables produced by the builder\<close>

lemma read_block_cached_ok: "cache_ok t \<Longrightarrow> read_block_cached t i = read_block t i"
  using try_get_with_consistent(1) [of t _ i]
  by (auto simp: cache_ok_def read_block_cached_def split: option.splits)

lemma built_table_holds:
  assumes "sb_repr sb bs cur" and "sb_build sb table_id block_cache path = Inr t" and "cache_ok t"
  shows "table_holds t (bs @ [cur])"
proof -
  let ?bss = "bs @ [cur]"
  have t: "t = table_of ?bss table_id block_cache"
    using sb_build_table_of [OF assms(1), of table_id block_cache path] assms(2) by simp
  have blocks: "\<forall>es \<in> set ?bss. (\<forall>e \<in> set es. fits_u16 e) \<and> length (entries_data es) < 65536"
    using sb_repr_blocks [OF assms(1)] .
  have "\<forall>i < length ?bss. read_block_cached t i = Inr (block_of_entries (?bss ! i)) \<and>
      block_entries (block_of_entries (?bss ! i)) = Some (?bss ! i)"
  proof (intro allI impI)
    fix i assume i: "i < length ?bss"
    then have "(\<forall>e \<in> set (?bss ! i). fits_u16 e) \<and> length (entries_data (?bss ! i)) < 65536"
      using blocks nth_mem by blast
    then show "read_block_cached t i = Inr (block_of_entries (?bss ! i)) \<and>
        block_entries (block_of_entries (?bss ! i)) = Some (?bss ! i)"
      using read_block_table_of [OF i] block_entries_of_entries [of "?bss ! i"] t
        read_block_cached_ok [OF assms(3)] by simp
  qed
  then show ?thesis by (simp add: table_holds_def t table_of_def num_of_blocks_def)
qed

lemma built_blocks_ok:
  "sb_repr sb bs cur \<Longrightarrow> cur \<noteq> [] \<Longrightarrow> blocks_ok (bs @ [cur])"
  by (auto simp: sb_repr_def blocks_ok_def)

subsection \<open>Seeking in sorted blocks\<close>

lemma concat_split_nth:
  "i < length bss \<Longrightarrow> concat bss = concat (take i bss) @ bss ! i @ concat (drop (Suc i) bss)"
  using id_take_nth_drop [of i bss] by (metis concat.simps(2) concat_append)

lemma ascending_blocks:
  assumes "keys_ascending (concat bss)" and "i < j" and "j < length bss"
    and "e \<in> set (bss ! i)" and "e' \<in> set (bss ! j)"
  shows "fst e < fst e'"
proof -
  have "bss ! i \<in> set (take j bss)"
    using nth_mem [of i "take j bss"] assms(2,3) by simp
  then have "e \<in> set (concat (take j bss))" using assms(4) by auto
  moreover have "bss ! j \<in> set (drop j bss)"
    using nth_mem [of 0 "drop j bss"] assms(3) by simp
  then have "e' \<in> set (concat (drop j bss))" using assms(5) by auto
  moreover have "keys_ascending (concat (take j bss) @ concat (drop j bss))"
    using assms(1) by (simp flip: concat_append)
  ultimately show ?thesis by (auto simp: sorted_wrt_append)
qed

lemma ascending_block_nth:
  "keys_ascending (concat bss) \<Longrightarrow> i < length bss \<Longrightarrow> keys_ascending (bss ! i)"
proof -
  assume asc: "keys_ascending (concat bss)" and i: "i < length bss"
  then have "keys_ascending (concat (take i bss) @ bss ! i @ concat (drop (Suc i) bss))"
    using concat_split_nth [OF i] by simp
  then show ?thesis by (simp add: sorted_wrt_append)
qed

lemma first_key_of_le:
  "keys_ascending es \<Longrightarrow> e \<in> set es \<Longrightarrow> first_key_of es \<le> fst e"
  by (cases es) (auto simp: first_key_of_def less_imp_le)

lemma first_key_of_mem: "es \<noteq> [] \<Longrightarrow> \<exists>e \<in> set es. fst e = first_key_of es"
  by (cases es) (auto simp: first_key_of_def)

lemma in_concat_nth: "e \<in> set (concat xs) \<Longrightarrow> \<exists>i < length xs. e \<in> set (xs ! i)"
proof -
  assume "e \<in> set (concat xs)"
  then obtain ys where "ys \<in> set xs" "e \<in> set ys" by auto
  then show ?thesis by (metis in_set_conv_nth)
qed

text \<open>With \<open>c'\<close> blocks whose first key is at most \<open>key\<close>, the block \<open>c' - 1\<close> (or block
  0) splits the sorted contents at \<open>key\<close>: everything in earlier blocks is below it,
  everything in later blocks above it.\<close>

lemma seek_split:
  assumes ok: "blocks_ok bss" and asc: "keys_ascending (concat bss)" and ne: "bss \<noteq> []"
    and c: "c = length (takeWhile (\<lambda>es. first_key_of es \<le> key) bss) - 1"
  shows "c < length bss"
    and "dropWhile (\<lambda>e. fst e < key) (concat bss) =
           drop (lower_bound (bss ! c) key) (bss ! c) @ concat (drop (Suc c) bss)"
proof -
  let ?c' = "length (takeWhile (\<lambda>es. first_key_of es \<le> key) bss)"
  have c'_le: "?c' \<le> length bss" by (rule length_takeWhile_le)
  show c_len: "c < length bss" using c c'_le ne by (cases bss) auto
  have blk: "\<And>j. j < length bss \<Longrightarrow> bss ! j \<noteq> [] \<and> keys_ascending (bss ! j)"
    using blocks_ok_nth [OF ok] ascending_block_nth [OF asc] by blast
  have below: "\<forall>e \<in> set (concat (take c bss)). fst e < key"
  proof
    fix e assume "e \<in> set (concat (take c bss))"
    then obtain j where j: "j < c" and e: "e \<in> set (bss ! j)"
      using in_concat_nth [of e "take c bss"] c_len by auto
    have "c < ?c'" using j c by simp
    then have "first_key_of (bss ! c) \<le> key" using nth_mem takeWhile_nth by (metis set_takeWhileD)
    moreover obtain e0 where "e0 \<in> set (bss ! c)" "fst e0 = first_key_of (bss ! c)"
      using first_key_of_mem blk [OF c_len] by blast
    ultimately show "fst e < key"
      using ascending_blocks [OF asc j c_len e] by fastforce
  qed
  have above: "\<forall>e \<in> set (concat (drop (Suc c) bss)). key < fst e"
  proof
    fix e assume "e \<in> set (concat (drop (Suc c) bss))"
    then obtain j0 where "j0 < length bss - Suc c" "e \<in> set (bss ! (Suc c + j0))"
      using in_concat_nth [of e "drop (Suc c) bss"] by auto
    then obtain j where j: "Suc c \<le> j" "j < length bss" and e: "e \<in> set (bss ! j)"
      by (intro that [of "Suc c + j0"]) auto
    have c'j: "?c' \<le> j" using j c by simp
    have c'_len: "?c' < length bss" using c'j j(2) by simp
    have gt: "key < first_key_of (bss ! ?c')"
      using nth_length_takeWhile [of "\<lambda>es. first_key_of es \<le> key" bss] c'_len by simp
    have "first_key_of (bss ! ?c') \<le> fst e"
    proof (cases "?c' = j")
      case True
      then show ?thesis using first_key_of_le blk [OF j(2)] e by simp
    next
      case False
      obtain e0 where e0: "e0 \<in> set (bss ! ?c')" "fst e0 = first_key_of (bss ! ?c')"
        using first_key_of_mem blk [OF c'_len] by blast
      have lt: "?c' < j" using c'j False by simp
      have "fst e0 < fst e" using ascending_blocks [OF asc lt j(2) e0(1) e] .
      then show ?thesis using e0(2) by simp
    qed
    then show "key < fst e" using gt by simp
  qed
  let ?es = "bss ! c" and ?lb = "lower_bound (bss ! c) key"
  have drop_es: "dropWhile (\<lambda>e. fst e < key) ?es = drop ?lb ?es"
    by (simp add: lower_bound_def dropWhile_eq_drop)
  have "dropWhile (\<lambda>e. fst e < key) (?es @ concat (drop (Suc c) bss)) =
      drop ?lb ?es @ concat (drop (Suc c) bss)"
  proof (cases "\<forall>e \<in> set ?es. fst e < key")
    case True
    then have "dropWhile (\<lambda>e. fst e < key) ?es = []" by (simp add: dropWhile_eq_Nil_conv)
    then have "drop ?lb ?es = []" using drop_es by simp
    moreover have "dropWhile (\<lambda>e. fst e < key) (concat (drop (Suc c) bss)) = concat (drop (Suc c) bss)"
    proof (cases "concat (drop (Suc c) bss)")
      case (Cons x xs)
      then have "key < fst x" using above by simp
      then show ?thesis using Cons by simp
    qed (simp only: dropWhile.simps(1))
    ultimately show ?thesis using True by (simp add: dropWhile_append2)
  next
    case False
    then obtain e where "e \<in> set ?es" "\<not> fst e < key" by blast
    then show ?thesis using drop_es by (simp add: dropWhile_append1)
  qed
  then show "dropWhile (\<lambda>e. fst e < key) (concat bss) = drop ?lb ?es @ concat (drop (Suc c) bss)"
  proof -
    have "dropWhile (\<lambda>e. fst e < key) (concat (take c bss) @ ?es @ concat (drop (Suc c) bss)) =
        dropWhile (\<lambda>e. fst e < key) (?es @ concat (drop (Suc c) bss))"
      by (rule dropWhile_append2) (use below in blast)
    then show ?thesis using concat_split_nth [OF c_len] \<open>dropWhile _ (?es @ _) = _\<close> by simp
  qed
qed

lemma find_block_idx_blocks:
  assumes "map bm_first_key (sst_block_metas t) = map first_key_of bss"
    and "\<forall>es \<in> set bss. es \<noteq> []" and "keys_ascending (concat bss)"
  shows "find_block_idx t key = length (takeWhile (\<lambda>es. first_key_of es \<le> key) bss) - 1"
proof -
  have "first_keys_ascending (sst_block_metas t)"
    using first_keys_sorted [OF assms(2,3)] assms(1) by simp
  then have "find_block_idx t key =
      length (takeWhile (\<lambda>m. bm_first_key m \<le> key) (sst_block_metas t)) - 1"
    by (rule find_block_idx_pred)
  moreover have "length (takeWhile (\<lambda>m. bm_first_key m \<le> key) (sst_block_metas t)) =
      length (takeWhile (\<lambda>k. k \<le> key) (map bm_first_key (sst_block_metas t)))"
    by (simp add: takeWhile_map comp_def)
  moreover have "length (takeWhile (\<lambda>k. k \<le> key) (map first_key_of bss)) =
      length (takeWhile (\<lambda>es. first_key_of es \<le> key) bss)"
    by (simp add: takeWhile_map comp_def)
  ultimately show ?thesis using assms(1) by simp
qed

lemma si_seek_key:
  assumes hold: "table_holds t bss" and ok: "blocks_ok bss" and ne: "bss \<noteq> []"
    and asc: "keys_ascending (concat bss)"
    and fk: "map bm_first_key (sst_block_metas t) = map first_key_of bss"
  shows "\<exists>s. si_create_and_seek_to_key t key = Inr s \<and> si_inv t bss s \<and>
           si_view bss s = dropWhile (\<lambda>e. fst e < key) (concat bss)"
proof -
  define c where "c = length (takeWhile (\<lambda>es. first_key_of es \<le> key) bss) - 1"
  have nonempty: "\<forall>es \<in> set bss. es \<noteq> []" using ok by (simp add: blocks_ok_def)
  have fb: "find_block_idx t key = c"
    using find_block_idx_blocks [OF fk nonempty asc] by (simp add: c_def)
  have c: "c < length bss"
    and split: "dropWhile (\<lambda>e. fst e < key) (concat bss) =
        drop (lower_bound (bss ! c) key) (bss ! c) @ concat (drop (Suc c) bss)"
    using seek_split [OF ok asc ne c_def] by simp_all
  let ?es = "bss ! c" and ?lb = "lower_bound (bss ! c) key"
  have rd: "read_block_cached t c = Inr (block_of_entries ?es)"
    and be: "block_entries (block_of_entries ?es) = Some ?es"
    using table_holds_read [OF hold c] by simp_all
  have keys: "\<forall>e \<in> set ?es. fst e \<noteq> []" using blocks_ok_nth [OF ok c] by simp
  obtain it where sk: "bi_create_and_seek_to_key (block_of_entries ?es) key = Some it"
    and blk: "bi_block it = block_of_entries ?es" and at: "bi_at ?es ?lb it"
    using bi_seek_to_key_at [of "bi_new (block_of_entries ?es)" ?es key] be
      ascending_block_nth [OF asc c]
    by (auto simp: bi_create_and_seek_to_key_def bi_new_def)
  have tbl_n: "num_of_blocks t = length bss" using hold by (simp add: table_holds_def)
  show ?thesis
  proof (cases "?lb < length ?es")
    case True
    then have v: "bi_is_valid it" using bi_at_valid [OF keys at] by simp
    let ?s = "\<lparr>si_table = t, si_blk_iter = it, si_blk_idx = c\<rparr>"
    have "si_create_and_seek_to_key t key = Inr ?s"
      using fb rd sk v by (simp add: si_create_and_seek_to_key_def si_get_key_blk_iter_def)
    moreover have "si_inv t bss ?s" using c v bi_at_inv [OF be blk at] by (simp add: si_inv_def)
    moreover have "si_view bss ?s = dropWhile (\<lambda>e. fst e < key) (concat bss)"
      using c split bi_view_at_nonempty [OF keys at] by (simp add: si_view_def)
    ultimately show ?thesis by blast
  next
    case False
    then have nv: "\<not> bi_is_valid it" using bi_at_valid [OF keys at] by simp
    have nil: "drop ?lb ?es = []" using False by simp
    show ?thesis
    proof (cases "Suc c < length bss")
      case True
      obtain bi3 where rd3: "read_block_cached t (Suc c) = Inr (block_of_entries (bss ! Suc c))"
        and cr: "bi_create_and_seek_to_first (block_of_entries (bss ! Suc c)) = Some bi3"
        and inv3: "bi_inv (block_of_entries (bss ! Suc c)) (bss ! Suc c) bi3"
        and v3: "bi_is_valid bi3" and view3: "bi_view (bss ! Suc c) bi3 = bss ! Suc c"
        using si_enter_block [OF hold ok True] by blast
      let ?s = "\<lparr>si_table = t, si_blk_iter = bi3, si_blk_idx = Suc c\<rparr>"
      have "si_create_and_seek_to_key t key = Inr ?s"
        using fb rd sk nv True tbl_n rd3 cr
        by (simp add: si_create_and_seek_to_key_def si_get_key_blk_iter_def)
      moreover have "si_inv t bss ?s" using True inv3 v3 by (simp add: si_inv_def)
      moreover have "si_view bss ?s = dropWhile (\<lambda>e. fst e < key) (concat bss)"
        using True view3 split nil Cons_nth_drop_Suc [OF True, symmetric] by (simp add: si_view_def)
      ultimately show ?thesis by blast
    next
      case False
      let ?s = "\<lparr>si_table = t, si_blk_iter = it, si_blk_idx = Suc c\<rparr>"
      have "si_create_and_seek_to_key t key = Inr ?s"
        using fb rd sk nv False tbl_n
        by (simp add: si_create_and_seek_to_key_def si_get_key_blk_iter_def)
      moreover have "si_inv t bss ?s" using False nv by (simp add: si_inv_def)
      moreover have "si_view bss ?s = dropWhile (\<lambda>e. fst e < key) (concat bss)"
      proof -
        have d: "drop (Suc c) bss = []" using False by simp
        have "dropWhile (\<lambda>e. fst e < key) (concat bss) = []" using split unfolding nil d by simp
        then show ?thesis using False by (simp add: si_view_def del: dropWhile_eq_Nil_conv)
      qed
      ultimately show ?thesis by blast
    qed
  qed
qed

subsection \<open>Properties of the table iterator\<close>

text \<open>C16: a full scan of a table built from pairs with non-empty keys, through
  \<open>create_and_seek_to_first\<close> and \<open>next\<close> until \<open>is_valid\<close> fails, yields exactly the
  added pairs in order, with no error (whenever the table's block cache, if any,
  holds only blocks of this table).\<close>

theorem built_table_scan:
  assumes "pairs_ok ps" and "sb_add_all (sb_new n) ps = Some sb"
    and "sb_build sb table_id block_cache path = Inr t" and "cache_ok t"
  shows "\<exists>s. si_create_and_seek_to_first t = Inr s \<and> drain sst_iter_ops (length ps) s = Some (Inr ps)"
proof -
  obtain bs cur where repr: "sb_repr sb bs cur" and ps: "concat (bs @ [cur]) = ps"
    and shape: "bs = [] \<and> cur = [] \<or> cur \<noteq> []"
    using sb_add_all_new [OF assms(1,2)] by blast
  have hold: "table_holds t (bs @ [cur])" using built_table_holds [OF repr assms(3,4)] .
  show ?thesis
  proof (cases "cur = []")
    case False
    then show ?thesis
      using si_scan [OF hold built_blocks_ok [OF repr False]] unfolding ps by simp
  next
    case True
    then have nil: "bs = [] \<and> cur = []" "ps = []" using shape ps by auto
    then have rd: "read_block_cached t 0 = Inr (block_of_entries [])"
      and be: "block_entries (block_of_entries []) = Some []"
      using table_holds_read [OF hold, of 0] by simp_all
    obtain bi where cr: "bi_create_and_seek_to_first (block_of_entries []) = Some bi"
      and at: "bi_at [] 0 bi"
      using bi_first_at [OF be] by blast
    have "\<not> bi_is_valid bi" using at by (simp add: bi_at_def bi_is_valid_def)
    then show ?thesis
      using rd cr nil(2)
      by (simp add: si_create_and_seek_to_first_def si_get_first_blk_iter_def sst_iter_ops_def)
  qed
qed

theorem built_table_scan_witness:
  "\<exists>sb t s. sb_add_all (sb_new 16) [([1], [10]), ([2], [20]), ([3], [30])] = Some sb \<and>
     sb_build sb 7 None ''f'' = Inr t \<and> si_create_and_seek_to_first t = Inr s \<and>
     drain sst_iter_ops 3 s = Some (Inr [([1], [10]), ([2], [20]), ([3], [30])])"
proof -
  let ?ps = "[([1], [10]), ([2], [20]), ([3], [30])] :: kv list"
  have "\<exists>sb t. sb_add_all (sb_new 16) ?ps = Some sb \<and> sb_build sb 7 None ''f'' = Inr t \<and>
      sst_block_cache t = None"
    by (simp add: sb_eval_simps)
  then obtain sb t where "sb_add_all (sb_new 16) ?ps = Some sb" "sb_build sb 7 None ''f'' = Inr t"
      "sst_block_cache t = None"
    by blast
  moreover have "pairs_ok ?ps" by (simp add: pairs_ok_def)
  moreover have "cache_ok t" using \<open>sst_block_cache t = None\<close> by (simp add: cache_ok_def)
  ultimately show ?thesis
    using built_table_scan [of ?ps 16 sb 7 None "''f''" t] by (metis numeral_3_eq_3 length_Cons list.size(3))
qed

text \<open>C17: on a non-empty table built from pairs in strictly ascending key order,
  \<open>create_and_seek_to_key\<close> positions the iterator at the first pair whose key is not
  below the sought key, in whichever block it lies: scanning from there yields exactly
  the added pairs from that one on.\<close>

theorem built_table_seek:
  assumes "pairs_ok ps" and "keys_ascending ps" and "ps \<noteq> []"
    and "sb_add_all (sb_new n) ps = Some sb"
    and "sb_build sb table_id block_cache path = Inr t" and "cache_ok t"
  shows "\<exists>s. si_create_and_seek_to_key t key = Inr s \<and>
           drain sst_iter_ops (length ps) s = Some (Inr (dropWhile (\<lambda>e. fst e < key) ps))"
proof -
  obtain bs cur where repr: "sb_repr sb bs cur" and ps: "concat (bs @ [cur]) = ps"
    and shape: "bs = [] \<and> cur = [] \<or> cur \<noteq> []"
    using sb_add_all_new [OF assms(1,4)] by blast
  have cur: "cur \<noteq> []" using shape ps assms(3) by auto
  let ?bss = "bs @ [cur]"
  have hold: "table_holds t ?bss" using built_table_holds [OF repr assms(5,6)] .
  have ok: "blocks_ok ?bss" using built_blocks_ok [OF repr cur] .
  have fk: "map bm_first_key (sst_block_metas t) = map first_key_of ?bss"
    using sb_build_table_of [OF repr, of table_id block_cache path] assms(5)
    by (simp add: table_of_def map_first_key_layout_metas)
  have asc: "keys_ascending (concat ?bss)" using assms(2) ps by simp
  obtain s where sk: "si_create_and_seek_to_key t key = Inr s" and inv: "si_inv t ?bss s"
    and vw: "si_view ?bss s = dropWhile (\<lambda>e. fst e < key) ps"
    using si_seek_key [OF hold ok _ asc fk, of key] ps by auto
  have "drain sst_iter_ops (length (si_view ?bss s)) s = Some (Inr (si_view ?bss s))"
    using drain_lawful [OF sst_iter_lawful [OF hold ok] inv] sst_next_total [OF hold ok] by blast
  then have "drain sst_iter_ops (length (si_view ?bss s) + (length ps - length (si_view ?bss s))) s =
      Some (Inr (si_view ?bss s))"
    by (rule drain_more_fuel)
  moreover have "length (si_view ?bss s) \<le> length ps" using vw by (simp add: length_dropWhile_le)
  ultimately show ?thesis using sk vw by auto
qed

theorem built_table_seek_witness:
  "\<exists>sb t s. sb_add_all (sb_new 16) [([1], [10]), ([2], [20]), ([3], [30])] = Some sb \<and>
     sb_build sb 7 None ''f'' = Inr t \<and> si_create_and_seek_to_key t [2] = Inr s \<and>
     drain sst_iter_ops 3 s = Some (Inr [([2], [20]), ([3], [30])])"
proof -
  let ?ps = "[([1], [10]), ([2], [20]), ([3], [30])] :: kv list"
  have "\<exists>sb t. sb_add_all (sb_new 16) ?ps = Some sb \<and> sb_build sb 7 None ''f'' = Inr t \<and>
      sst_block_cache t = None"
    by (simp add: sb_eval_simps)
  then obtain sb t where "sb_add_all (sb_new 16) ?ps = Some sb" "sb_build sb 7 None ''f'' = Inr t"
      "sst_block_cache t = None"
    by blast
  moreover have "pairs_ok ?ps" and "keys_ascending ?ps" by (simp_all add: pairs_ok_def)
  moreover have "cache_ok t" using \<open>sst_block_cache t = None\<close> by (simp add: cache_ok_def)
  moreover have "dropWhile (\<lambda>e. fst e < [2]) ?ps = [([2], [20]), ([3], [30])]" by simp
  ultimately show ?thesis
    using built_table_seek [of ?ps 16 sb 7 None "''f''" t "[2]"]
    by (metis numeral_3_eq_3 length_Cons list.size(3) list.distinct(1))
qed

subsection \<open>A failed block load\<close>

text \<open>Past its last entry a block iterator stays exhausted under \<open>next\<close>.\<close>

lemma bi_next_last:
  assumes "Suc (bi_idx it) = length (blk_offsets (bi_block it))"
  shows "bi_next it = Some (it\<lparr>bi_idx := Suc (bi_idx it), bi_key := [], bi_value := []\<rparr>)"
  using assms by (simp add: bi_next_def bi_seek_to_def)

lemma bi_next_exhausted:
  assumes "length (blk_offsets (bi_block it)) \<le> bi_idx it"
  shows "bi_next it = Some (it\<lparr>bi_idx := Suc (bi_idx it), bi_key := [], bi_value := []\<rparr>)"
  using assms by (simp add: bi_next_def bi_seek_to_def)

text \<open>C35: when loading the next block fails in \<open>SsTableIterator::next\<close>, the \<open>?\<close> returns
  the error after \<open>blk_idx\<close> has been incremented, and the exhausted block iterator is
  kept. The table iterator is then invalid, as at the end of the table, and a retried
  \<open>next\<close> goes on with the block after the one whose read failed: that block's entries
  are skipped.\<close>

theorem table_iter_read_error_skips_block:
  assumes last: "Suc (bi_idx (si_blk_iter s)) = length (blk_offsets (bi_block (si_blk_iter s)))"
    and more: "si_blk_idx s + 2 < num_of_blocks (si_table s)"
    and fail: "read_block_cached (si_table s) (si_blk_idx s + 1) = Inl e"
    and ok: "read_block_cached (si_table s) (si_blk_idx s + 2) = Inr b"
    and it2: "bi_create_and_seek_to_first b = Some it2"
  shows "snd (si_next s) = Some e \<and> \<not> it_is_valid sst_iter_ops (fst (si_next s)) \<and>
         si_next (fst (si_next s)) = (s\<lparr>si_blk_iter := it2, si_blk_idx := si_blk_idx s + 2\<rparr>, None)"
proof -
  let ?it = "(si_blk_iter s)\<lparr>bi_idx := Suc (bi_idx (si_blk_iter s)), bi_key := [], bi_value := []\<rparr>"
  have s1: "si_next s = (s\<lparr>si_blk_iter := ?it, si_blk_idx := si_blk_idx s + 1\<rparr>, Some e)"
    using more fail by (simp add: si_next_def bi_next_last [OF last] bi_is_valid_def)
  have ex: "bi_next ?it = Some (?it\<lparr>bi_idx := Suc (Suc (bi_idx (si_blk_iter s)))\<rparr>)"
    using bi_next_exhausted [of ?it] last by simp
  show ?thesis
    using s1 more ok it2 by (simp add: si_next_def ex bi_is_valid_def sst_iter_ops_def)
qed

theorem table_iter_read_error_skips_block_witness:
  "snd (si_next
     \<lparr>si_table = \<lparr>sst_file = \<lparr>fo_data = [0, 1, 1, 0, 1, 2, 0, 0, 0, 1], fo_size = 10\<rparr>,
        sst_block_metas = [\<lparr>bm_offset = 0, bm_first_key = [1]\<rparr>, \<lparr>bm_offset = 10, bm_first_key = [3]\<rparr>,
                           \<lparr>bm_offset = 20, bm_first_key = [5]\<rparr>],
        sst_block_meta_offset = 30, sst_id = 1,
        sst_block_cache = Some (Map.empty((1, 2) \<mapsto> \<lparr>blk_data = [0, 1, 5, 0, 1, 6], blk_offsets = [0]\<rparr>))\<rparr>,
      si_blk_iter = \<lparr>bi_block = \<lparr>blk_data = [0, 1, 1, 0, 1, 2], blk_offsets = [0]\<rparr>, bi_key = [1], bi_value = [2], bi_idx = 0\<rparr>,
      si_blk_idx = 0\<rparr>) = Some Io_error \<and>
   si_next (fst (si_next
     \<lparr>si_table = \<lparr>sst_file = \<lparr>fo_data = [0, 1, 1, 0, 1, 2, 0, 0, 0, 1], fo_size = 10\<rparr>,
        sst_block_metas = [\<lparr>bm_offset = 0, bm_first_key = [1]\<rparr>, \<lparr>bm_offset = 10, bm_first_key = [3]\<rparr>,
                           \<lparr>bm_offset = 20, bm_first_key = [5]\<rparr>],
        sst_block_meta_offset = 30, sst_id = 1,
        sst_block_cache = Some (Map.empty((1, 2) \<mapsto> \<lparr>blk_data = [0, 1, 5, 0, 1, 6], blk_offsets = [0]\<rparr>))\<rparr>,
      si_blk_iter = \<lparr>bi_block = \<lparr>blk_data = [0, 1, 1, 0, 1, 2], blk_offsets = [0]\<rparr>, bi_key = [1], bi_value = [2], bi_idx = 0\<rparr>,
      si_blk_idx = 0\<rparr>))
   = (\<lparr>si_table = \<lparr>sst_file = \<lparr>fo_data = [0, 1, 1, 0, 1, 2, 0, 0, 0, 1], fo_size = 10\<rparr>,
        sst_block_metas = [\<lparr>bm_offset = 0, bm_first_key = [1]\<rparr>, \<lparr>bm_offset = 10, bm_first_key = [3]\<rparr>,
                           \<lparr>bm_offset = 20, bm_first_key = [5]\<rparr>],
        sst_block_meta_offset = 30, sst_id = 1,
        sst_block_cache = Some (Map.empty((1, 2) \<mapsto> \<lparr>blk_data = [0, 1, 5, 0, 1, 6], blk_offsets = [0]\<rparr>))\<rparr>,
      si_blk_iter = \<lparr>bi_block = \<lparr>blk_data = [0, 1, 5, 0, 1, 6], blk_offsets = [0]\<rparr>, bi_key = [5], bi_value = [6], bi_idx = 0\<rparr>,
      si_blk_idx = 2\<rparr>, None)"
proof -
  let ?b2 = "\<lparr>blk_data = [0, 1, 5, 0, 1, 6], blk_offsets = [0 :: 16 word]\<rparr>"
  let ?t = "\<lparr>sst_file = \<lparr>fo_data = [0, 1, 1, 0, 1, 2, 0, 0, 0, 1 :: 8 word], fo_size = 10\<rparr>,
        sst_block_metas = [\<lparr>bm_offset = 0, bm_first_key = [1 :: 8 word]\<rparr>, \<lparr>bm_offset = 10, bm_first_key = [3]\<rparr>,
                           \<lparr>bm_offset = 20, bm_first_key = [5]\<rparr>],
        sst_block_meta_offset = 30, sst_id = 1,
        sst_block_cache = Some (Map.empty((1, 2) \<mapsto> ?b2))\<rparr>"
  let ?s = "\<lparr>si_table = ?t,
      si_blk_iter = \<lparr>bi_block = \<lparr>blk_data = [0, 1, 1, 0, 1, 2], blk_offsets = [0 :: 16 word]\<rparr>, bi_key = [1], bi_value = [2], bi_idx = 0\<rparr>,
      si_blk_idx = 0\<rparr>"
  have last: "Suc (bi_idx (si_blk_iter ?s)) = length (blk_offsets (bi_block (si_blk_iter ?s)))" by simp
  have more: "si_blk_idx ?s + 2 < num_of_blocks (si_table ?s)" by (simp add: num_of_blocks_def)
  have fail: "read_block_cached (si_table ?s) (si_blk_idx ?s + 1) = Inl Io_error"
    by (simp add: read_block_cached_def try_get_with_def read_block_def fo_read_def chk_sub_def)
  have ok: "read_block_cached (si_table ?s) (si_blk_idx ?s + 2) = Inr ?b2"
    by (simp add: read_block_cached_def try_get_with_def)
  have it2: "bi_create_and_seek_to_first ?b2 = Some \<lparr>bi_block = ?b2, bi_key = [5], bi_value = [6], bi_idx = 0\<rparr>"
    by (simp add: bi_create_and_seek_to_first_def bi_seek_to_first_def bi_seek_to_def bi_new_def
        bi_seek_to_offset_def read_entry_def get_bytes_def)
  show ?thesis using table_iter_read_error_skips_block [OF last more fail ok it2] by simp
qed

end
