(* ===== verification/Merge_Spec.thy ===== *)
theory Merge_Spec
  imports Prelude
begin

text \<open>
  The abstract specification of the merge iterators (spec sections 4.6 and 4.7).
  \<^item> \<open>merge2 xs ys\<close> is the two-way merge; \<open>xs\<close> wins ties, as A does in
    \<open>TwoMergeIterator\<close>.
  \<^item> \<open>merge_all\<close> folds \<open>merge2\<close> over a list of sources, so the source with the lowest index
    wins (newest-wins in \<open>MergeIterator\<close>).
  \<^item> \<open>merged\<close> is the merge of indexed sources taken in index order, and \<open>prio_lookup\<close> its
    pointwise reading.
  \<^item> \<open>strip_rel\<close> relates the sources before and after a step that consumes one key.
  The lemmas show the following.
  \<^item> The merges are strictly ascending and, read as maps, are the sources' maps overridden
    in priority order.
  \<^item> Strictly ascending lists with the same \<open>map_of\<close> are equal; this uniqueness argument
    carries every equation between merges.
  \<^item> Stripping the head key of a merge's sources leaves the tail of the merge.
  \<^item> \<open>merge2\<close> is associative, and \<open>merge_all\<close> distributes over append.
\<close>

fun merge2 :: "kv list \<Rightarrow> kv list \<Rightarrow> kv list" where
  "merge2 [] ys = ys"
| "merge2 xs [] = xs"
| "merge2 (x # xs) (y # ys) =
     (if fst x < fst y then x # merge2 xs (y # ys)
      else if fst x = fst y then x # merge2 xs ys
      else y # merge2 (x # xs) ys)"

fun merge_all :: "kv list list \<Rightarrow> kv list" where
  "merge_all [] = []"
| "merge_all (v # vs) = merge2 v (merge_all vs)"

text \<open>The view of a k-way merge over indexed sources: the sources are taken in order of
  their index (\<open>merged\<close>), and a key is bound to the value of the lowest-indexed source
  that holds it (\<open>prio_lookup\<close>). \<open>strip_rel k0 E E'\<close> relates the sources before and during
  a step of the merge iterator that consumes key \<open>k0\<close>: every source of \<open>E'\<close> agrees
  with its namesake in \<open>E\<close> on every key but \<open>k0\<close>, and only sources that hold nothing
  but \<open>k0\<close> are dropped.\<close>

definition merged :: "(nat \<times> kv list) list \<Rightarrow> kv list" where
  "merged E = merge_all (map snd (sort_key fst E))"

definition prio_lookup :: "(nat \<times> kv list) list \<Rightarrow> bytes \<Rightarrow> bytes \<Rightarrow> bool" where
  "prio_lookup E k w \<longleftrightarrow>
     (\<exists>(i, v) \<in> set E. map_of v k = Some w \<and> (\<forall>(j, u) \<in> set E. j < i \<longrightarrow> map_of u k = None))"

definition strip_rel :: "bytes \<Rightarrow> (nat \<times> kv list) list \<Rightarrow> (nat \<times> kv list) list \<Rightarrow> bool" where
  "strip_rel k0 E E' \<longleftrightarrow>
     (\<forall>(i, v') \<in> set E'. \<exists>v. (i, v) \<in> set E \<and>
        filter (\<lambda>e. fst e \<noteq> k0) v' = filter (\<lambda>e. fst e \<noteq> k0) v) \<and>
     (\<forall>(i, v) \<in> set E. (\<exists>v'. (i, v') \<in> set E') \<or> filter (\<lambda>e. fst e \<noteq> k0) v = [])"

subsection \<open>Lemmas on the two-way merge\<close>

lemma merge2_Nil2 [simp]: "merge2 xs [] = xs"
  by (cases xs) simp_all

lemma merge2_keys: "set (map fst (merge2 xs ys)) = set (map fst xs) \<union> set (map fst ys)"
  by (induction xs ys rule: merge2.induct) auto

lemma merge2_ascending:
  "keys_ascending xs \<Longrightarrow> keys_ascending ys \<Longrightarrow> keys_ascending (merge2 xs ys)"
proof (induction xs ys rule: merge2.induct)
  case (3 x xs y ys)
  have kx: "\<forall>k \<in> set (map fst xs). fst x < k" and ky: "\<forall>k \<in> set (map fst ys). fst y < k"
    using "3.prems" by simp_all
  show ?case
  proof (cases "fst x < fst y")
    case True
    then show ?thesis using "3.IH"(1) "3.prems" kx ky merge2_keys [of xs "y # ys"] by auto
  next
    case ge: False
    show ?thesis
    proof (cases "fst x = fst y")
      case True
      then show ?thesis using "3.IH"(2) ge "3.prems" kx ky merge2_keys [of xs ys] by auto
    next
      case False
      then have "fst y < fst x" using ge by auto
      then show ?thesis
        using "3.IH"(3) ge False "3.prems" kx ky merge2_keys [of "x # xs" ys] by auto
    qed
  qed
qed simp_all

lemma map_of_merge2:
  "keys_ascending xs \<Longrightarrow> keys_ascending ys \<Longrightarrow> map_of (merge2 xs ys) = map_of ys ++ map_of xs"
proof (induction xs ys rule: merge2.induct)
  case (1 ys)
  then show ?case by simp
next
  case (2 x xs)
  then show ?case by simp
next
  case (3 x xs y ys)
  have kx: "\<forall>k \<in> set (map fst xs). fst x < k" and ky: "\<forall>k \<in> set (map fst ys). fst y < k"
    using "3.prems" by simp_all
  show ?case
  proof (cases "fst x < fst y")
    case True
    then have "map_of (merge2 xs (y # ys)) = map_of (y # ys) ++ map_of xs"
      by (rule "3.IH"(1)) (use "3.prems" in simp_all)
    then show ?thesis using True by (auto simp: map_add_def fun_eq_iff fun_upd_def split: option.splits)
  next
    case ge: False
    show ?thesis
    proof (cases "fst x = fst y")
      case True
      then have "map_of (merge2 xs ys) = map_of ys ++ map_of xs"
        using "3.IH"(2) ge "3.prems" by simp
      moreover have "map_of ys (fst y) = None" using ky by (force simp: map_of_eq_None_iff)
      ultimately show ?thesis using True ge by (auto simp: map_add_def fun_eq_iff split: option.splits)
    next
      case False
      then have lt: "fst y < fst x" using ge by auto
      then have "map_of (merge2 (x # xs) ys) = map_of ys ++ map_of (x # xs)"
        by (intro "3.IH"(3) ge False) (use "3.prems" in simp_all)
      moreover have "map_of (x # xs) (fst y) = None"
        using kx lt by (auto simp: map_of_eq_None_iff)
      ultimately show ?thesis using ge False by (auto simp: map_add_def fun_eq_iff split: option.splits)
    qed
  qed
qed

text \<open>Dropping from the second source the pairs whose key is the first source's head
  key does not change the merge: that pair loses the tie anyway.\<close>

lemma merge2_dropWhile_head:
  assumes "keys_ascending ys"
  shows "merge2 (x # xs) (dropWhile (\<lambda>e. fst e = fst x) ys) = merge2 (x # xs) ys"
proof (cases ys)
  case (Cons y ys')
  show ?thesis
  proof (cases "fst y = fst x")
    case True
    have "dropWhile (\<lambda>e. fst e = fst x) ys' = ys'"
    proof (cases ys')
      case (Cons z zs)
      then have "fst y < fst z" using assms \<open>ys = y # ys'\<close> by simp
      then show ?thesis using Cons True by simp
    qed simp
    moreover have "merge2 (x # xs) ys' = x # merge2 xs ys'"
    proof (cases ys')
      case (Cons z zs)
      then have "fst x < fst z" using assms \<open>ys = y # ys'\<close> True by simp
      then show ?thesis using Cons by simp
    qed simp
    ultimately show ?thesis using Cons True by simp
  qed (use Cons in simp)
qed simp

text \<open>Taking the head off the side that supplies the merge's head.\<close>

lemma merge2_tl_left:
  "ys = [] \<or> fst x < fst (hd ys) \<Longrightarrow> tl (merge2 (x # xs) ys) = merge2 xs ys"
  by (cases ys) auto

lemma merge2_tl_right:
  "xs = [] \<or> fst y < fst (hd xs) \<Longrightarrow> tl (merge2 xs (y # ys)) = merge2 xs ys"
  by (cases xs) auto

lemma length_merge2_le: "length (merge2 xs ys) \<le> length xs + length ys"
  by (induction xs ys rule: merge2.induct) auto

subsection \<open>Lemmas on the k-way merge\<close>

lemma map_of_rebuild:
  "distinct (map fst xs) \<Longrightarrow> map (\<lambda>k. (k, the (map_of xs k))) (map fst xs) = xs"
proof (induction xs)
  case (Cons x xs)
  have "map (\<lambda>k. (k, the (map_of (x # xs) k))) (map fst xs) = map (\<lambda>k. (k, the (map_of xs k))) (map fst xs)"
  proof (rule map_cong [OF refl])
    fix k assume "k \<in> set (map fst xs)"
    then have "k \<noteq> fst x" using Cons.prems by (force simp: image_iff)
    then show "(k, the (map_of (x # xs) k)) = (k, the (map_of xs k))" by simp
  qed
  moreover have "map (\<lambda>k. (k, the (map_of xs k))) (map fst xs) = xs"
    using Cons by (simp del: map_map)
  ultimately show ?case by (simp del: map_map)
qed simp

lemma ascending_map_of_eq:
  assumes "keys_ascending xs" and "keys_ascending ys" and "map_of xs = map_of ys"
  shows "xs = ys"
proof -
  have dx: "distinct (map fst xs)" and dy: "distinct (map fst ys)"
    using assms(1,2) by (simp_all add: strict_sorted_iff)
  have "set xs = set ys" using map_of_inject_set [OF dx dy] assms(3) by simp
  then have "set (map fst xs) = set (map fst ys)" by simp
  then have keys: "map fst xs = map fst ys"
    using assms(1,2) by (simp add: strict_sorted_equal)
  show ?thesis using map_of_rebuild [OF dx] map_of_rebuild [OF dy] keys assms(3) by metis
qed

lemma option_eq_by_Some: "(\<And>w. a = Some w \<longleftrightarrow> b = Some w) \<Longrightarrow> a = b"
  by (cases a; cases b) blast+



lemma merge_all_ascending:
  "\<forall>v \<in> set vs. keys_ascending v \<Longrightarrow> keys_ascending (merge_all vs)"
  by (induction vs) (simp_all add: merge2_ascending)

lemma map_of_merge_all_sorted:
  assumes "sorted_wrt (<) (map fst S)" and "\<forall>(i, v) \<in> set S. keys_ascending v"
  shows "map_of (merge_all (map snd S)) k = Some w \<longleftrightarrow> prio_lookup S k w"
  using assms
proof (induction S)
  case Nil
  then show ?case by (simp add: prio_lookup_def)
next
  case (Cons e S)
  obtain i v where e: "e = (i, v)" by fastforce
  have asc: "\<forall>u \<in> set (map snd S). keys_ascending u" using Cons.prems(2) by auto
  have later: "\<forall>(j, u) \<in> set S. i < j" using Cons.prems(1) e by auto
  have m: "map_of (merge_all (map snd (e # S))) k =
      (case map_of v k of Some w \<Rightarrow> Some w | None \<Rightarrow> map_of (merge_all (map snd S)) k)"
    using map_of_merge2 [of v "merge_all (map snd S)"] Cons.prems(2) merge_all_ascending [OF asc] e
    by (simp add: map_add_def split: option.splits)
  have ih: "map_of (merge_all (map snd S)) k = Some w \<longleftrightarrow> prio_lookup S k w"
    using Cons.IH Cons.prems by simp
  show ?case
  proof (cases "map_of v k")
    case (Some w')
    then show ?thesis using m later e by (auto simp: prio_lookup_def)
  next
    case None
    then show ?thesis using m ih later e by (fastforce simp: prio_lookup_def)
  qed
qed

lemma map_of_merged:
  assumes "distinct (map fst E)" and "\<forall>(i, v) \<in> set E. keys_ascending v"
  shows "map_of (merged E) k = Some w \<longleftrightarrow> prio_lookup E k w"
proof -
  have "sorted_wrt (<) (map fst (sort_key fst E))"
    using assms(1) by (simp add: strict_sorted_iff sorted_sort_key distinct_map)
  moreover have "set (sort_key fst E) = set E" by simp
  ultimately show ?thesis
    using map_of_merge_all_sorted [of "sort_key fst E" k w] assms(2)
    by (simp add: merged_def prio_lookup_def)
qed

lemma map_of_filter_key:
  "map_of (filter (\<lambda>e. fst e \<noteq> k0) v) k = (if k = k0 then None else map_of v k)"
  by (induction v) auto

text \<open>Removing the key \<open>k0\<close> from every source, and dropping sources left with nothing,
  removes exactly \<open>k0\<close> from the merge.\<close>


lemma filter_key_agree:
  "filter (\<lambda>e. fst e \<noteq> k0) v' = filter (\<lambda>e. fst e \<noteq> k0) v \<Longrightarrow> k \<noteq> k0 \<Longrightarrow> map_of v' k = map_of v k"
  by (metis map_of_filter_key)

lemma strip_rel_lookup:
  assumes dE: "distinct (map fst E)" and rel: "strip_rel k0 E E'"
    and nk: "\<forall>(i, v') \<in> set E'. map_of v' k0 = None"
  shows "prio_lookup E' k w \<longleftrightarrow> k \<noteq> k0 \<and> prio_lookup E k w"
proof -
  let ?f = "\<lambda>v. filter (\<lambda>e. fst e \<noteq> k0) v"
  have fwd: "\<And>i v'. (i, v') \<in> set E' \<Longrightarrow> \<exists>v. (i, v) \<in> set E \<and> ?f v' = ?f v"
    using rel by (auto simp: strip_rel_def)
  have uniq: "\<And>i v u. (i, v) \<in> set E \<Longrightarrow> (i, u) \<in> set E \<Longrightarrow> u = v"
    using dE by (meson eq_key_imp_eq_value)
  have bwd: "\<And>i v. (i, v) \<in> set E \<Longrightarrow> (\<exists>v'. (i, v') \<in> set E' \<and> ?f v' = ?f v) \<or> ?f v = []"
  proof -
    fix i v assume iv: "(i, v) \<in> set E"
    then have "(\<exists>v'. (i, v') \<in> set E') \<or> ?f v = []" using rel by (auto simp: strip_rel_def)
    then show "(\<exists>v'. (i, v') \<in> set E' \<and> ?f v' = ?f v) \<or> ?f v = []"
      using fwd uniq iv by metis
  qed
  have none: "\<And>v. ?f v = [] \<Longrightarrow> k \<noteq> k0 \<Longrightarrow> map_of v k = None"
    using map_of_filter_key by (metis map_of.simps(1))
  show ?thesis
  proof
    assume "prio_lookup E' k w"
    then obtain i v' where iv': "(i, v') \<in> set E'" "map_of v' k = Some w"
      and first': "\<forall>(j, u') \<in> set E'. j < i \<longrightarrow> map_of u' k = None"
      by (auto simp: prio_lookup_def)
    obtain v where iv: "(i, v) \<in> set E" and v': "?f v' = ?f v"
      using fwd [OF iv'(1)] by blast
    have k: "k \<noteq> k0" using iv' nk by fastforce
    have "map_of v k = Some w" using iv'(2) filter_key_agree [OF v' k] by simp
    moreover have "\<forall>(j, u) \<in> set E. j < i \<longrightarrow> map_of u k = None"
    proof (intro ballI impI, clarify)
      fix j u assume ju: "(j, u) \<in> set E" and lt: "j < i"
      show "map_of u k = None"
        using bwd [OF ju]
      proof
        assume "\<exists>u'. (j, u') \<in> set E' \<and> ?f u' = ?f u"
        then obtain u' where "(j, u') \<in> set E'" "?f u' = ?f u" by blast
        then show ?thesis using first' lt filter_key_agree [OF _ k] by fastforce
      qed (use none k in blast)
    qed
    ultimately show "k \<noteq> k0 \<and> prio_lookup E k w" using iv k by (auto simp: prio_lookup_def)
  next
    assume "k \<noteq> k0 \<and> prio_lookup E k w"
    then have k: "k \<noteq> k0" and "prio_lookup E k w" by simp_all
    then obtain i v where iv: "(i, v) \<in> set E" "map_of v k = Some w"
      and first: "\<forall>(j, u) \<in> set E. j < i \<longrightarrow> map_of u k = None"
      by (auto simp: prio_lookup_def)
    obtain v' where iv': "(i, v') \<in> set E'" and v': "?f v' = ?f v"
      using bwd [OF iv(1)] none [of v] k iv(2) by auto
    have "map_of v' k = Some w" using iv(2) filter_key_agree [OF v' k] by simp
    moreover have "\<forall>(j, u') \<in> set E'. j < i \<longrightarrow> map_of u' k = None"
    proof (intro ballI impI, clarify)
      fix j u' assume ju': "(j, u') \<in> set E'" and lt: "j < i"
      obtain u where "(j, u) \<in> set E" "?f u' = ?f u" using fwd [OF ju'] by blast
      then show "map_of u' k = None" using first lt filter_key_agree [OF _ k] by fastforce
    qed
    ultimately show "prio_lookup E' k w" using iv' by (auto simp: prio_lookup_def)
  qed
qed

lemma ascending_filter_key:
  "keys_ascending v \<Longrightarrow> keys_ascending (filter (\<lambda>e. fst e \<noteq> k0) v)"
proof -
  assume "keys_ascending v"
  moreover have "map fst (filter (\<lambda>e. fst e \<noteq> k0) v) = filter (\<lambda>k. k \<noteq> k0) (map fst v)"
    by (induction v) simp_all
  ultimately show ?thesis by (simp add: sorted_wrt_filter)
qed

lemma merged_ascending:
  assumes "\<forall>(i, v) \<in> set E. keys_ascending v"
  shows "keys_ascending (merged E)"
proof -
  have "\<forall>v \<in> set (map snd (sort_key fst E)). keys_ascending v"
  proof
    fix v assume "v \<in> set (map snd (sort_key fst E))"
    then obtain i where "(i, v) \<in> set E" by auto
    then show "keys_ascending v" using assms by blast
  qed
  then show ?thesis by (simp add: merged_def merge_all_ascending)
qed

lemma merged_strip_tl:
  assumes dE: "distinct (map fst E)" and dE': "distinct (map fst E')"
    and asc: "\<forall>(i, v) \<in> set E. keys_ascending v" and asc': "\<forall>(i, v) \<in> set E'. keys_ascending v"
    and rel: "strip_rel k0 E E'" and nk: "\<forall>(i, v') \<in> set E'. map_of v' k0 = None"
    and ne: "merged E \<noteq> []" and hd: "fst (hd (merged E)) = k0"
  shows "merged E' = tl (merged E)"
proof (rule ascending_map_of_eq)
  have ascM: "keys_ascending (merged E)"
    using merged_ascending [OF asc] .
  show "keys_ascending (merged E')"
    using merged_ascending [OF asc'] .
  show "keys_ascending (tl (merged E))" using ascM by (cases "merged E") simp_all
  obtain w rest where M: "merged E = (k0, w) # rest" using ne hd by (cases "merged E") auto
  have restk: "\<forall>e \<in> set rest. k0 < fst e" using ascM M by simp
  show "map_of (merged E') = map_of (tl (merged E))"
  proof
    fix k
    have "map_of (merged E') k = Some w' \<longleftrightarrow> map_of (tl (merged E)) k = Some w'" for w'
    proof -
      have "map_of (merged E') k = Some w' \<longleftrightarrow> k \<noteq> k0 \<and> map_of (merged E) k = Some w'"
        using map_of_merged [OF dE' asc'] map_of_merged [OF dE asc] strip_rel_lookup [OF dE rel nk] by simp
      moreover have "map_of rest k0 = None" using restk by (force simp: map_of_eq_None_iff)
      ultimately show ?thesis using M by auto
    qed
    then show "map_of (merged E') k = map_of (tl (merged E)) k"
      by (rule option_eq_by_Some)
  qed
qed


lemma strip_rel_refl: "strip_rel k0 E E"
  unfolding strip_rel_def by blast

lemma strip_rel_trans:
  assumes dE: "distinct (map fst E)" and r1: "strip_rel k0 E E1" and r2: "strip_rel k0 E1 E2"
  shows "strip_rel k0 E E2"
proof -
  let ?f = "\<lambda>v. filter (\<lambda>e. fst e \<noteq> k0) v"
  have f1: "\<And>i v1. (i, v1) \<in> set E1 \<Longrightarrow> \<exists>v. (i, v) \<in> set E \<and> ?f v1 = ?f v"
    and b1: "\<And>i v. (i, v) \<in> set E \<Longrightarrow> (\<exists>v1. (i, v1) \<in> set E1) \<or> ?f v = []"
    using r1 unfolding strip_rel_def by blast+
  have f2: "\<And>i v2. (i, v2) \<in> set E2 \<Longrightarrow> \<exists>v1. (i, v1) \<in> set E1 \<and> ?f v2 = ?f v1"
    and b2: "\<And>i v1. (i, v1) \<in> set E1 \<Longrightarrow> (\<exists>v2. (i, v2) \<in> set E2) \<or> ?f v1 = []"
    using r2 unfolding strip_rel_def by blast+
  have uniq: "\<And>i v u. (i, v) \<in> set E \<Longrightarrow> (i, u) \<in> set E \<Longrightarrow> u = v"
    using dE by (meson eq_key_imp_eq_value)
  have "\<forall>(i, v2) \<in> set E2. \<exists>v. (i, v) \<in> set E \<and> ?f v2 = ?f v"
  proof (clarify)
    fix i v2 assume "(i, v2) \<in> set E2"
    then obtain v1 where "(i, v1) \<in> set E1" "?f v2 = ?f v1" using f2 by blast
    then show "\<exists>v. (i, v) \<in> set E \<and> ?f v2 = ?f v" using f1 by fastforce
  qed
  moreover have "(\<exists>v2. (i, v2) \<in> set E2) \<or> ?f v = []" if iv: "(i, v) \<in> set E" for i v
  proof (cases "\<exists>v2. (i, v2) \<in> set E2")
    case no: False
    show ?thesis
    proof (cases "\<exists>v1. (i, v1) \<in> set E1")
      case True
      then obtain v1 where iv1: "(i, v1) \<in> set E1" by blast
      then obtain v0 where "(i, v0) \<in> set E" "?f v1 = ?f v0" using f1 by blast
      moreover have "?f v1 = []" using b2 [OF iv1] no by blast
      ultimately show ?thesis using uniq iv by metis
    qed (use b1 [OF iv] in blast)
  qed blast
  ultimately show ?thesis unfolding strip_rel_def by blast
qed

lemma merged_cong_set:
  assumes "distinct (map fst E)" and "distinct (map fst E')"
    and asc: "\<forall>(i, v) \<in> set E. keys_ascending v" and eq: "set E = set E'"
  shows "merged E = merged E'"
proof (rule ascending_map_of_eq)
  have asc': "\<forall>(i, v) \<in> set E'. keys_ascending v" using asc eq by simp
  show "keys_ascending (merged E)" using merged_ascending [OF asc] .
  show "keys_ascending (merged E')" using merged_ascending [OF asc'] .
  show "map_of (merged E) = map_of (merged E')"
  proof
    fix k
    show "map_of (merged E) k = map_of (merged E') k"
      by (rule option_eq_by_Some)
        (simp add: map_of_merged [OF assms(1) asc] map_of_merged [OF assms(2) asc'] prio_lookup_def eq)
  qed
qed

lemma ascending_hd_map_of:
  assumes asc: "keys_ascending L" and k: "map_of L k = Some w"
    and low: "\<And>k'. k' < k \<Longrightarrow> map_of L k' = None"
  shows "L \<noteq> [] \<and> hd L = (k, w)"
proof (cases L)
  case Nil
  then show ?thesis using k by simp
next
  case (Cons p rest)
  obtain k1 w1 where p: "p = (k1, w1)" by fastforce
  have "\<not> k1 < k" using low [of k1] Cons p by auto
  moreover have "\<not> k < k1"
  proof
    assume lt: "k < k1"
    have "\<forall>e \<in> set rest. k1 < fst e" using asc Cons p by simp
    then have "map_of rest k = None" using lt by (force simp: map_of_eq_None_iff)
    then show False using k Cons p lt by (auto split: if_splits)
  qed
  ultimately have "k1 = k" by simp
  then show ?thesis using k Cons p by simp
qed

text \<open>The head of the merge: a source \<open>i\<close> whose head pair is \<open>(k, w)\<close>, where every pair
  of every source has a greater key, or key \<open>k\<close> and an index not below \<open>i\<close>.\<close>

lemma merged_hd:
  assumes dE: "distinct (map fst E)" and asc: "\<forall>(i, v) \<in> set E. keys_ascending v"
    and iv: "(i, (k, w) # rest) \<in> set E"
    and low: "\<forall>(j, u) \<in> set E. \<forall>e \<in> set u. k < fst e \<or> (k = fst e \<and> i \<le> j)"
  shows "merged E \<noteq> [] \<and> hd (merged E) = (k, w)"
proof (rule ascending_hd_map_of [OF merged_ascending [OF asc]])
  have "\<forall>(j, u) \<in> set E. j < i \<longrightarrow> map_of u k = None"
  proof (clarify)
    fix j u assume ju: "(j, u) \<in> set E" and lt: "j < i"
    have "\<forall>e \<in> set u. k < fst e" using low ju lt by fastforce
    then show "map_of u k = None" by (force simp: map_of_eq_None_iff)
  qed
  then have "prio_lookup E k w"
    unfolding prio_lookup_def using iv by (intro bexI [of _ "(i, (k, w) # rest)"]) auto
  then show "map_of (merged E) k = Some w" using map_of_merged [OF dE asc] by simp
next
  fix k' :: bytes assume lt: "k' < k"
  have "\<forall>(j, u) \<in> set E. map_of u k' = None"
  proof (clarify)
    fix j u assume ju: "(j, u) \<in> set E"
    have "\<forall>e \<in> set u. k' \<noteq> fst e" using low ju lt by fastforce
    then show "map_of u k' = None" by (force simp: map_of_eq_None_iff)
  qed
  then have "\<not> prio_lookup E k' w'" for w' by (fastforce simp: prio_lookup_def)
  then show "map_of (merged E) k' = None" using map_of_merged [OF dE asc] by (meson not_Some_eq)
qed

lemma strip_rel_drop:
  "distinct (map fst E) \<Longrightarrow> (i, v) \<in> set E \<Longrightarrow> filter (\<lambda>e. fst e \<noteq> k0) v = [] \<Longrightarrow>
     strip_rel k0 E (filter (\<lambda>e. fst e \<noteq> i) E)"
  unfolding strip_rel_def by (auto dest: eq_key_imp_eq_value)

lemma strip_rel_update:
  assumes dE: "distinct (map fst E)" and iv: "(i, v) \<in> set E"
    and f: "filter (\<lambda>e. fst e \<noteq> k0) v' = filter (\<lambda>e. fst e \<noteq> k0) v"
  shows "strip_rel k0 E (map (\<lambda>e. if fst e = i then (i, v') else e) E)"
proof -
  let ?u = "\<lambda>e. if fst e = i then (i, v') else e"
  let ?f = "\<lambda>v. filter (\<lambda>e. fst e \<noteq> k0) v"
  have fwd: "\<exists>u. (j, u) \<in> set E \<and> ?f u' = ?f u" if mem: "(j, u') \<in> set (map ?u E)" for j u'
  proof -
    obtain e where e: "e \<in> set E" and p: "(j, u') = ?u e" using mem unfolding set_map by (rule imageE) blast
    show ?thesis
    proof (cases "fst e = i")
      case True
      then have "e = (i, v)" using dE e iv by (metis eq_key_imp_eq_value prod.collapse)
      then have "j = i" "u' = v'" using p True by simp_all
      then show ?thesis using iv f by blast
    next
      case False
      then have "(j, u') \<in> set E" using p e by simp
      then show ?thesis by blast
    qed
  qed
  have bwd: "\<exists>u'. (j, u') \<in> set (map ?u E)" if "(j, u) \<in> set E" for j u
  proof (cases "j = i")
    case True
    then have "(i, v') \<in> set (map ?u E)" using that by force
    then show ?thesis using True by blast
  next
    case False
    then have "(j, u) \<in> set (map ?u E)" using that by force
    then show ?thesis by blast
  qed
  show ?thesis unfolding strip_rel_def using fwd bwd by blast
qed

lemma strip_rel_Cons:
  "strip_rel k0 E E' \<Longrightarrow> filter (\<lambda>e. fst e \<noteq> k0) v' = filter (\<lambda>e. fst e \<noteq> k0) v \<Longrightarrow>
     strip_rel k0 ((i, v) # E) ((i, v') # E')"
  unfolding strip_rel_def by auto

lemma ascending_filter_head:
  "keys_ascending ((k0, w) # rest) \<Longrightarrow>
     filter (\<lambda>e. fst e \<noteq> k0) rest = rest \<and> filter (\<lambda>e. fst e \<noteq> k0) ((k0, w) # rest) = rest"
  by (auto intro: filter_True)

lemma sum_list_map_less:
  "(\<And>e. e \<in> set xs \<Longrightarrow> f e \<le> g e) \<Longrightarrow> e0 \<in> set xs \<Longrightarrow> f e0 < g e0 \<Longrightarrow>
     sum_list (map f xs) < (sum_list (map g xs) :: nat)"
proof (induction xs)
  case (Cons x xs)
  show ?case
  proof (cases "e0 = x")
    case True
    have "sum_list (map f xs) \<le> sum_list (map g xs)"
      using Cons.prems(1) by (intro sum_list_mono) simp
    then show ?thesis using True Cons.prems(3) by simp
  next
    case False
    then have "sum_list (map f xs) < sum_list (map g xs)" using Cons by simp
    then show ?thesis using Cons.prems(1) [of x] by simp
  qed
qed simp


lemma merged_Cons_Nil:
  assumes "distinct (map fst ((i, []) # E))" and asc: "\<forall>(j, v) \<in> set E. keys_ascending v"
  shows "merged ((i, []) # E) = merged E"
proof (rule ascending_map_of_eq)
  have asc': "\<forall>(j, v) \<in> set ((i, []) # E). keys_ascending v" using asc by simp
  show "keys_ascending (merged ((i, []) # E))" using merged_ascending [OF asc'] .
  show "keys_ascending (merged E)" using merged_ascending [OF asc] .
  show "map_of (merged ((i, []) # E)) = map_of (merged E)"
  proof
    fix k
    show "map_of (merged ((i, []) # E)) k = map_of (merged E) k"
      by (rule option_eq_by_Some)
        (use assms in \<open>simp add: map_of_merged [OF assms(1) asc'] map_of_merged [OF _ asc] prio_lookup_def\<close>)
  qed
qed

lemma merge_all_Nils: "\<forall>v \<in> set vs. v = [] \<Longrightarrow> merge_all vs = []"
  by (induction vs) simp_all

lemma merged_enumerate: "merged (enumerate n vs) = merge_all vs"
  by (simp add: merged_def sort_key_id_if_sorted)

lemma merged_filter_Nil:
  assumes dE: "distinct (map fst E)" and asc: "\<forall>(i, v) \<in> set E. keys_ascending v"
  shows "merged (filter (\<lambda>e. snd e \<noteq> []) E) = merged E"
proof (rule ascending_map_of_eq)
  let ?F = "filter (\<lambda>e. snd e \<noteq> []) E"
  have dF: "distinct (map fst ?F)" using dE by (simp add: distinct_map_filter)
  have ascF: "\<forall>(i, v) \<in> set ?F. keys_ascending v" using asc by auto
  show "keys_ascending (merged ?F)" using merged_ascending [OF ascF] .
  show "keys_ascending (merged E)" using merged_ascending [OF asc] .
  have "prio_lookup ?F k w \<longleftrightarrow> prio_lookup E k w" for k w
  proof
    assume "prio_lookup ?F k w"
    then obtain i v where iv: "(i, v) \<in> set ?F" "map_of v k = Some w"
      and lo: "\<forall>(j, u) \<in> set ?F. j < i \<longrightarrow> map_of u k = None"
      unfolding prio_lookup_def by blast
    have "\<forall>(j, u) \<in> set E. j < i \<longrightarrow> map_of u k = None"
    proof (clarify)
      fix j u assume ju: "(j, u) \<in> set E" "j < i"
      show "map_of u k = None"
      proof (cases "u = []")
        case False
        then have "(j, u) \<in> set ?F" using ju(1) by simp
        then show ?thesis using lo ju(2) by blast
      qed simp
    qed
    then show "prio_lookup E k w" unfolding prio_lookup_def using iv by auto
  next
    assume "prio_lookup E k w"
    then obtain i v where iv: "(i, v) \<in> set E" "map_of v k = Some w"
      and lo: "\<forall>(j, u) \<in> set E. j < i \<longrightarrow> map_of u k = None"
      unfolding prio_lookup_def by blast
    have "(i, v) \<in> set ?F" using iv by auto
    moreover have "\<forall>(j, u) \<in> set ?F. j < i \<longrightarrow> map_of u k = None" using lo by auto
    ultimately show "prio_lookup ?F k w" unfolding prio_lookup_def using iv(2) by blast
  qed
  then show "map_of (merged ?F) = map_of (merged E)"
    by (intro ext option_eq_by_Some) (simp add: map_of_merged [OF dF ascF] map_of_merged [OF dE asc])
qed


lemma map_of_merge_all_nth:
  assumes "\<forall>v \<in> set vs. keys_ascending v"
  shows "map_of (merge_all vs) k = Some w \<longleftrightarrow>
           (\<exists>i < length vs. map_of (vs ! i) k = Some w \<and> (\<forall>j < i. map_of (vs ! j) k = None))"
proof -
  have asc: "\<forall>(i, v) \<in> set (enumerate 0 vs). keys_ascending v"
    using assms by (auto simp: in_set_enumerate_eq)
  have "map_of (merge_all vs) k = Some w \<longleftrightarrow> prio_lookup (enumerate 0 vs) k w"
    using map_of_merged [OF _ asc, of k w] by (simp add: merged_enumerate)
  also have "\<dots> \<longleftrightarrow> (\<exists>i < length vs. map_of (vs ! i) k = Some w \<and> (\<forall>j < i. map_of (vs ! j) k = None))"
  proof -
    have mem: "(i, v) \<in> set (enumerate 0 vs) \<longleftrightarrow> i < length vs \<and> v = vs ! i" for i v
      by (auto simp: in_set_enumerate_eq)
    show ?thesis
    proof
      assume "prio_lookup (enumerate 0 vs) k w"
      then obtain i v where iv: "(i, v) \<in> set (enumerate 0 vs)" "map_of v k = Some w"
        and lo: "\<forall>(j, u) \<in> set (enumerate 0 vs). j < i \<longrightarrow> map_of u k = None"
        unfolding prio_lookup_def by blast
      have il: "i < length vs" and v: "v = vs ! i" using iv(1) mem by simp_all
      have "map_of (vs ! j) k = None" if j: "j < i" for j
      proof -
        have "(j, vs ! j) \<in> set (enumerate 0 vs)" using j il mem by simp
        then show ?thesis using lo j by fastforce
      qed
      then show "\<exists>i < length vs. map_of (vs ! i) k = Some w \<and> (\<forall>j < i. map_of (vs ! j) k = None)"
        using il v iv(2) by blast
    next
      assume "\<exists>i < length vs. map_of (vs ! i) k = Some w \<and> (\<forall>j < i. map_of (vs ! j) k = None)"
      then obtain i where i: "i < length vs" "map_of (vs ! i) k = Some w" "\<forall>j < i. map_of (vs ! j) k = None"
        by blast
      have "(i, vs ! i) \<in> set (enumerate 0 vs)" using i(1) mem by blast
      moreover have "\<forall>(j, u) \<in> set (enumerate 0 vs). j < i \<longrightarrow> map_of u k = None"
        using i(3) mem by auto
      ultimately show "prio_lookup (enumerate 0 vs) k w" unfolding prio_lookup_def using i(2) by blast
    qed
  qed
  finally show ?thesis .
qed


lemma merge2_Nil_iff: "merge2 xs ys = [] \<longleftrightarrow> xs = [] \<and> ys = []"
  using merge2_keys [of xs ys] by (metis Un_empty list.map_disc_iff set_empty merge2.simps(1))

lemma merge_all_Nil_iff: "merge_all vs = [] \<longleftrightarrow> (\<forall>v \<in> set vs. v = [])"
  by (induction vs) (simp_all add: merge2_Nil_iff)


lemma merge2_assoc:
  assumes "keys_ascending a" and "keys_ascending b" and "keys_ascending c"
  shows "merge2 a (merge2 b c) = merge2 (merge2 a b) c"
proof (rule ascending_map_of_eq)
  show "keys_ascending (merge2 a (merge2 b c))" using assms by (simp add: merge2_ascending)
  show "keys_ascending (merge2 (merge2 a b) c)" using assms by (simp add: merge2_ascending)
  show "map_of (merge2 a (merge2 b c)) = map_of (merge2 (merge2 a b) c)"
    using assms by (simp add: map_of_merge2 merge2_ascending map_add_assoc)
qed

lemma merge_all_append:
  "\<forall>v \<in> set (xs @ ys). keys_ascending v \<Longrightarrow> merge_all (xs @ ys) = merge2 (merge_all xs) (merge_all ys)"
proof (induction xs)
  case (Cons x xs)
  then have "merge_all (x # xs @ ys) = merge2 x (merge2 (merge_all xs) (merge_all ys))" by simp
  also have "\<dots> = merge2 (merge2 x (merge_all xs)) (merge_all ys)"
    using Cons.prems by (intro merge2_assoc) (simp_all add: merge_all_ascending)
  finally show ?case by simp
qed simp

end
