(* ===== verification/Two_Merge_Iterator.thy ===== *)
theory Two_Merge_Iterator
  imports Storage_Iterator Merge_Spec
begin

text \<open>
  \<open>TwoMergeIterator\<close> of \<open>src/mini-lsm-starter/src/iterators/two_merge_iterator.rs\<close>,
  generic in the two source iterators, each given by its \<open>iter_ops\<close>. \<open>skip_b\<close>'s
  \<open>while\<close> loop is a \<open>partial_function (option)\<close>: it advances B while B's key equals
  A's, and does not return (\<open>None\<close>) on a source that never moves past that key; an
  error of B's \<open>next\<close> leaves the loop with B's state and the error. The lemmas show
  that over lawful sources whose \<open>next\<close> returns without error and whose views are
  strictly ascending the loop returns, and that the iterator is lawful towards
  \<open>merge2\<close> of the two views: the two-way merge in which A wins ties. On the error
  paths, \<open>next\<close> returns the first error it meets before any later step runs (C36).
\<close>

record ('a, 'b) two_merge =
  tm_a :: 'a
  tm_b :: 'b
  tm_use_a :: bool

definition tm_select_ab :: "'a iter_ops \<Rightarrow> 'b iter_ops \<Rightarrow> ('a, 'b) two_merge \<Rightarrow> ('a, 'b) two_merge" where
  "tm_select_ab oa ob m =
     (if \<not> it_is_valid oa (tm_a m) then m\<lparr>tm_use_a := False\<rparr>
      else if \<not> it_is_valid ob (tm_b m) then m\<lparr>tm_use_a := True\<rparr>
      else m\<lparr>tm_use_a := it_key oa (tm_a m) < it_key ob (tm_b m)\<rparr>)"

partial_function (option) tm_skip_b_loop :: "'b iter_ops \<Rightarrow> bytes \<Rightarrow> 'b \<Rightarrow> ('b \<times> err option) option" where
  "tm_skip_b_loop ob k b =
     (if it_is_valid ob b \<and> it_key ob b = k then
        (case it_next ob b of
           None \<Rightarrow> None
         | Some (b', Some e) \<Rightarrow> Some (b', Some e)
         | Some (b', None) \<Rightarrow> tm_skip_b_loop ob k b')
      else Some (b, None))"

definition tm_skip_b ::
  "'a iter_ops \<Rightarrow> 'b iter_ops \<Rightarrow> ('a, 'b) two_merge \<Rightarrow> (('a, 'b) two_merge \<times> err option) option" where
  "tm_skip_b oa ob m =
     (if it_is_valid oa (tm_a m) then
        (case tm_skip_b_loop ob (it_key oa (tm_a m)) (tm_b m) of
           None \<Rightarrow> None
         | Some (b', e) \<Rightarrow> Some (m\<lparr>tm_b := b'\<rparr>, e))
      else Some (m, None))"

definition tm_create :: "'a iter_ops \<Rightarrow> 'b iter_ops \<Rightarrow> 'a \<Rightarrow> 'b \<Rightarrow> (err + ('a, 'b) two_merge) option" where
  "tm_create oa ob a b =
     (case tm_skip_b oa ob \<lparr>tm_a = a, tm_b = b, tm_use_a = False\<rparr> of
        None \<Rightarrow> None
      | Some (_, Some e) \<Rightarrow> Some (Inl e)
      | Some (m, None) \<Rightarrow> Some (Inr (tm_select_ab oa ob m)))"

definition tm_after_step ::
  "'a iter_ops \<Rightarrow> 'b iter_ops \<Rightarrow> ('a, 'b) two_merge \<Rightarrow> (('a, 'b) two_merge \<times> err option) option" where
  "tm_after_step oa ob m =
     (case tm_skip_b oa ob m of
        None \<Rightarrow> None
      | Some (m', Some e) \<Rightarrow> Some (m', Some e)
      | Some (m', None) \<Rightarrow> Some (tm_select_ab oa ob m', None))"

definition tm_next ::
  "'a iter_ops \<Rightarrow> 'b iter_ops \<Rightarrow> ('a, 'b) two_merge \<Rightarrow> (('a, 'b) two_merge \<times> err option) option" where
  "tm_next oa ob m =
     (if tm_use_a m then
        (case it_next oa (tm_a m) of
           None \<Rightarrow> None
         | Some (a', Some e) \<Rightarrow> Some (m\<lparr>tm_a := a'\<rparr>, Some e)
         | Some (a', None) \<Rightarrow> tm_after_step oa ob (m\<lparr>tm_a := a'\<rparr>))
      else
        (case it_next ob (tm_b m) of
           None \<Rightarrow> None
         | Some (b', Some e) \<Rightarrow> Some (m\<lparr>tm_b := b'\<rparr>, Some e)
         | Some (b', None) \<Rightarrow> tm_after_step oa ob (m\<lparr>tm_b := b'\<rparr>)))"

definition tm_ops :: "'a iter_ops \<Rightarrow> 'b iter_ops \<Rightarrow> ('a, 'b) two_merge iter_ops" where
  "tm_ops oa ob =
     \<lparr>it_key = (\<lambda>m. if tm_use_a m then it_key oa (tm_a m) else it_key ob (tm_b m)),
      it_value = (\<lambda>m. if tm_use_a m then it_value oa (tm_a m) else it_value ob (tm_b m)),
      it_is_valid = (\<lambda>m. if tm_use_a m then it_is_valid oa (tm_a m) else it_is_valid ob (tm_b m)),
      it_next = tm_next oa ob\<rparr>"

subsection \<open>Abstraction\<close>

text \<open>The state invariant: both sources keep their own invariants, after \<open>skip_b\<close> no
  two valid sources share a key, and \<open>use_a\<close> is what \<open>select_ab\<close> chose.\<close>

definition tm_inv ::
  "'a iter_ops \<Rightarrow> 'b iter_ops \<Rightarrow> ('a \<Rightarrow> bool) \<Rightarrow> ('b \<Rightarrow> bool) \<Rightarrow> ('a, 'b) two_merge \<Rightarrow> bool" where
  "tm_inv oa ob Ia Ib m \<longleftrightarrow>
     Ia (tm_a m) \<and> Ib (tm_b m) \<and>
     (it_is_valid oa (tm_a m) \<and> it_is_valid ob (tm_b m) \<longrightarrow> it_key oa (tm_a m) \<noteq> it_key ob (tm_b m)) \<and>
     tm_use_a m = (it_is_valid oa (tm_a m) \<and>
                   (\<not> it_is_valid ob (tm_b m) \<or> it_key oa (tm_a m) < it_key ob (tm_b m)))"

definition tm_view :: "('a \<Rightarrow> kv list) \<Rightarrow> ('b \<Rightarrow> kv list) \<Rightarrow> ('a, 'b) two_merge \<Rightarrow> kv list" where
  "tm_view va vb m = merge2 (va (tm_a m)) (vb (tm_b m))"

text \<open>A source whose \<open>next\<close> fails with an I/O error and stays put, as a table
  iterator's does when a block read fails; it serves the witnesses of the error paths.\<close>

definition failing_iter_ops :: "kv list iter_ops" where
  "failing_iter_ops =
     \<lparr>it_key = (\<lambda>xs. fst (hd xs)), it_value = (\<lambda>xs. snd (hd xs)), it_is_valid = (\<lambda>xs. xs \<noteq> []),
      it_next = (\<lambda>xs. Some (xs, Some Io_error))\<rparr>"

subsection \<open>The skip loop returns\<close>

lemma tm_skip_b_loop_spec:
  assumes snd: "sound ob Ib vb" and "Ib b"
  shows "\<exists>b'. tm_skip_b_loop ob k b = Some (b', None) \<and> Ib b' \<and>
           vb b' = dropWhile (\<lambda>e. fst e = k) (vb b)"
  using assms(2)
proof (induction "length (vb b)" arbitrary: b rule: less_induct)
  case less
  show ?case
  proof (cases "it_is_valid ob b \<and> it_key ob b = k")
    case True
    obtain b' where nx: "it_next ob b = Some (b', None)" and I': "Ib b'" and v': "vb b' = tl (vb b)"
      using sound_next [OF snd less.prems] True by blast
    have hd: "vb b = (it_key ob b, it_value ob b) # tl (vb b)"
      using sound_head [OF snd less.prems] True by blast
    have "length (vb b') < length (vb b)" using v' arg_cong [OF hd, of length] by simp
    then obtain b'' where r: "tm_skip_b_loop ob k b' = Some (b'', None)" "Ib b''"
      "vb b'' = dropWhile (\<lambda>e. fst e = k) (vb b')"
      using less.hyps I' by blast
    have "tm_skip_b_loop ob k b = tm_skip_b_loop ob k b'"
      using True nx by (simp add: tm_skip_b_loop.simps [of ob k b])
    moreover have "dropWhile (\<lambda>e. fst e = k) (vb b) = dropWhile (\<lambda>e. fst e = k) (vb b')"
      using True v' by (subst hd) simp
    ultimately show ?thesis using r by simp
  next
    case False
    then have "tm_skip_b_loop ob k b = Some (b, None)"
      by (subst tm_skip_b_loop.simps) (simp only: if_not_P [OF False] if_False)
    moreover have "dropWhile (\<lambda>e. fst e = k) (vb b) = vb b"
    proof (cases "it_is_valid ob b")
      case True
      have h: "vb b = (it_key ob b, it_value ob b) # tl (vb b)"
        using sound_head [OF snd less.prems True] .
      have "dropWhile (\<lambda>e. fst e = k) ((it_key ob b, it_value ob b) # tl (vb b)) =
          (it_key ob b, it_value ob b) # tl (vb b)"
        using False True by simp
      then show ?thesis unfolding h [symmetric] .
    qed (simp add: sound_invalid [OF snd less.prems])
    ultimately show ?thesis using less.prems by simp
  qed
qed

subsection \<open>skip_b then select_ab restores the invariant\<close>

lemma tm_select_ab_simps [simp]:
  "tm_a (tm_select_ab oa ob m) = tm_a m" "tm_b (tm_select_ab oa ob m) = tm_b m"
  "tm_use_a (tm_select_ab oa ob m) =
     (it_is_valid oa (tm_a m) \<and> (\<not> it_is_valid ob (tm_b m) \<or> it_key oa (tm_a m) < it_key ob (tm_b m)))"
  by (simp_all add: tm_select_ab_def)

lemma tm_settle:
  assumes sa: "sound oa Ia va" and sb: "sound ob Ib vb" and Ia: "Ia (tm_a m)" and Ib: "Ib (tm_b m)"
  shows "\<exists>m'. tm_skip_b oa ob m = Some (m', None) \<and> tm_inv oa ob Ia Ib (tm_select_ab oa ob m') \<and>
           tm_view va vb (tm_select_ab oa ob m') = merge2 (va (tm_a m)) (vb (tm_b m))"
proof (cases "it_is_valid oa (tm_a m)")
  case False
  then have "va (tm_a m) = []" using sound_invalid [OF sa Ia] by simp
  then show ?thesis using False Ia Ib by (simp add: tm_skip_b_def tm_inv_def tm_view_def)
next
  case True
  let ?k = "it_key oa (tm_a m)"
  obtain b' where loop: "tm_skip_b_loop ob ?k (tm_b m) = Some (b', None)" and Ib': "Ib b'"
    and vb': "vb b' = dropWhile (\<lambda>e. fst e = ?k) (vb (tm_b m))"
    using tm_skip_b_loop_spec [OF sb Ib] by blast
  have skip: "tm_skip_b oa ob m = Some (m\<lparr>tm_b := b'\<rparr>, None)"
    using True loop by (simp add: tm_skip_b_def)
  have ne: "it_is_valid ob b' \<Longrightarrow> it_key ob b' \<noteq> ?k"
  proof -
    assume v: "it_is_valid ob b'"
    then have h: "vb b' = (it_key ob b', it_value ob b') # tl (vb b')" using sound_head [OF sb Ib'] by blast
    then have "dropWhile (\<lambda>e. fst e = ?k) (vb (tm_b m)) \<noteq> []" using vb' by (metis list.distinct(1))
    from hd_dropWhile [OF this] show ?thesis using vb' h by (metis list.sel(1) fst_conv)
  qed
  have "tm_inv oa ob Ia Ib (tm_select_ab oa ob (m\<lparr>tm_b := b'\<rparr>))"
    using Ia Ib' ne True by (auto simp: tm_inv_def)
  moreover have "merge2 (va (tm_a m)) (vb b') = merge2 (va (tm_a m)) (vb (tm_b m))"
    using merge2_dropWhile_head [OF sound_ascending [OF sb Ib], of "(?k, it_value oa (tm_a m))"]
      sound_head [OF sa Ia True] vb' by (metis fst_conv)
  ultimately show ?thesis using skip by (simp add: tm_view_def)
qed

subsection \<open>The two-way merge is a sound iterator\<close>

lemma tm_valid_head:
  assumes sa: "sound oa Ia va" and sb: "sound ob Ib vb" and inv: "tm_inv oa ob Ia Ib m"
  shows "it_is_valid (tm_ops oa ob) m \<longleftrightarrow> tm_view va vb m \<noteq> []"
    and "tm_view va vb m \<noteq> [] \<Longrightarrow>
           (it_key (tm_ops oa ob) m, it_value (tm_ops oa ob) m) = hd (tm_view va vb m)"
proof -
  have Ia: "Ia (tm_a m)" and Ib: "Ib (tm_b m)" using inv by (simp_all add: tm_inv_def)
  have A: "it_is_valid oa (tm_a m) \<Longrightarrow>
      \<exists>xs. va (tm_a m) = (it_key oa (tm_a m), it_value oa (tm_a m)) # xs"
    using sound_head [OF sa Ia] by blast
  have B: "it_is_valid ob (tm_b m) \<Longrightarrow>
      \<exists>ys. vb (tm_b m) = (it_key ob (tm_b m), it_value ob (tm_b m)) # ys"
    using sound_head [OF sb Ib] by blast
  have "(it_is_valid (tm_ops oa ob) m \<longleftrightarrow> tm_view va vb m \<noteq> []) \<and>
      (tm_view va vb m \<noteq> [] \<longrightarrow>
         (it_key (tm_ops oa ob) m, it_value (tm_ops oa ob) m) = hd (tm_view va vb m))"
  proof (cases "it_is_valid oa (tm_a m)"; cases "it_is_valid ob (tm_b m)")
    assume a: "it_is_valid oa (tm_a m)" and b: "it_is_valid ob (tm_b m)"
    obtain xs ys where xs: "va (tm_a m) = (it_key oa (tm_a m), it_value oa (tm_a m)) # xs"
      and ys: "vb (tm_b m) = (it_key ob (tm_b m), it_value ob (tm_b m)) # ys"
      using A [OF a] B [OF b] by blast
    have ne: "it_key oa (tm_a m) \<noteq> it_key ob (tm_b m)" using inv a b by (simp add: tm_inv_def)
    show ?thesis using inv a b ne by (simp add: tm_inv_def tm_ops_def tm_view_def xs ys)
  next
    assume a: "it_is_valid oa (tm_a m)" and b: "\<not> it_is_valid ob (tm_b m)"
    obtain xs where xs: "va (tm_a m) = (it_key oa (tm_a m), it_value oa (tm_a m)) # xs"
      using A [OF a] by blast
    show ?thesis using inv a b sound_invalid [OF sb Ib b]
      by (simp add: tm_inv_def tm_ops_def tm_view_def xs)
  next
    assume a: "\<not> it_is_valid oa (tm_a m)" and b: "it_is_valid ob (tm_b m)"
    obtain ys where ys: "vb (tm_b m) = (it_key ob (tm_b m), it_value ob (tm_b m)) # ys"
      using B [OF b] by blast
    show ?thesis using inv a b sound_invalid [OF sa Ia a]
      by (simp add: tm_inv_def tm_ops_def tm_view_def ys)
  next
    assume a: "\<not> it_is_valid oa (tm_a m)" and b: "\<not> it_is_valid ob (tm_b m)"
    then show ?thesis using inv sound_invalid [OF sa Ia a] sound_invalid [OF sb Ib b]
      by (simp add: tm_inv_def tm_ops_def tm_view_def)
  qed
  then show "it_is_valid (tm_ops oa ob) m \<longleftrightarrow> tm_view va vb m \<noteq> []"
    and "tm_view va vb m \<noteq> [] \<Longrightarrow>
           (it_key (tm_ops oa ob) m, it_value (tm_ops oa ob) m) = hd (tm_view va vb m)"
    by simp_all
qed

lemma tm_next_step:
  assumes sa: "sound oa Ia va" and sb: "sound ob Ib vb" and inv: "tm_inv oa ob Ia Ib m"
    and v: "it_is_valid (tm_ops oa ob) m"
  shows "\<exists>m'. tm_next oa ob m = Some (m', None) \<and> tm_inv oa ob Ia Ib m' \<and>
           tm_view va vb m' = tl (tm_view va vb m)"
proof -
  have Ia: "Ia (tm_a m)" and Ib: "Ib (tm_b m)" using inv by (simp_all add: tm_inv_def)
  show ?thesis
  proof (cases "tm_use_a m")
    case ua: True
    then have a: "it_is_valid oa (tm_a m)" using inv by (simp add: tm_inv_def)
    obtain a' where nx: "it_next oa (tm_a m) = Some (a', None)" and Ia': "Ia a'"
      and va': "va a' = tl (va (tm_a m))"
      using sound_next [OF sa Ia a] by blast
    obtain m2 where sk: "tm_skip_b oa ob (m\<lparr>tm_a := a'\<rparr>) = Some (m2, None)"
      and inv2: "tm_inv oa ob Ia Ib (tm_select_ab oa ob m2)"
      and view2: "tm_view va vb (tm_select_ab oa ob m2) = merge2 (va a') (vb (tm_b m))"
      using tm_settle [OF sa sb, of "m\<lparr>tm_a := a'\<rparr>"] Ia' Ib by auto
    obtain xs where xs: "va (tm_a m) = (it_key oa (tm_a m), it_value oa (tm_a m)) # xs"
      using sound_head [OF sa Ia a] by blast
    have side: "vb (tm_b m) = [] \<or> it_key oa (tm_a m) < fst (hd (vb (tm_b m)))"
    proof (cases "it_is_valid ob (tm_b m)")
      case True
      then have "it_key oa (tm_a m) < it_key ob (tm_b m)" using inv a ua by (simp add: tm_inv_def)
      then show ?thesis using sound_head [OF sb Ib True] by (metis fst_conv list.sel(1))
    qed (simp add: sound_invalid [OF sb Ib])
    have "tl (tm_view va vb m) = merge2 (va a') (vb (tm_b m))"
      using merge2_tl_left [of "vb (tm_b m)" "(it_key oa (tm_a m), it_value oa (tm_a m))" xs] side xs va'
      by (simp add: tm_view_def)
    then show ?thesis
      using ua nx sk inv2 view2 by (simp add: tm_next_def tm_after_step_def)
  next
    case False
    then have b: "it_is_valid ob (tm_b m)" using v by (simp add: tm_ops_def)
    obtain b' where nx: "it_next ob (tm_b m) = Some (b', None)" and Ib': "Ib b'"
      and vb': "vb b' = tl (vb (tm_b m))"
      using sound_next [OF sb Ib b] by blast
    obtain m2 where sk: "tm_skip_b oa ob (m\<lparr>tm_b := b'\<rparr>) = Some (m2, None)"
      and inv2: "tm_inv oa ob Ia Ib (tm_select_ab oa ob m2)"
      and view2: "tm_view va vb (tm_select_ab oa ob m2) = merge2 (va (tm_a m)) (vb b')"
      using tm_settle [OF sa sb, of "m\<lparr>tm_b := b'\<rparr>"] Ia Ib' by auto
    obtain ys where ys: "vb (tm_b m) = (it_key ob (tm_b m), it_value ob (tm_b m)) # ys"
      using sound_head [OF sb Ib b] by blast
    have side: "va (tm_a m) = [] \<or> it_key ob (tm_b m) < fst (hd (va (tm_a m)))"
    proof (cases "it_is_valid oa (tm_a m)")
      case True
      then have "it_key ob (tm_b m) < it_key oa (tm_a m)"
        using inv b False by (auto simp: tm_inv_def)
      then show ?thesis using sound_head [OF sa Ia True] by (metis fst_conv list.sel(1))
    qed (simp add: sound_invalid [OF sa Ia])
    have "tl (tm_view va vb m) = merge2 (va (tm_a m)) (vb b')"
      using merge2_tl_right [of "va (tm_a m)" "(it_key ob (tm_b m), it_value ob (tm_b m))" ys] side ys vb'
      by (simp add: tm_view_def)
    then show ?thesis
      using False nx sk inv2 view2 by (simp add: tm_next_def tm_after_step_def)
  qed
qed

lemma tm_sound:
  assumes sa: "sound oa Ia va" and sb: "sound ob Ib vb"
  shows "sound (tm_ops oa ob) (tm_inv oa ob Ia Ib) (tm_view va vb)"
proof -
  have "lawful (tm_ops oa ob) (tm_inv oa ob Ia Ib) (tm_view va vb)"
    unfolding lawful_def
  proof (intro allI impI conjI)
    fix m assume inv: "tm_inv oa ob Ia Ib m"
    show "it_is_valid (tm_ops oa ob) m \<longleftrightarrow> tm_view va vb m \<noteq> []"
      using tm_valid_head(1) [OF sa sb inv] .
    show "tm_view va vb m \<noteq> [] \<Longrightarrow>
        (it_key (tm_ops oa ob) m, it_value (tm_ops oa ob) m) = hd (tm_view va vb m)"
      using tm_valid_head(2) [OF sa sb inv] .
    fix m' assume ne: "tm_view va vb m \<noteq> []" and nx: "it_next (tm_ops oa ob) m = Some (m', None)"
    have v: "it_is_valid (tm_ops oa ob) m" using tm_valid_head(1) [OF sa sb inv] ne by simp
    show "tm_inv oa ob Ia Ib m'" "tm_view va vb m' = tl (tm_view va vb m)"
      using tm_next_step [OF sa sb inv v] nx by (auto simp: tm_ops_def)
  qed
  moreover have "\<forall>m. tm_inv oa ob Ia Ib m \<longrightarrow> it_is_valid (tm_ops oa ob) m \<longrightarrow>
      (\<exists>m'. it_next (tm_ops oa ob) m = Some (m', None))"
    using tm_next_step [OF sa sb] by (fastforce simp: tm_ops_def)
  moreover have "\<forall>m. tm_inv oa ob Ia Ib m \<longrightarrow> keys_ascending (tm_view va vb m)"
    using merge2_ascending sound_ascending [OF sa] sound_ascending [OF sb]
    by (simp add: tm_inv_def tm_view_def)
  ultimately show ?thesis by (simp add: sound_def)
qed

lemma tm_create_spec:
  assumes sa: "sound oa Ia va" and sb: "sound ob Ib vb" and "Ia a" and "Ib b"
  shows "\<exists>m. tm_create oa ob a b = Some (Inr m) \<and> tm_inv oa ob Ia Ib m \<and>
           tm_view va vb m = merge2 (va a) (vb b)"
  using tm_settle [OF sa sb, of "\<lparr>tm_a = a, tm_b = b, tm_use_a = False\<rparr>"] assms(3,4)
  by (auto simp: tm_create_def)

subsection \<open>Properties of the two-way merge\<close>

text \<open>C18: over two sources that keep the iterator contract, never fail and present
  strictly ascending pairs, \<open>TwoMergeIterator::create\<close> returns, and a scan of the
  merge yields \<open>merge2\<close> of the two sources: strictly ascending, every key of either
  source exactly once, with A's value wherever both sources hold the key (spec section
  4.7).\<close>

theorem two_merge_scan:
  assumes "sound oa Ia va" and "sound ob Ib vb" and "Ia a" and "Ib b"
  shows "\<exists>m. tm_create oa ob a b = Some (Inr m) \<and>
           drain (tm_ops oa ob) (length (va a) + length (vb b)) m = Some (Inr (merge2 (va a) (vb b))) \<and>
           keys_ascending (merge2 (va a) (vb b)) \<and>
           map_of (merge2 (va a) (vb b)) = map_of (vb b) ++ map_of (va a)"
proof -
  obtain m where cr: "tm_create oa ob a b = Some (Inr m)" and inv: "tm_inv oa ob Ia Ib m"
    and vw: "tm_view va vb m = merge2 (va a) (vb b)"
    using tm_create_spec [OF assms] by blast
  have "drain (tm_ops oa ob) (length (tm_view va vb m)) m = Some (Inr (tm_view va vb m))"
    using drain_sound [OF tm_sound [OF assms(1,2)] inv] .
  then have "drain (tm_ops oa ob) (length (tm_view va vb m) +
      (length (va a) + length (vb b) - length (tm_view va vb m))) m = Some (Inr (tm_view va vb m))"
    by (rule drain_more_fuel)
  moreover have "length (tm_view va vb m) \<le> length (va a) + length (vb b)"
    using vw length_merge2_le by simp
  moreover have "keys_ascending (va a)" "keys_ascending (vb b)"
    using sound_ascending [OF assms(1,3)] sound_ascending [OF assms(2,4)] .
  ultimately show ?thesis
    using cr vw merge2_ascending map_of_merge2 by auto
qed

theorem two_merge_scan_witness:
  "\<exists>m. tm_create list_iter_ops list_iter_ops [([1], [10]), ([2], [20])] [([2], [99]), ([3], [30])] =
       Some (Inr m) \<and>
     drain (tm_ops list_iter_ops list_iter_ops) 4 m = Some (Inr [([1], [10]), ([2], [20]), ([3], [30])])"
proof -
  let ?A = "[([1], [10]), ([2], [20])] :: kv list" and ?B = "[([2], [99]), ([3], [30])] :: kv list"
  have a: "keys_ascending ?A" and b: "keys_ascending ?B" by simp_all
  obtain m where "tm_create list_iter_ops list_iter_ops ?A ?B = Some (Inr m)"
    "drain (tm_ops list_iter_ops list_iter_ops) (length (id ?A) + length (id ?B)) m =
       Some (Inr (merge2 (id ?A) (id ?B)))"
    using two_merge_scan [OF list_iter_sound list_iter_sound a b] by blast
  moreover have "length (id ?A) + length (id ?B) = 4" by simp
  moreover have "merge2 (id ?A) (id ?B) = [([1], [10]), ([2], [20]), ([3], [30])]" by simp
  ultimately show ?thesis by metis
qed

text \<open>C19: \<open>TwoMergeIterator::next\<close> returns, without error, from every valid state of the
  merge over such sources: the \<open>skip_b\<close> loop ends.\<close>

theorem two_merge_next_returns:
  assumes "sound oa Ia va" and "sound ob Ib vb" and "tm_inv oa ob Ia Ib m"
    and "it_is_valid (tm_ops oa ob) m"
  shows "\<exists>m'. tm_next oa ob m = Some (m', None)"
  using tm_next_step [OF assms] by blast

theorem two_merge_next_returns_witness:
  "\<exists>m'. tm_next list_iter_ops list_iter_ops
     \<lparr>tm_a = [([1], [10]), ([2], [20])], tm_b = [([2], [99]), ([3], [30])], tm_use_a = True\<rparr> = Some (m', None)"
proof -
  have "tm_inv list_iter_ops list_iter_ops keys_ascending keys_ascending
      \<lparr>tm_a = [([1], [10]), ([2], [20])], tm_b = [([2], [99]), ([3], [30])], tm_use_a = True\<rparr>"
    by (simp add: tm_inv_def list_iter_ops_def)
  moreover have "it_is_valid (tm_ops list_iter_ops list_iter_ops)
      \<lparr>tm_a = [([1], [10]), ([2], [20])], tm_b = [([2], [99]), ([3], [30])], tm_use_a = True\<rparr>"
    by (simp add: tm_ops_def list_iter_ops_def)
  ultimately show ?thesis by (rule two_merge_next_returns [OF list_iter_sound list_iter_sound])
qed

subsection \<open>Errors\<close>

text \<open>An error of \<open>b.next()\<close> inside the \<open>skip_b\<close> loop leaves the loop at once.\<close>

lemma tm_skip_b_loop_error:
  assumes "it_is_valid ob b" "it_key ob b = k" "it_next ob b = Some (b', Some e)"
  shows "tm_skip_b_loop ob k b = Some (b', Some e)"
  using assms by (simp add: tm_skip_b_loop.simps [of ob k b])

text \<open>C36: \<open>TwoMergeIterator::next\<close> returns the first error it meets, as its \<open>?\<close>s do.
  An error of the current leg's \<open>next\<close> is returned before \<open>skip_b\<close> runs. An error of
  B's \<open>next\<close> inside \<open>skip_b\<close> is returned with both legs' states but before
  \<open>select_ab\<close>, so \<open>use_a\<close> is left as it was.\<close>

theorem two_merge_next_error:
  "(tm_use_a m \<longrightarrow> it_next oa (tm_a m) = Some (a', Some e) \<longrightarrow>
      tm_next oa ob m = Some (m\<lparr>tm_a := a'\<rparr>, Some e)) \<and>
   (\<not> tm_use_a m \<longrightarrow> it_next ob (tm_b m) = Some (b', Some e) \<longrightarrow>
      tm_next oa ob m = Some (m\<lparr>tm_b := b'\<rparr>, Some e)) \<and>
   (tm_use_a m \<longrightarrow> it_next oa (tm_a m) = Some (a', None) \<longrightarrow> it_is_valid oa a' \<longrightarrow>
      it_is_valid ob (tm_b m) \<longrightarrow> it_key ob (tm_b m) = it_key oa a' \<longrightarrow>
      it_next ob (tm_b m) = Some (b', Some e) \<longrightarrow>
      tm_next oa ob m = Some (m\<lparr>tm_a := a', tm_b := b'\<rparr>, Some e))"
  by (auto simp: tm_next_def tm_after_step_def tm_skip_b_def tm_skip_b_loop_error)

theorem two_merge_next_error_witness:
  "tm_next failing_iter_ops list_iter_ops \<lparr>tm_a = [([1], [10])], tm_b = [([2], [20])], tm_use_a = True\<rparr>
     = Some (\<lparr>tm_a = [([1], [10])], tm_b = [([2], [20])], tm_use_a = True\<rparr>, Some Io_error) \<and>
   tm_next list_iter_ops failing_iter_ops \<lparr>tm_a = [([2], [20])], tm_b = [([1], [10])], tm_use_a = False\<rparr>
     = Some (\<lparr>tm_a = [([2], [20])], tm_b = [([1], [10])], tm_use_a = False\<rparr>, Some Io_error) \<and>
   tm_next list_iter_ops failing_iter_ops
       \<lparr>tm_a = [([1], [10]), ([2], [20])], tm_b = [([2], [99])], tm_use_a = True\<rparr>
     = Some (\<lparr>tm_a = [([2], [20])], tm_b = [([2], [99])], tm_use_a = True\<rparr>, Some Io_error)"
proof -
  have 1: "tm_next failing_iter_ops list_iter_ops \<lparr>tm_a = [([1], [10])], tm_b = [([2], [20])], tm_use_a = True\<rparr>
     = Some (\<lparr>tm_a = [([1], [10])], tm_b = [([2], [20])], tm_use_a = True\<rparr>, Some Io_error)"
    using two_merge_next_error [of "\<lparr>tm_a = [([1], [10])], tm_b = [([2], [20])], tm_use_a = True\<rparr>"
        failing_iter_ops "[([1], [10])]" Io_error list_iter_ops]
    by (simp add: failing_iter_ops_def)
  have 2: "tm_next list_iter_ops failing_iter_ops \<lparr>tm_a = [([2], [20])], tm_b = [([1], [10])], tm_use_a = False\<rparr>
     = Some (\<lparr>tm_a = [([2], [20])], tm_b = [([1], [10])], tm_use_a = False\<rparr>, Some Io_error)"
    using two_merge_next_error [of "\<lparr>tm_a = [([2], [20])], tm_b = [([1], [10])], tm_use_a = False\<rparr>"
        list_iter_ops _ Io_error failing_iter_ops "[([1], [10])]"]
    by (simp add: failing_iter_ops_def)
  have 3: "tm_next list_iter_ops failing_iter_ops
       \<lparr>tm_a = [([1], [10]), ([2], [20])], tm_b = [([2], [99])], tm_use_a = True\<rparr>
     = Some (\<lparr>tm_a = [([2], [20])], tm_b = [([2], [99])], tm_use_a = True\<rparr>, Some Io_error)"
    using two_merge_next_error [of "\<lparr>tm_a = [([1], [10]), ([2], [20])], tm_b = [([2], [99])], tm_use_a = True\<rparr>"
        list_iter_ops "[([2], [20])]" Io_error failing_iter_ops "[([2], [99])]"]
    by (simp add: failing_iter_ops_def list_iter_ops_def)
  show ?thesis using 1 2 3 by blast
qed

end
