(* ===== verification/Merge_Iterator.thy ===== *)
theory Merge_Iterator
  imports Storage_Iterator Merge_Spec
begin

text \<open>
  \<open>MergeIterator\<close> of \<open>src/mini-lsm-starter/src/iterators/merge_iterator.rs\<close>, generic in
  the sources' iterator type. The \<open>BinaryHeap<HeapWrapper<I>>\<close> is the list of its
  elements \<open>(idx, iter)\<close>: \<open>heap_peek\<close> returns its greatest element in the order of
  \<open>HeapWrapper\<close> (\<open>hw_less\<close>: the reversed order of \<open>(key, idx)\<close>, which C33 shows is the
  \<open>a < b\<close> of the source's \<open>partial_cmp\<close>, modelled with \<open>cmp\<close> and \<open>eq\<close> as \<open>hw_partial_cmp\<close>,
  \<open>hw_cmp\<close> and \<open>hw_eq\<close>), \<open>heap_remove\<close> drops an
  element and \<open>heap_replace\<close> overwrites one, which is what \<open>PeekMut::pop\<close>, a mutation
  through \<open>PeekMut\<close> and \<open>std::mem::swap\<close> do to the heap's contents; the sift-up and
  sift-down that keep the array a heap do not change which element \<open>peek\<close> returns, so
  they are not modelled. The \<open>peek_mut\<close> loop of \<open>next\<close> is a \<open>partial_function (option)\<close>,
  its \<open>debug_assert!\<close> a \<open>Panic\<close> (the debug build, as for the checked arithmetic of the
  builders).
  The invariant \<open>mi_inv\<close> has three parts: distinct indices, a heap of valid sources,
  and a current source greater than the whole heap. The abstraction \<open>mi_view\<close> is
  \<open>merged\<close> of the sources' views. The lemmas show the following, over \<open>sound\<close> sources:
  \<^item> the skip loop returns, and leaves sources that agree with the old ones on every key
    but the current one (\<open>mi_skip_spec\<close>);
  \<^item> \<open>create\<close> establishes the invariant with the view \<open>merge_all\<close> of the sources' views;
  \<^item> the iterator is itself \<open>sound\<close> (\<open>mi_sound\<close>).
\<close>

record 'i merge_iter =
  mi_iters :: "(nat \<times> 'i) list"
  mi_current :: "(nat \<times> 'i) option"

text \<open>\<open>HeapWrapper(idx, iter)\<close> is a pair of the source's index and the source. Its
  comparisons return \<open>std::cmp::Ordering\<close>, and \<open>Ord::cmp\<close> of keys (byte strings) and
  of indices (\<open>usize\<close>) is \<open>cmp_ord\<close>.\<close>

datatype cmp_ordering = Less | Equal | Greater

fun ord_reverse :: "cmp_ordering \<Rightarrow> cmp_ordering" where
  "ord_reverse Less = Greater"
| "ord_reverse Equal = Equal"
| "ord_reverse Greater = Less"

definition cmp_ord :: "'a::linorder \<Rightarrow> 'a \<Rightarrow> cmp_ordering" where
  "cmp_ord x y = (if x < y then Less else if x = y then Equal else Greater)"

text \<open>\<open>PartialOrd::partial_cmp\<close> compares the keys, then the indices, and reverses the
  result. \<open>Ord::cmp\<close> and \<open>PartialEq::eq\<close> unwrap it, a \<open>None\<close> being a panic.\<close>

definition hw_partial_cmp :: "'i iter_ops \<Rightarrow> nat \<times> 'i \<Rightarrow> nat \<times> 'i \<Rightarrow> cmp_ordering option" where
  "hw_partial_cmp ops a b =
     map_option ord_reverse
       (case cmp_ord (it_key ops (snd a)) (it_key ops (snd b)) of
          Greater \<Rightarrow> Some Greater
        | Less \<Rightarrow> Some Less
        | Equal \<Rightarrow> Some (cmp_ord (fst a) (fst b)))"

definition hw_cmp :: "'i iter_ops \<Rightarrow> nat \<times> 'i \<Rightarrow> nat \<times> 'i \<Rightarrow> err + cmp_ordering" where
  "hw_cmp ops a b = (case hw_partial_cmp ops a b of None \<Rightarrow> Inl Panic | Some r \<Rightarrow> Inr r)"

definition hw_eq :: "'i iter_ops \<Rightarrow> nat \<times> 'i \<Rightarrow> nat \<times> 'i \<Rightarrow> err + bool" where
  "hw_eq ops a b = (case hw_partial_cmp ops a b of None \<Rightarrow> Inl Panic | Some r \<Rightarrow> Inr (r = Equal))"

text \<open>\<open>a < b\<close> on \<open>HeapWrapper\<close>, the comparison \<open>BinaryHeap\<close> sifts by: \<open>PartialOrd::lt\<close>,
  which holds when \<open>partial_cmp a b = Some Less\<close>, written out on keys and indices.\<close>

definition hw_less :: "'i iter_ops \<Rightarrow> nat \<times> 'i \<Rightarrow> nat \<times> 'i \<Rightarrow> bool" where
  "hw_less ops a b \<longleftrightarrow>
     it_key ops (snd b) < it_key ops (snd a) \<or>
     (it_key ops (snd b) = it_key ops (snd a) \<and> fst b < fst a)"

fun heap_peek :: "'i iter_ops \<Rightarrow> (nat \<times> 'i) list \<Rightarrow> (nat \<times> 'i) option" where
  "heap_peek ops [] = None"
| "heap_peek ops (x # h) =
     (case heap_peek ops h of
        None \<Rightarrow> Some x
      | Some y \<Rightarrow> if hw_less ops x y then Some y else Some x)"

definition heap_remove :: "nat \<Rightarrow> (nat \<times> 'i) list \<Rightarrow> (nat \<times> 'i) list" where
  "heap_remove i h = filter (\<lambda>e. fst e \<noteq> i) h"

definition heap_replace :: "nat \<Rightarrow> nat \<times> 'i \<Rightarrow> (nat \<times> 'i) list \<Rightarrow> (nat \<times> 'i) list" where
  "heap_replace i x h = map (\<lambda>e. if fst e = i then x else e) h"

definition heap_pop :: "'i iter_ops \<Rightarrow> (nat \<times> 'i) list \<Rightarrow> (nat \<times> 'i) option \<times> (nat \<times> 'i) list" where
  "heap_pop ops h =
     (case heap_peek ops h of
        None \<Rightarrow> (None, h)
      | Some t \<Rightarrow> (Some t, heap_remove (fst t) h))"

text \<open>\<open>create\<close>: the valid sources, numbered by their position, pushed on the heap, and
  the greatest popped as the current one. The \<open>unwrap\<close> of that \<open>pop\<close> cannot fail, as
  the early return leaves at least one valid source; the model keeps the popped option.\<close>

definition mi_create :: "'i iter_ops \<Rightarrow> 'i list \<Rightarrow> 'i merge_iter" where
  "mi_create ops iters =
     (if iters = [] \<or> list_all (\<lambda>x. \<not> it_is_valid ops x) iters then
        \<lparr>mi_iters = [], mi_current = None\<rparr>
      else
        (let heap = filter (\<lambda>e. it_is_valid ops (snd e)) (enumerate 0 iters);
             (c, heap') = heap_pop ops heap
         in \<lparr>mi_iters = heap', mi_current = c\<rparr>))"

text \<open>The \<open>while let Some(mut iter) = self.iters.peek_mut()\<close> loop of \<open>next\<close>, for the
  current key \<open>k\<close>: it returns the heap it leaves, with the error that ended it.\<close>

partial_function (option) mi_skip ::
  "'i iter_ops \<Rightarrow> bytes \<Rightarrow> (nat \<times> 'i) list \<Rightarrow> ((nat \<times> 'i) list \<times> err option) option" where
  "mi_skip ops k h =
     (case heap_peek ops h of
        None \<Rightarrow> Some (h, None)
      | Some (i, x) \<Rightarrow>
          if \<not> k \<le> it_key ops x then Some (h, Some Panic)
          else if it_key ops x = k then
            (case it_next ops x of
               None \<Rightarrow> None
             | Some (_, Some e) \<Rightarrow> Some (heap_remove i h, Some e)
             | Some (x', None) \<Rightarrow>
                 if \<not> it_is_valid ops x' then mi_skip ops k (heap_remove i h)
                 else mi_skip ops k (heap_replace i (i, x') h))
          else Some (h, None))"

text \<open>The end of \<open>next\<close>, once the current source \<open>c\<close> has advanced without error: an
  exhausted current source is replaced by the heap's top, popped, if there is one; a
  valid one is swapped with the heap's top when it is less than it.\<close>

definition mi_settle :: "'i iter_ops \<Rightarrow> nat \<times> 'i \<Rightarrow> (nat \<times> 'i) list \<Rightarrow> 'i merge_iter" where
  "mi_settle ops c h =
     (if \<not> it_is_valid ops (snd c) then
        (case heap_pop ops h of
           (None, h') \<Rightarrow> \<lparr>mi_iters = h', mi_current = Some c\<rparr>
         | (Some t, h') \<Rightarrow> \<lparr>mi_iters = h', mi_current = Some t\<rparr>)
      else
        (case heap_peek ops h of
           None \<Rightarrow> \<lparr>mi_iters = h, mi_current = Some c\<rparr>
         | Some t \<Rightarrow>
             if hw_less ops c t then \<lparr>mi_iters = heap_replace (fst t) c h, mi_current = Some t\<rparr>
             else \<lparr>mi_iters = h, mi_current = Some c\<rparr>))"

text \<open>\<open>next\<close>: the skip loop, then the current source's \<open>next\<close>, then \<open>mi_settle\<close>.
  \<open>next\<close> on an iterator without a current source is undefined behaviour in the source
  (\<open>unwrap_unchecked\<close>); the model returns a \<open>Panic\<close> there.\<close>

definition mi_next :: "'i iter_ops \<Rightarrow> 'i merge_iter \<Rightarrow> ('i merge_iter \<times> err option) option" where
  "mi_next ops m =
     (case mi_current m of
        None \<Rightarrow> Some (m, Some Panic)
      | Some (ci, c) \<Rightarrow>
          (case mi_skip ops (it_key ops c) (mi_iters m) of
             None \<Rightarrow> None
           | Some (h, Some e) \<Rightarrow> Some (m\<lparr>mi_iters := h\<rparr>, Some e)
           | Some (h, None) \<Rightarrow>
               (case it_next ops c of
                  None \<Rightarrow> None
                | Some (c', Some e) \<Rightarrow> Some (\<lparr>mi_iters = h, mi_current = Some (ci, c')\<rparr>, Some e)
                | Some (c', None) \<Rightarrow> Some (mi_settle ops (ci, c') h, None))))"

text \<open>\<open>key\<close> and \<open>value\<close> unwrap the current source; they are only called on a valid
  iterator, which has one, and the model returns the empty string otherwise.\<close>

definition mi_ops :: "'i iter_ops \<Rightarrow> 'i merge_iter iter_ops" where
  "mi_ops ops =
     \<lparr>it_key = (\<lambda>m. case mi_current m of None \<Rightarrow> [] | Some (_, x) \<Rightarrow> it_key ops x),
      it_value = (\<lambda>m. case mi_current m of None \<Rightarrow> [] | Some (_, x) \<Rightarrow> it_value ops x),
      it_is_valid = (\<lambda>m. case mi_current m of None \<Rightarrow> False | Some (_, x) \<Rightarrow> it_is_valid ops x),
      it_next = mi_next ops\<rparr>"

subsection \<open>Abstraction\<close>

text \<open>The sources the iterator holds, the current one first, with their indices; their
  abstract views; the merged view; and the invariant: the indices are distinct, every
  source keeps its own invariant, the heap holds valid sources only, and the current
  source is greater than every element of the heap, or else invalid with an empty heap.\<close>

definition mi_entries :: "'i merge_iter \<Rightarrow> (nat \<times> 'i) list" where
  "mi_entries m = (case mi_current m of None \<Rightarrow> [] | Some c \<Rightarrow> [c]) @ mi_iters m"

definition mi_abs :: "('i \<Rightarrow> kv list) \<Rightarrow> (nat \<times> 'i) list \<Rightarrow> (nat \<times> kv list) list" where
  "mi_abs view h = map (\<lambda>(i, x). (i, view x)) h"

definition mi_view :: "('i \<Rightarrow> kv list) \<Rightarrow> 'i merge_iter \<Rightarrow> kv list" where
  "mi_view view m = merged (mi_abs view (mi_entries m))"

definition mi_inv :: "'i iter_ops \<Rightarrow> ('i \<Rightarrow> bool) \<Rightarrow> 'i merge_iter \<Rightarrow> bool" where
  "mi_inv ops I m \<longleftrightarrow>
     distinct (map fst (mi_entries m)) \<and>
     (\<forall>(i, x) \<in> set (mi_entries m). I x) \<and>
     (\<forall>(i, x) \<in> set (mi_iters m). it_is_valid ops x) \<and>
     (case mi_current m of
        None \<Rightarrow> mi_iters m = []
      | Some c \<Rightarrow>
          if it_is_valid ops (snd c) then \<forall>e \<in> set (mi_iters m). hw_less ops e c
          else mi_iters m = [])"

subsection \<open>The heap\<close>

lemma ord_reverse_cmp_ord [simp]: "ord_reverse (cmp_ord x y) = cmp_ord y x"
  by (auto simp: cmp_ord_def)

lemma cmp_ord_eq_iff [simp]:
  "cmp_ord x y = Less \<longleftrightarrow> x < y" "cmp_ord x y = Equal \<longleftrightarrow> x = y" "cmp_ord x y = Greater \<longleftrightarrow> y < x"
  by (auto simp: cmp_ord_def)

lemma hw_partial_cmp_eq:
  "hw_partial_cmp ops a b =
     Some (if it_key ops (snd a) = it_key ops (snd b) then cmp_ord (fst b) (fst a)
           else cmp_ord (it_key ops (snd b)) (it_key ops (snd a)))"
  unfolding hw_partial_cmp_def
  by (cases "it_key ops (snd a)" "it_key ops (snd b)" rule: linorder_cases)
    (auto simp: cmp_ord_def)

lemma hw_less_key: "hw_less ops a b \<Longrightarrow> it_key ops (snd b) \<le> it_key ops (snd a)"
  by (auto simp: hw_less_def)

lemma hw_less_trans: "hw_less ops a b \<Longrightarrow> hw_less ops b c \<Longrightarrow> hw_less ops a c"
  unfolding hw_less_def by (auto intro: less_trans)

lemma hw_less_asym: "hw_less ops a b \<Longrightarrow> \<not> hw_less ops b a"
  unfolding hw_less_def by auto

lemma hw_less_total: "fst a \<noteq> fst b \<Longrightarrow> hw_less ops a b \<or> hw_less ops b a"
  unfolding hw_less_def by (cases "it_key ops (snd a)" "it_key ops (snd b)" rule: linorder_cases) (auto simp: nat_neq_iff)

lemma heap_peek_None [simp]: "heap_peek ops h = None \<longleftrightarrow> h = []"
  by (cases h) (simp_all split: option.splits)

lemma heap_peek_in: "heap_peek ops h = Some t \<Longrightarrow> t \<in> set h"
  by (induction h arbitrary: t) (auto split: option.splits if_splits)

text \<open>The element \<open>peek\<close> returns is the greatest of a heap whose indices are distinct.\<close>

lemma heap_peek_max:
  "distinct (map fst h) \<Longrightarrow> heap_peek ops h = Some t \<Longrightarrow> e \<in> set h \<Longrightarrow> e \<noteq> t \<Longrightarrow> hw_less ops e t"
proof (induction h arbitrary: t e)
  case (Cons x h)
  show ?case
  proof (cases "heap_peek ops h")
    case None
    then show ?thesis using Cons.prems by simp
  next
    case (Some y)
    have y: "y \<in> set h" using heap_peek_in [OF Some] .
    have xy: "fst x \<noteq> fst y" using Cons.prems(1) y by auto
    have ih: "\<And>e. e \<in> set h \<Longrightarrow> e \<noteq> y \<Longrightarrow> hw_less ops e y" using Cons.IH Cons.prems(1) Some by simp
    show ?thesis
    proof (cases "hw_less ops x y")
      case True
      then have t: "t = y" using Cons.prems(2) Some by simp
      show ?thesis
      proof (cases "e = x")
        case False
        then have "e \<in> set h" using Cons.prems(3) by simp
        then show ?thesis using ih [of e] Cons.prems(4) t by simp
      qed (use True t in simp)
    next
      case False
      then have yx: "hw_less ops y x" using hw_less_total [OF xy] by blast
      have "t = x" using Cons.prems(2) Some False by simp
      then show ?thesis using Cons.prems(3,4) ih yx hw_less_trans by fastforce
    qed
  qed
qed simp

lemma set_heap_remove: "set (heap_remove i h) = {e \<in> set h. fst e \<noteq> i}"
  by (auto simp: heap_remove_def)

lemma distinct_heap_remove: "distinct (map fst h) \<Longrightarrow> distinct (map fst (heap_remove i h))"
  by (simp add: heap_remove_def distinct_map_filter)

lemma set_heap_replace:
  assumes "distinct (map fst h)" and "(i, x) \<in> set h"
  shows "set (heap_replace i y h) = insert y (set h - {(i, x)})"
proof -
  have "\<And>e. e \<in> set h \<Longrightarrow> fst e = i \<longleftrightarrow> e = (i, x)"
    using assms by (metis eq_key_imp_eq_value prod.collapse fst_conv)
  then show ?thesis using assms(2) by (auto simp: heap_replace_def)
qed

lemma fst_heap_replace: "fst y = i \<Longrightarrow> map fst (heap_replace i y h) = map fst h"
  by (induction h) (auto simp: heap_replace_def)

lemma mi_abs_fst [simp]: "map fst (mi_abs view h) = map fst h"
  by (induction h) (auto simp: mi_abs_def)

lemma mi_abs_mem: "(i, v) \<in> set (mi_abs view h) \<longleftrightarrow> (\<exists>x. (i, x) \<in> set h \<and> v = view x)"
  by (auto simp: mi_abs_def)

lemma mi_abs_remove: "mi_abs view (heap_remove i h) = filter (\<lambda>e. fst e \<noteq> i) (mi_abs view h)"
  by (induction h) (auto simp: mi_abs_def heap_remove_def)

lemma mi_abs_replace:
  "mi_abs view (heap_replace i (i, x') h) = map (\<lambda>e. if fst e = i then (i, view x') else e) (mi_abs view h)"
  by (induction h) (auto simp: mi_abs_def heap_replace_def)

subsection \<open>The skip loop returns\<close>

lemma mi_skip_done: "h = [] \<Longrightarrow> mi_skip ops k h = Some (h, None)"
  by (subst mi_skip.simps) simp

lemma mi_skip_stop:
  "heap_peek ops h = Some (i, x) \<Longrightarrow> k < it_key ops x \<Longrightarrow> mi_skip ops k h = Some (h, None)"
  by (subst mi_skip.simps) (simp add: less_imp_le less_imp_neq [symmetric])

lemma mi_skip_drop:
  "heap_peek ops h = Some (i, x) \<Longrightarrow> it_key ops x = k \<Longrightarrow> it_next ops x = Some (x', None) \<Longrightarrow>
     \<not> it_is_valid ops x' \<Longrightarrow> mi_skip ops k h = mi_skip ops k (heap_remove i h)"
  by (subst mi_skip.simps) simp

lemma mi_skip_advance:
  "heap_peek ops h = Some (i, x) \<Longrightarrow> it_key ops x = k \<Longrightarrow> it_next ops x = Some (x', None) \<Longrightarrow>
     it_is_valid ops x' \<Longrightarrow> mi_skip ops k h = mi_skip ops k (heap_replace i (i, x') h)"
  by (subst mi_skip.simps) simp

lemma sound_key_le:
  "sound ops I view \<Longrightarrow> I x \<Longrightarrow> it_is_valid ops x \<Longrightarrow> e \<in> set (view x) \<Longrightarrow> it_key ops x \<le> fst e"
proof -
  assume a: "sound ops I view" "I x" "it_is_valid ops x" "e \<in> set (view x)"
  have h: "view x = (it_key ops x, it_value ops x) # tl (view x)" using sound_head [OF a(1-3)] .
  have "keys_ascending (view x)" using sound_ascending [OF a(1,2)] .
  then have "keys_ascending ((it_key ops x, it_value ops x) # tl (view x))" by (subst (asm) h)
  moreover have "e \<in> set ((it_key ops x, it_value ops x) # tl (view x))" using a(4) by (subst (asm) h)
  ultimately show ?thesis by auto
qed

lemma heap_top_key_le:
  assumes dh: "distinct (map fst h)" and pk: "heap_peek ops h = Some (i, x)" and jy: "(j, y) \<in> set h"
  shows "it_key ops x \<le> it_key ops y"
proof (cases "(j, y) = (i, x)")
  case False
  then have "hw_less ops (j, y) (i, x)" using heap_peek_max [OF dh pk jy] by simp
  then show ?thesis using hw_less_key by fastforce
qed simp

text \<open>One turn of the skip loop on a heap whose top holds the current key \<open>k\<close>: the
  loop goes on with a heap of smaller total length that keeps the loop's precondition,
  and whose sources agree with the old ones on every key but \<open>k\<close>.\<close>

lemma mi_skip_turn:
  assumes snd: "sound ops I view" and dh: "distinct (map fst h)"
    and hI: "\<forall>(i, x) \<in> set h. I x \<and> it_is_valid ops x \<and> k \<le> it_key ops x"
    and pk: "heap_peek ops h = Some (i, x)" and kx: "it_key ops x = k"
  shows "\<exists>h1. mi_skip ops k h = mi_skip ops k h1 \<and>
           sum_list (map (\<lambda>e. length (view (snd e))) h1) < sum_list (map (\<lambda>e. length (view (snd e))) h) \<and>
           distinct (map fst h1) \<and> set (map fst h1) \<subseteq> set (map fst h) \<and>
           (\<forall>(i, x) \<in> set h1. I x \<and> it_is_valid ops x \<and> k \<le> it_key ops x) \<and>
           strip_rel k (mi_abs view h) (mi_abs view h1)"
proof -
  have ix: "(i, x) \<in> set h" using heap_peek_in [OF pk] .
  have Ix: "I x" and vx: "it_is_valid ops x" using hI ix by auto
  obtain x' where nx: "it_next ops x = Some (x', None)" and Ix': "I x'" and vx': "view x' = tl (view x)"
    using sound_next [OF snd Ix vx] by blast
  have hd: "view x = (k, it_value ops x) # view x'" using sound_head [OF snd Ix vx] kx vx' by simp
  have asc: "keys_ascending ((k, it_value ops x) # view x')" using sound_ascending [OF snd Ix] hd by simp
  have fx: "filter (\<lambda>e. fst e \<noteq> k) (view x') = filter (\<lambda>e. fst e \<noteq> k) (view x)"
    using ascending_filter_head [OF asc] hd by simp
  have dabs: "distinct (map fst (mi_abs view h))" using dh by simp
  have ixa: "(i, view x) \<in> set (mi_abs view h)" using ix mi_abs_mem by blast
  let ?m = "\<lambda>h. sum_list (map (\<lambda>e. length (view (snd e))) h)"
  show ?thesis
  proof (cases "it_is_valid ops x'")
    case False
    let ?h1 = "heap_remove i h"
    have "view x' = []" using sound_invalid [OF snd Ix' False] .
    then have "filter (\<lambda>e. fst e \<noteq> k) (view x) = []" using fx by simp
    then have r1: "strip_rel k (mi_abs view h) (mi_abs view ?h1)"
      using strip_rel_drop [OF dabs ixa] by (simp add: mi_abs_remove)
    have "?m ?h1 < ?m h"
      using sum_list_map_less [of h "\<lambda>e. if fst e \<noteq> i then length (view (snd e)) else 0"
          "\<lambda>e. length (view (snd e))" "(i, x)"] ix hd
      by (simp add: heap_remove_def sum_list_map_filter')
    moreover have "set (map fst ?h1) \<subseteq> set (map fst h)" by (auto simp: heap_remove_def)
    moreover have "\<forall>(i, x) \<in> set ?h1. I x \<and> it_is_valid ops x \<and> k \<le> it_key ops x"
      using hI by (auto simp: set_heap_remove)
    ultimately show ?thesis
      using mi_skip_drop [OF pk kx nx False] distinct_heap_remove [OF dh] r1 by blast
  next
    case True
    let ?h1 = "heap_replace i (i, x') h"
    have "view x' = (it_key ops x', it_value ops x') # tl (view x')" using sound_head [OF snd Ix' True] .
    then have kx': "k < it_key ops x'" using asc by (metis list.set_intros(1) sorted_wrt.simps(2) list.simps(9) fst_conv)
    have r1: "strip_rel k (mi_abs view h) (mi_abs view ?h1)"
      using strip_rel_update [OF dabs ixa fx] by (simp add: mi_abs_replace)
    have le: "\<And>e. e \<in> set h \<Longrightarrow> length (view (snd (if fst e = i then (i, x') else e))) \<le> length (view (snd e))"
    proof -
      fix e assume e: "e \<in> set h"
      show "length (view (snd (if fst e = i then (i, x') else e))) \<le> length (view (snd e))"
      proof (cases "fst e = i")
        case True
        then have "e = (i, x)" using dh e ix by (metis eq_key_imp_eq_value prod.collapse)
        then show ?thesis using True hd by simp
      qed simp
    qed
    have "?m ?h1 < ?m h"
      using sum_list_map_less [of h "\<lambda>e. length (view (snd (if fst e = i then (i, x') else e)))"
          "\<lambda>e. length (view (snd e))" "(i, x)", OF le] ix hd
      by (simp add: heap_replace_def comp_def)
    moreover have "distinct (map fst ?h1)" and "set (map fst ?h1) \<subseteq> set (map fst h)"
      using dh by (simp_all add: fst_heap_replace)
    moreover have "\<forall>(i, x) \<in> set ?h1. I x \<and> it_is_valid ops x \<and> k \<le> it_key ops x"
      using hI Ix' True kx' by (auto simp: set_heap_replace [OF dh ix])
    ultimately show ?thesis
      using mi_skip_advance [OF pk kx nx True] r1 by blast
  qed
qed

lemma mi_skip_spec:
  assumes snd: "sound ops I view" and "distinct (map fst h)"
    and "\<forall>(i, x) \<in> set h. I x \<and> it_is_valid ops x \<and> k \<le> it_key ops x"
  shows "\<exists>h'. mi_skip ops k h = Some (h', None) \<and> distinct (map fst h') \<and>
           set (map fst h') \<subseteq> set (map fst h) \<and>
           (\<forall>(i, x) \<in> set h'. I x \<and> it_is_valid ops x \<and> k < it_key ops x) \<and>
           strip_rel k (mi_abs view h) (mi_abs view h')"
  using assms(2,3)
proof (induction "sum_list (map (\<lambda>e. length (view (snd e))) h)" arbitrary: h rule: less_induct)
  case less
  note dh = less.prems(1) and hI = less.prems(2)
  show ?case
  proof (cases "heap_peek ops h")
    case None
    then show ?thesis using mi_skip_done [of h] strip_rel_refl by simp
  next
    case (Some t)
    obtain i x where pk: "heap_peek ops h = Some (i, x)" using Some by (cases t) simp
    have kx: "k \<le> it_key ops x" using hI heap_peek_in [OF pk] by auto
    show ?thesis
    proof (cases "it_key ops x = k")
      case False
      then have lt: "k < it_key ops x" using kx by simp
      have "\<forall>(j, y) \<in> set h. I y \<and> it_is_valid ops y \<and> k < it_key ops y"
        using hI heap_top_key_le [OF dh pk] lt by fastforce
      then show ?thesis using mi_skip_stop [OF pk lt] dh strip_rel_refl by blast
    next
      case True
      obtain h1 where eq: "mi_skip ops k h = mi_skip ops k h1"
        and lt: "sum_list (map (\<lambda>e. length (view (snd e))) h1) < sum_list (map (\<lambda>e. length (view (snd e))) h)"
        and d1: "distinct (map fst h1)" and s1: "set (map fst h1) \<subseteq> set (map fst h)"
        and I1: "\<forall>(i, x) \<in> set h1. I x \<and> it_is_valid ops x \<and> k \<le> it_key ops x"
        and r1: "strip_rel k (mi_abs view h) (mi_abs view h1)"
        using mi_skip_turn [OF snd dh hI pk True] by blast
      obtain h' where m': "mi_skip ops k h1 = Some (h', None)" and d': "distinct (map fst h')"
          and s': "set (map fst h') \<subseteq> set (map fst h1)"
          and I': "\<forall>(i, x) \<in> set h'. I x \<and> it_is_valid ops x \<and> k < it_key ops x"
          and r': "strip_rel k (mi_abs view h1) (mi_abs view h')"
        using less.hyps [OF lt d1 I1] by blast
      have "distinct (map fst (mi_abs view h))" using dh by simp
      then have r: "strip_rel k (mi_abs view h) (mi_abs view h')" using strip_rel_trans r1 r' by blast
      have s: "set (map fst h') \<subseteq> set (map fst h)" using s' s1 by blast
      show ?thesis
        by (rule exI [of _ h']) (intro conjI; (rule r s d' I')?; use eq m' in simp)
    qed
  qed
qed

subsection \<open>The merge iterator is sound\<close>

lemma mi_entries_simps [simp]:
  "mi_entries \<lparr>mi_iters = h, mi_current = None\<rparr> = h"
  "mi_entries \<lparr>mi_iters = h, mi_current = Some c\<rparr> = c # h"
  by (simp_all add: mi_entries_def)

lemma set_mi_abs: "set (mi_abs view h) = (\<lambda>(i, x). (i, view x)) ` set h"
  by (simp add: mi_abs_def)

lemma mi_abs_Cons [simp]: "mi_abs view ((i, x) # h) = (i, view x) # mi_abs view h"
  by (simp add: mi_abs_def)

lemma sound_abs_ascending:
  "sound ops I view \<Longrightarrow> \<forall>(i, x) \<in> set h. I x \<Longrightarrow> \<forall>(i, v) \<in> set (mi_abs view h). keys_ascending v"
  by (auto simp: mi_abs_def dest: sound_ascending)

text \<open>Two lists of sources with the same elements, or that differ by a source with an
  empty view, merge to the same view.\<close>

lemma merged_abs_set:
  assumes "sound ops I view" and "\<forall>(i, x) \<in> set h. I x"
    and "distinct (map fst h)" and "distinct (map fst h')" and "set h = set h'"
  shows "merged (mi_abs view h) = merged (mi_abs view h')"
  using merged_cong_set [of "mi_abs view h" "mi_abs view h'"] sound_abs_ascending [OF assms(1,2)] assms(3-5)
  by (simp add: set_mi_abs)

lemma mi_view_invalid:
  assumes snd: "sound ops I view" and inv: "mi_inv ops I m" and nv: "\<not> it_is_valid (mi_ops ops) m"
  shows "mi_view view m = []"
proof (cases "mi_current m")
  case None
  then have "mi_iters m = []" using inv by (simp add: mi_inv_def)
  then show ?thesis using None by (simp add: mi_view_def mi_entries_def mi_abs_def merged_def)
next
  case (Some c)
  obtain ci x where c: "c = (ci, x)" by fastforce
  have nx: "\<not> it_is_valid ops x" using nv Some c by (simp add: mi_ops_def)
  then have "mi_iters m = []" and "I x" using inv Some c by (simp_all add: mi_inv_def mi_entries_def)
  moreover have "view x = []" using sound_invalid [OF snd \<open>I x\<close> nx] .
  ultimately show ?thesis using Some c by (simp add: mi_view_def mi_entries_def mi_abs_def merged_def)
qed

lemma mi_inv_current:
  assumes "mi_inv ops I m" and "mi_current m = Some (ci, c)" and "it_is_valid ops c"
  shows "distinct (map fst ((ci, c) # mi_iters m))" and "I c"
    and "\<forall>(j, y) \<in> set (mi_iters m). I y \<and> it_is_valid ops y \<and> hw_less ops (j, y) (ci, c)"
  using assms by (auto simp: mi_inv_def mi_entries_def)

text \<open>The current source holds the head of the merged view.\<close>

lemma mi_view_head:
  assumes snd: "sound ops I view" and inv: "mi_inv ops I m"
    and cur: "mi_current m = Some (ci, c)" and vc: "it_is_valid ops c"
  shows "mi_view view m = (it_key ops c, it_value ops c) # tl (mi_view view m)"
proof -
  note d = mi_inv_current [OF inv cur vc]
  let ?E = "mi_abs view ((ci, c) # mi_iters m)"
  have E: "mi_abs view (mi_entries m) = ?E" using cur by (simp add: mi_entries_def)
  have dE: "distinct (map fst ?E)" using d(1) by simp
  have asc: "\<forall>(i, v) \<in> set ?E. keys_ascending v"
  proof (rule sound_abs_ascending [OF snd])
    show "\<forall>(i, x) \<in> set ((ci, c) # mi_iters m). I x" using d(2,3) by auto
  qed
  have hc: "view c = (it_key ops c, it_value ops c) # tl (view c)" using sound_head [OF snd d(2) vc] .
  have iv: "(ci, (it_key ops c, it_value ops c) # tl (view c)) \<in> set ?E" using hc by simp
  have pt: "it_key ops c < fst e \<or> (it_key ops c = fst e \<and> ci \<le> j)"
    if ju: "(j, u) \<in> set ?E" and e: "e \<in> set u" for j u e
  proof (cases "(j, u) = (ci, view c)")
    case True
    then show ?thesis using sound_key_le [OF snd d(2) vc] e by fastforce
  next
    case False
    then obtain y where jy: "(j, y) \<in> set (mi_iters m)" and u: "u = view y" using ju mi_abs_mem [of j u view] by auto
    have "it_key ops y \<le> fst e" using sound_key_le [OF snd _ _ e [unfolded u]] d(3) jy by blast
    moreover have "hw_less ops (j, y) (ci, c)" using d(3) jy by blast
    ultimately show ?thesis by (auto simp: hw_less_def)
  qed
  have low: "\<forall>(j, u) \<in> set ?E. \<forall>e \<in> set u. it_key ops c < fst e \<or> (it_key ops c = fst e \<and> ci \<le> j)"
    using pt by blast
  have "merged ?E \<noteq> [] \<and> hd (merged ?E) = (it_key ops c, it_value ops c)"
    using merged_hd [OF dE asc iv low] .
  then show ?thesis unfolding mi_view_def E by (cases "merged ?E") simp_all
qed

lemma fst_heap_replace_fresh:
  "map fst (heap_replace i (j, y) h) = map (\<lambda>a. if a = i then j else a) (map fst h)"
  by (induction h) (auto simp: heap_replace_def)

lemma distinct_heap_replace:
  assumes "distinct (map fst h)" and "j \<notin> set (map fst h)" and "i \<noteq> j"
  shows "distinct (map fst ((i, z) # heap_replace i (j, y) h))"
proof -
  have "inj_on (\<lambda>a. if a = i then j else a) (set (map fst h))"
    using assms(2) by (auto simp: inj_on_def)
  then have d: "distinct (map (\<lambda>a. if a = i then j else a) (map fst h))"
    using assms(1) by (subst distinct_map) blast
  have ni: "i \<notin> set (map (\<lambda>a. if a = i then j else a) (map fst h))" using assms(3) by auto
  show ?thesis
    by (simp only: list.map fst_conv distinct.simps fst_heap_replace_fresh) (use d ni in blast)
qed

lemma mi_inv_Some:
  "mi_inv ops I \<lparr>mi_iters = h, mi_current = Some c\<rparr> \<longleftrightarrow>
     distinct (map fst (c # h)) \<and> I (snd c) \<and> (\<forall>(i, x) \<in> set h. I x \<and> it_is_valid ops x) \<and>
     (if it_is_valid ops (snd c) then \<forall>e \<in> set h. hw_less ops e c else h = [])"
  by (cases c) (auto simp: mi_inv_def)

text \<open>Popping a non-empty heap of valid sources yields a state that keeps the invariant
  and holds the same sources.\<close>

lemma heap_pop_spec:
  assumes snd: "sound ops I view" and dh: "distinct (map fst h)"
    and hI: "\<forall>(j, y) \<in> set h. I y \<and> it_is_valid ops y" and ne: "h \<noteq> []"
  shows "\<exists>t h'. heap_pop ops h = (Some t, h') \<and> mi_inv ops I \<lparr>mi_iters = h', mi_current = Some t\<rparr> \<and>
           merged (mi_abs view (t # h')) = merged (mi_abs view h)"
proof -
  obtain ti tx where pk: "heap_peek ops h = Some (ti, tx)" using ne by (cases "heap_peek ops h") auto
  have tin: "(ti, tx) \<in> set h" using heap_peek_in [OF pk] .
  let ?h' = "heap_remove ti h"
  have pop: "heap_pop ops h = (Some (ti, tx), ?h')" using pk by (simp add: heap_pop_def)
  have u: "\<And>e. e \<in> set h \<Longrightarrow> fst e = ti \<Longrightarrow> e = (ti, tx)"
    using dh tin by (metis eq_key_imp_eq_value prod.collapse)
  have "e \<in> set ((ti, tx) # ?h') \<longleftrightarrow> e \<in> set h" for e
  proof (cases "fst e = ti")
    case True
    then show ?thesis using u [of e] tin by (auto simp: set_heap_remove)
  qed (auto simp: set_heap_remove)
  then have st: "set ((ti, tx) # ?h') = set h" by blast
  have d': "distinct (map fst ((ti, tx) # ?h'))"
    using distinct_heap_remove [OF dh] by (auto simp: heap_remove_def)
  have mx: "\<forall>e \<in> set ?h'. hw_less ops e (ti, tx)"
    using heap_peek_max [OF dh pk] by (auto simp: set_heap_remove)
  have "I tx \<and> it_is_valid ops tx" using hI tin by blast
  moreover have "\<forall>(i, x) \<in> set ?h'. I x \<and> it_is_valid ops x" using hI by (auto simp: set_heap_remove)
  ultimately have inv: "mi_inv ops I \<lparr>mi_iters = ?h', mi_current = Some (ti, tx)\<rparr>"
    unfolding mi_inv_Some using d' mx by simp
  have "merged (mi_abs view ((ti, tx) # ?h')) = merged (mi_abs view h)"
    using merged_abs_set [OF snd _ d' dh st] st hI by auto
  then show ?thesis using pop inv by blast
qed

lemma mi_settle_invalid:
  assumes snd: "sound ops I view" and dh: "distinct (map fst ((ci, c') # h))"
    and hI: "\<forall>(j, y) \<in> set h. I y \<and> it_is_valid ops y" and Ic: "I c'" and nv: "\<not> it_is_valid ops c'"
  shows "mi_inv ops I (mi_settle ops (ci, c') h) \<and>
         mi_view view (mi_settle ops (ci, c') h) = merged (mi_abs view ((ci, c') # h))"
proof (cases "h = []")
  case True
  then show ?thesis using dh Ic nv by (simp add: mi_settle_def heap_pop_def mi_inv_Some mi_view_def)
next
  case False
  have dh': "distinct (map fst h)" using dh by simp
  obtain t h' where pop: "heap_pop ops h = (Some t, h')"
    and inv: "mi_inv ops I \<lparr>mi_iters = h', mi_current = Some t\<rparr>"
    and mt: "merged (mi_abs view (t # h')) = merged (mi_abs view h)"
    using heap_pop_spec [OF snd dh' hI False] by blast
  have m': "mi_settle ops (ci, c') h = \<lparr>mi_iters = h', mi_current = Some t\<rparr>"
    using nv pop by (simp add: mi_settle_def)
  have "view c' = []" using sound_invalid [OF snd Ic nv] .
  moreover have "\<forall>(i, v) \<in> set (mi_abs view h). keys_ascending v"
    by (rule sound_abs_ascending [OF snd]) (use hI in blast)
  ultimately have "merged (mi_abs view ((ci, c') # h)) = merged (mi_abs view h)"
    using merged_Cons_Nil [of ci "mi_abs view h"] dh by simp
  then show ?thesis using inv m' mt by (simp add: mi_view_def)
qed

lemma mi_settle_valid:
  assumes snd: "sound ops I view" and dh: "distinct (map fst ((ci, c') # h))"
    and hI: "\<forall>(j, y) \<in> set h. I y \<and> it_is_valid ops y" and Ic: "I c'" and vc: "it_is_valid ops c'"
  shows "mi_inv ops I (mi_settle ops (ci, c') h) \<and>
         mi_view view (mi_settle ops (ci, c') h) = merged (mi_abs view ((ci, c') # h))"
proof (cases "heap_peek ops h")
  case None
  then have "h = []" by simp
  then show ?thesis using dh Ic vc by (simp add: mi_settle_def mi_inv_Some mi_view_def)
next
  case (Some t)
  obtain ti tx where t: "t = (ti, tx)" by fastforce
  have pk: "heap_peek ops h = Some (ti, tx)" using Some t by simp
  have dh': "distinct (map fst h)" and ci: "ci \<notin> set (map fst h)" using dh by simp_all
  have tin: "(ti, tx) \<in> set h" using heap_peek_in [OF pk] .
  have ti: "ti \<noteq> ci" using ci tin by force
  have Itx: "I tx \<and> it_is_valid ops tx" using hI tin by blast
  show ?thesis
  proof (cases "hw_less ops (ci, c') (ti, tx)")
    case True
    let ?h' = "heap_replace ti (ci, c') h"
    have m': "mi_settle ops (ci, c') h = \<lparr>mi_iters = ?h', mi_current = Some (ti, tx)\<rparr>"
      using vc pk True by (simp add: mi_settle_def)
    have st': "set ?h' = insert (ci, c') (set h - {(ti, tx)})" using set_heap_replace [OF dh' tin] .
    have d': "distinct (map fst ((ti, tx) # ?h'))" using distinct_heap_replace [OF dh' ci ti] .
    have st: "set ((ti, tx) # ?h') = set ((ci, c') # h)" using st' tin by auto
    have mx: "\<forall>e \<in> set ?h'. hw_less ops e (ti, tx)"
      using heap_peek_max [OF dh' pk] True unfolding st' by blast
    have "\<forall>(i, x) \<in> set ?h'. I x \<and> it_is_valid ops x" using hI Ic vc unfolding st' by blast
    then have inv: "mi_inv ops I (mi_settle ops (ci, c') h)"
      unfolding m' mi_inv_Some using d' mx Itx by simp
    have "\<forall>(i, x) \<in> set ((ci, c') # h). I x" using hI Ic by auto
    then have "merged (mi_abs view ((ci, c') # h)) = merged (mi_abs view ((ti, tx) # ?h'))"
      using merged_abs_set [OF snd _ dh d' st [symmetric]] by blast
    then show ?thesis using inv m' by (simp add: mi_view_def)
  next
    case False
    have m': "mi_settle ops (ci, c') h = \<lparr>mi_iters = h, mi_current = Some (ci, c')\<rparr>"
      using vc pk False by (simp add: mi_settle_def)
    have htc: "hw_less ops (ti, tx) (ci, c')" using hw_less_total [of "(ti, tx)" "(ci, c')" ops] ti False by auto
    have mx: "\<forall>e \<in> set h. hw_less ops e (ci, c')"
    proof
      fix e assume e: "e \<in> set h"
      show "hw_less ops e (ci, c')"
      proof (cases "e = (ti, tx)")
        case False
        then show ?thesis using heap_peek_max [OF dh' pk e] htc hw_less_trans by blast
      qed (use htc in simp)
    qed
    have "mi_inv ops I (mi_settle ops (ci, c') h)"
      unfolding m' mi_inv_Some using dh hI Ic vc mx by simp
    then show ?thesis using m' by (simp add: mi_view_def)
  qed
qed

lemma mi_settle_spec:
  assumes "sound ops I view" and "distinct (map fst ((ci, c') # h))"
    and "\<forall>(j, y) \<in> set h. I y \<and> it_is_valid ops y" and "I c'"
  shows "mi_inv ops I (mi_settle ops (ci, c') h) \<and>
         mi_view view (mi_settle ops (ci, c') h) = merged (mi_abs view ((ci, c') # h))"
  using mi_settle_valid [OF assms] mi_settle_invalid [OF assms] by blast

text \<open>A step from a valid state: the skip loop returns, the current source advances,
  and the state that \<open>mi_settle\<close> leaves keeps the invariant and presents the tail of the
  merged view.\<close>

lemma mi_next_step:
  assumes snd: "sound ops I view" and inv: "mi_inv ops I m" and v: "it_is_valid (mi_ops ops) m"
  shows "\<exists>m'. mi_next ops m = Some (m', None) \<and> mi_inv ops I m' \<and> mi_view view m' = tl (mi_view view m)"
proof -
  obtain ci c where cur: "mi_current m = Some (ci, c)" and vc: "it_is_valid ops c"
    using v by (auto simp: mi_ops_def split: option.splits)
  note d = mi_inv_current [OF inv cur vc]
  let ?k = "it_key ops c"
  let ?f = "\<lambda>v. filter (\<lambda>e. fst e \<noteq> ?k) v"
  have hpre: "\<forall>(j, y) \<in> set (mi_iters m). I y \<and> it_is_valid ops y \<and> ?k \<le> it_key ops y"
    using d(3) hw_less_key by fastforce
  obtain h where sk: "mi_skip ops ?k (mi_iters m) = Some (h, None)" and dh: "distinct (map fst h)"
    and sh: "set (map fst h) \<subseteq> set (map fst (mi_iters m))"
    and hI: "\<forall>(i, x) \<in> set h. I x \<and> it_is_valid ops x \<and> ?k < it_key ops x"
    and r: "strip_rel ?k (mi_abs view (mi_iters m)) (mi_abs view h)"
    using mi_skip_spec [OF snd _ hpre] d(1) by auto
  obtain c' where nx: "it_next ops c = Some (c', None)" and Ic': "I c'" and vc': "view c' = tl (view c)"
    using sound_next [OF snd d(2) vc] by blast
  have hc: "view c = (?k, it_value ops c) # view c'" using sound_head [OF snd d(2) vc] vc' by simp
  have ascc: "keys_ascending ((?k, it_value ops c) # view c')" using sound_ascending [OF snd d(2)] hc by simp
  have fc: "?f (view c') = ?f (view c)" using ascending_filter_head [OF ascc] hc by simp
  have dE1: "distinct (map fst ((ci, c') # h))" using d(1) sh dh by auto
  have hI': "\<forall>(j, y) \<in> set h. I y \<and> it_is_valid ops y" using hI by blast
  have nxt: "mi_next ops m = Some (mi_settle ops (ci, c') h, None)"
    using cur sk nx by (simp add: mi_next_def)
  note settle = mi_settle_spec [OF snd dE1 hI' Ic']
  let ?E0 = "mi_abs view ((ci, c) # mi_iters m)"
  let ?E1 = "mi_abs view ((ci, c') # h)"
  have rel: "strip_rel ?k ?E0 ?E1" using strip_rel_Cons [OF r fc] by simp
  have nk: "\<forall>(j, v') \<in> set ?E1. map_of v' ?k = None"
  proof -
    have "\<forall>e \<in> set (view c'). ?k < fst e" using ascc by simp
    moreover have "\<forall>(j, y) \<in> set h. \<forall>e \<in> set (view y). ?k < fst e"
      using hI sound_key_le [OF snd] by fastforce
    ultimately have "\<forall>(j, v') \<in> set ?E1. \<forall>e \<in> set v'. ?k < fst e"
      by (auto simp: set_mi_abs)
    then show ?thesis by (fastforce simp: map_of_eq_None_iff)
  qed
  have asc0: "\<forall>(i, v) \<in> set ?E0. keys_ascending v"
    by (rule sound_abs_ascending [OF snd]) (use d(2,3) in auto)
  have asc1: "\<forall>(i, v) \<in> set ?E1. keys_ascending v"
    by (rule sound_abs_ascending [OF snd]) (use hI Ic' in auto)
  have dE0: "distinct (map fst ?E0)" using d(1) by simp
  have dE1': "distinct (map fst ?E1)" using dE1 by simp
  have vm: "mi_view view m = merged ?E0" using cur by (simp add: mi_view_def mi_entries_def)
  have hd: "merged ?E0 = (?k, it_value ops c) # tl (merged ?E0)"
    using mi_view_head [OF snd inv cur vc] vm by simp
  have "merged ?E1 = tl (merged ?E0)"
    by (rule merged_strip_tl [OF dE0 dE1' asc0 asc1 rel nk]) (subst hd; simp)+
  then show ?thesis using nxt settle vm by simp
qed

lemma mi_valid_view:
  assumes snd: "sound ops I view" and inv: "mi_inv ops I m"
  shows "it_is_valid (mi_ops ops) m \<longleftrightarrow> mi_view view m \<noteq> []"
proof
  assume v: "it_is_valid (mi_ops ops) m"
  then obtain ci c where cur: "mi_current m = Some (ci, c)" and vc: "it_is_valid ops c"
    by (auto simp: mi_ops_def split: option.splits)
  show "mi_view view m \<noteq> []" using mi_view_head [OF snd inv cur vc] by (metis list.distinct(1))
qed (use mi_view_invalid [OF snd inv] in blast)

lemma mi_view_ascending:
  assumes snd: "sound ops I view" and inv: "mi_inv ops I m"
  shows "keys_ascending (mi_view view m)"
proof -
  have "\<forall>(i, x) \<in> set (mi_entries m). I x" using inv by (simp add: mi_inv_def)
  then show ?thesis unfolding mi_view_def by (intro merged_ascending sound_abs_ascending [OF snd])
qed

text \<open>Over sound sources the merge iterator is itself sound, towards the merged view.\<close>

lemma mi_sound:
  assumes snd: "sound ops I view"
  shows "sound (mi_ops ops) (mi_inv ops I) (mi_view view)"
proof -
  have "lawful (mi_ops ops) (mi_inv ops I) (mi_view view)"
    unfolding lawful_def
  proof (intro allI impI conjI)
    fix m assume inv: "mi_inv ops I m"
    show "it_is_valid (mi_ops ops) m \<longleftrightarrow> mi_view view m \<noteq> []" using mi_valid_view [OF snd inv] .
    show "(it_key (mi_ops ops) m, it_value (mi_ops ops) m) = hd (mi_view view m)" if "mi_view view m \<noteq> []"
    proof -
      have "it_is_valid (mi_ops ops) m" using that mi_valid_view [OF snd inv] by blast
      then obtain ci c where cur: "mi_current m = Some (ci, c)" and vc: "it_is_valid ops c"
        by (auto simp: mi_ops_def split: option.splits)
      then show ?thesis using mi_view_head [OF snd inv cur vc] by (metis list.sel(1) mi_ops_def option.simps(5)
            iter_ops.select_convs(1,2) case_prod_conv)
    qed
    fix m' assume ne: "mi_view view m \<noteq> []" and nx: "it_next (mi_ops ops) m = Some (m', None)"
    have "it_is_valid (mi_ops ops) m" using ne mi_valid_view [OF snd inv] by blast
    then obtain m'' where "mi_next ops m = Some (m'', None)" "mi_inv ops I m''"
        "mi_view view m'' = tl (mi_view view m)"
      using mi_next_step [OF snd inv] by blast
    then show "mi_inv ops I m'" and "mi_view view m' = tl (mi_view view m)"
      using nx by (simp_all add: mi_ops_def)
  qed
  moreover have "\<forall>m. mi_inv ops I m \<longrightarrow> it_is_valid (mi_ops ops) m \<longrightarrow>
      (\<exists>m'. it_next (mi_ops ops) m = Some (m', None))"
    using mi_next_step [OF snd] by (fastforce simp: mi_ops_def)
  ultimately show ?thesis using mi_view_ascending [OF snd] by (simp add: sound_def)
qed

lemma mi_abs_enumerate: "mi_abs view (enumerate n xs) = enumerate n (map view xs)"
  by (induction xs arbitrary: n) (simp_all add: mi_abs_def)

lemma mi_abs_filter_valid:
  assumes "sound ops I view" and "\<forall>(i, x) \<in> set h. I x"
  shows "mi_abs view (filter (\<lambda>e. it_is_valid ops (snd e)) h) = filter (\<lambda>e. snd e \<noteq> []) (mi_abs view h)"
  using assms(2)
proof (induction h)
  case (Cons e h)
  obtain i x where e: "e = (i, x)" by fastforce
  have "it_is_valid ops x \<longleftrightarrow> view x \<noteq> []"
    using lawful_valid [OF sound_lawful [OF assms(1)]] Cons.prems e by simp
  then show ?case using Cons e by simp
qed (simp add: mi_abs_def)

text \<open>\<open>create\<close> yields a state that keeps the invariant and presents the merge of the
  sources' views, the lowest index winning ties.\<close>

lemma mi_create_spec:
  assumes snd: "sound ops I view" and its: "\<forall>x \<in> set its. I x"
  shows "mi_inv ops I (mi_create ops its) \<and> mi_view view (mi_create ops its) = merge_all (map view its)"
proof (cases "its = [] \<or> list_all (\<lambda>x. \<not> it_is_valid ops x) its")
  case True
  then have "\<forall>v \<in> set (map view its). v = []"
    using sound_invalid [OF snd] its by (auto simp: list_all_iff)
  then show ?thesis using True
    by (simp add: mi_create_def mi_inv_def mi_view_def mi_entries_def mi_abs_def merged_def merge_all_Nils)
next
  case False
  let ?E = "enumerate 0 its"
  let ?h = "filter (\<lambda>e. it_is_valid ops (snd e)) ?E"
  have EI: "\<forall>(i, x) \<in> set ?E. I x" using its by (auto simp: in_set_enumerate_eq)
  have dE: "distinct (map fst ?E)" by simp
  have dh: "distinct (map fst ?h)" using dE by (simp add: distinct_map_filter)
  have hI: "\<forall>(j, y) \<in> set ?h. I y \<and> it_is_valid ops y" using EI by auto
  obtain x where x: "x \<in> set its" "it_is_valid ops x" using False by (auto simp: list_all_iff)
  then obtain i where "i < length its" "its ! i = x" by (meson in_set_conv_nth)
  then have "(i, x) \<in> set ?E" by (auto simp: in_set_enumerate_eq)
  then have ne: "?h \<noteq> []" using x(2) unfolding filter_empty_conv by fastforce
  obtain t h' where pop: "heap_pop ops ?h = (Some t, h')"
    and inv: "mi_inv ops I \<lparr>mi_iters = h', mi_current = Some t\<rparr>"
    and mt: "merged (mi_abs view (t # h')) = merged (mi_abs view ?h)"
    using heap_pop_spec [OF snd dh hI ne] by blast
  have m: "mi_create ops its = \<lparr>mi_iters = h', mi_current = Some t\<rparr>"
    using False pop by (simp add: mi_create_def Let_def)
  have ascE: "\<forall>(i, v) \<in> set (mi_abs view ?E). keys_ascending v"
    by (rule sound_abs_ascending [OF snd EI])
  have "merged (mi_abs view ?h) = merged (mi_abs view ?E)"
    using mi_abs_filter_valid [OF snd EI] merged_filter_Nil [of "mi_abs view ?E"] ascE by simp
  also have "\<dots> = merge_all (map view its)" by (simp add: mi_abs_enumerate merged_enumerate)
  finally show ?thesis using m inv mt by (simp add: mi_view_def)
qed

subsection \<open>Properties of the merge iterator\<close>

text \<open>C20: over sources that keep the iterator contract, never fail and present strictly
  ascending pairs, a scan of \<open>MergeIterator::create\<close> yields the merge of the sources'
  views: strictly ascending, and binding every key to the value of the lowest-indexed
  source that holds it (spec section 4.6: the newest source wins).\<close>

theorem merge_iterator_scan:
  assumes "sound ops I view" and "\<forall>x \<in> set its. I x"
  shows "drain (mi_ops ops) (length (merge_all (map view its))) (mi_create ops its) =
           Some (Inr (merge_all (map view its))) \<and>
         keys_ascending (merge_all (map view its)) \<and>
         (map_of (merge_all (map view its)) k = Some w \<longleftrightarrow>
           (\<exists>i < length its. map_of (view (its ! i)) k = Some w \<and> (\<forall>j < i. map_of (view (its ! j)) k = None)))"
proof -
  have cr: "mi_inv ops I (mi_create ops its)" "mi_view view (mi_create ops its) = merge_all (map view its)"
    using mi_create_spec [OF assms] by simp_all
  have asc: "\<forall>v \<in> set (map view its). keys_ascending v"
    using sound_ascending [OF assms(1)] assms(2) by auto
  have nth: "(\<exists>i < length its. map_of (map view its ! i) k = Some w \<and> (\<forall>j < i. map_of (map view its ! j) k = None)) \<longleftrightarrow>
      (\<exists>i < length its. map_of (view (its ! i)) k = Some w \<and> (\<forall>j < i. map_of (view (its ! j)) k = None))"
    by (auto simp: nth_map)
  show ?thesis
    using drain_sound [OF mi_sound [OF assms(1)] cr(1)] cr(2) merge_all_ascending [OF asc]
      map_of_merge_all_nth [OF asc, of k w] nth by simp
qed

theorem merge_iterator_scan_witness:
  "drain (mi_ops list_iter_ops) 3
     (mi_create list_iter_ops [[([2], [20])], [([1], [10]), ([2], [99])], [([3], [30])]]) =
   Some (Inr [([1], [10]), ([2], [20]), ([3], [30])])"
proof -
  let ?its = "[[([2], [20])], [([1], [10]), ([2], [99])], [([3], [30])]] :: kv list list"
  have "\<forall>x \<in> set ?its. keys_ascending x" by simp
  then have "drain (mi_ops list_iter_ops) (length (merge_all (map id ?its))) (mi_create list_iter_ops ?its) =
      Some (Inr (merge_all (map id ?its)))"
    using merge_iterator_scan [OF list_iter_sound] by blast
  moreover have "merge_all (map id ?its) = [([1], [10]), ([2], [20]), ([3], [30])]" by simp
  ultimately show ?thesis by (metis length_Cons list.size(3) numeral_3_eq_3)
qed

text \<open>C21: \<open>MergeIterator::next\<close> returns, without error, from every valid state of the
  merge over such sources: the \<open>peek_mut\<close> loop ends, its \<open>debug_assert!\<close> holds, and the
  state it leaves keeps the invariant and presents the rest of the merge.\<close>

theorem merge_iterator_next_returns:
  assumes "sound ops I view" and "mi_inv ops I m" and "it_is_valid (mi_ops ops) m"
  shows "\<exists>m'. mi_next ops m = Some (m', None) \<and> mi_inv ops I m' \<and> mi_view view m' = tl (mi_view view m)"
  using mi_next_step [OF assms] .

theorem merge_iterator_next_returns_witness:
  "\<exists>m'. mi_next list_iter_ops \<lparr>mi_iters = [(1, [([2], [99])])], mi_current = Some (0, [([2], [20]), ([3], [30])])\<rparr>
     = Some (m', None)"
proof -
  let ?m = "\<lparr>mi_iters = [(1, [([2], [99])])], mi_current = Some (0, [([2], [20]), ([3], [30])])\<rparr> :: kv list merge_iter"
  have "mi_inv list_iter_ops keys_ascending ?m"
    by (simp add: mi_inv_def mi_entries_def hw_less_def list_iter_ops_def)
  moreover have "it_is_valid (mi_ops list_iter_ops) ?m" by (simp add: mi_ops_def list_iter_ops_def)
  ultimately show ?thesis using merge_iterator_next_returns [OF list_iter_sound] by blast
qed

text \<open>C22: from every state of the merge over such sources that keeps the invariant, the
  caller's loop \<open>while it.is_valid() { it.next()? }\<close> ends: after as many calls of
  \<open>next\<close> as the merged view has pairs the iterator is exhausted, having yielded them all.\<close>

theorem merge_iterator_drains:
  assumes "sound ops I view" and "mi_inv ops I m"
  shows "drain (mi_ops ops) (length (mi_view view m)) m = Some (Inr (mi_view view m))"
  using drain_sound [OF mi_sound [OF assms(1)] assms(2)] .

theorem merge_iterator_drains_witness:
  "drain (mi_ops list_iter_ops) 3
     \<lparr>mi_iters = [(1, [([2], [99])])], mi_current = Some (0, [([2], [20]), ([3], [30])])\<rparr> =
   Some (Inr [([2], [20]), ([3], [30])])"
proof -
  let ?m = "\<lparr>mi_iters = [(1, [([2], [99])])], mi_current = Some (0, [([2], [20]), ([3], [30])])\<rparr> :: kv list merge_iter"
  have inv: "mi_inv list_iter_ops keys_ascending ?m"
    by (simp add: mi_inv_def mi_entries_def hw_less_def list_iter_ops_def)
  have v: "mi_view id ?m = [([2], [20]), ([3], [30])]"
    by (simp add: mi_view_def mi_entries_def mi_abs_def merged_def)
  have "drain (mi_ops list_iter_ops) (length (mi_view id ?m)) ?m = Some (Inr (mi_view id ?m))"
    using merge_iterator_drains [OF list_iter_sound inv] .
  then have "drain (mi_ops list_iter_ops) 2 ?m = Some (Inr [([2], [20]), ([3], [30])])"
    unfolding v by (simp add: numeral_2_eq_2 del: drain.simps)
  then show ?thesis using drain_more_fuel [of "mi_ops list_iter_ops" 2 ?m _ 1] by simp
qed

text \<open>C23: an error of a source's \<open>next\<close> inside the \<open>peek_mut\<close> loop is returned by
  \<open>MergeIterator::next\<close>, with that source popped off the heap (\<open>PeekMut::pop\<close>) and the
  current source untouched, and the state left behind keeps the invariant.\<close>

theorem merge_iterator_next_error:
  assumes inv: "mi_inv ops I m" and cur: "mi_current m = Some (ci, c)"
    and top: "heap_peek ops (mi_iters m) = Some (i, x)" and key: "it_key ops x = it_key ops c"
    and fail: "it_next ops x = Some (x', Some e)"
  shows "mi_next ops m = Some (m\<lparr>mi_iters := heap_remove i (mi_iters m)\<rparr>, Some e) \<and>
         mi_inv ops I (m\<lparr>mi_iters := heap_remove i (mi_iters m)\<rparr>)"
proof
  have "mi_skip ops (it_key ops c) (mi_iters m) = Some (heap_remove i (mi_iters m), Some e)"
    using top key fail by (subst mi_skip.simps) simp
  then show "mi_next ops m = Some (m\<lparr>mi_iters := heap_remove i (mi_iters m)\<rparr>, Some e)"
    using cur by (simp add: mi_next_def)
  have "distinct (map fst (c' # heap_remove i h))" if "distinct (map fst (c' # h))" for c' and h :: "(nat \<times> 'a) list"
    using that distinct_heap_remove by (auto simp: set_heap_remove)
  then show "mi_inv ops I (m\<lparr>mi_iters := heap_remove i (mi_iters m)\<rparr>)"
    using inv cur by (auto simp: mi_inv_def mi_entries_def set_heap_remove heap_remove_def)
qed

theorem merge_iterator_next_error_witness:
  "mi_next (list_iter_ops\<lparr>it_next := (\<lambda>xs. Some (tl xs, Some Io_error))\<rparr>)
     \<lparr>mi_iters = [(1, [([2], [99])])], mi_current = Some (0, [([2], [20]), ([3], [30])])\<rparr> =
   Some (\<lparr>mi_iters = [], mi_current = Some (0, [([2], [20]), ([3], [30])])\<rparr>, Some Io_error)"
proof -
  let ?ops = "list_iter_ops\<lparr>it_next := (\<lambda>xs. Some (tl xs, Some Io_error))\<rparr>"
  let ?m = "\<lparr>mi_iters = [(1, [([2], [99])])], mi_current = Some (0, [([2], [20]), ([3], [30])])\<rparr> :: kv list merge_iter"
  have inv: "mi_inv ?ops keys_ascending ?m"
    by (simp add: mi_inv_def mi_entries_def hw_less_def list_iter_ops_def)
  have top: "heap_peek ?ops (mi_iters ?m) = Some (1, [([2], [99])])" by simp
  have key: "it_key ?ops [([2], [99])] = it_key ?ops [([2], [20]), ([3], [30])]" by (simp add: list_iter_ops_def)
  have fail: "it_next ?ops [([2], [99])] = Some ([], Some Io_error)" by simp
  have "mi_next ?ops ?m = Some (?m\<lparr>mi_iters := heap_remove 1 (mi_iters ?m)\<rparr>, Some Io_error)"
    using merge_iterator_next_error [OF inv _ top key fail] by simp
  then show ?thesis by (simp add: heap_remove_def)
qed

text \<open>C24: the order of \<open>HeapWrapper\<close> is the strict total order that \<open>BinaryHeap\<close> requires
  of an \<open>Ord\<close> implementation, on elements with distinct indices: irreflexive, transitive,
  and relating any two of them; the merge iterator numbers its sources apart, so its heap
  is always ordered.\<close>

theorem heap_wrapper_order:
  "\<not> hw_less ops a a \<and>
   (hw_less ops a b \<longrightarrow> hw_less ops b c \<longrightarrow> hw_less ops a c) \<and>
   (fst a \<noteq> fst b \<longrightarrow> hw_less ops a b \<or> hw_less ops b a)"
  using hw_less_asym [of ops a a] hw_less_trans [of ops a b c] hw_less_total [of a b ops] by blast

theorem heap_wrapper_order_witness:
  "hw_less list_iter_ops (1, [([2], [99])]) (0, [([2], [20])]) \<and>
   \<not> hw_less list_iter_ops (0, [([2], [20])]) (1, [([2], [99])]) \<and>
   hw_less list_iter_ops (1, [([3], [30])]) (0, [([2], [20])])"
proof -
  have "fst (1::nat, [([2], [99])] :: kv list) \<noteq> fst (0::nat, [([2], [20])] :: kv list)" by simp
  then have "hw_less list_iter_ops (1, [([2], [99])]) (0, [([2], [20])]) \<or>
      hw_less list_iter_ops (0, [([2], [20])]) (1, [([2], [99])])"
    using heap_wrapper_order [of list_iter_ops "(1, [([2], [99])])" "(0, [([2], [20])])"] by blast
  then show ?thesis by (simp add: hw_less_def list_iter_ops_def)
qed


text \<open>C26: a merge created over sources that keep the iterator contract is valid exactly
  when one of its sources is: over no sources, or over sources that are all exhausted,
  it starts invalid and yields nothing (spec section 8), and otherwise the \<open>unwrap\<close> of
  \<open>create\<close>'s \<open>pop\<close> finds a current source.\<close>

theorem merge_iterator_create_valid:
  assumes snd: "sound ops I view" and its: "\<forall>x \<in> set its. I x"
  shows "it_is_valid (mi_ops ops) (mi_create ops its) \<longleftrightarrow> (\<exists>x \<in> set its. it_is_valid ops x)"
proof -
  have c: "mi_inv ops I (mi_create ops its)" "mi_view view (mi_create ops its) = merge_all (map view its)"
    using mi_create_spec [OF assms] by simp_all
  have "(\<exists>x \<in> set its. it_is_valid ops x) \<longleftrightarrow> (\<exists>x \<in> set its. view x \<noteq> [])"
    using lawful_valid [OF sound_lawful [OF snd]] its by blast
  then show ?thesis using mi_valid_view [OF snd c(1)] c(2) by (simp add: merge_all_Nil_iff)
qed

theorem merge_iterator_create_valid_witness:
  "\<not> it_is_valid (mi_ops list_iter_ops) (mi_create list_iter_ops []) \<and>
   \<not> it_is_valid (mi_ops list_iter_ops) (mi_create list_iter_ops [[], []]) \<and>
   it_is_valid (mi_ops list_iter_ops) (mi_create list_iter_ops [[([97], [49])], [([97], [50])]])"
proof -
  have e: "\<forall>x \<in> set ([] :: kv list list). keys_ascending x"
    and n: "\<forall>x \<in> set ([[], []] :: kv list list). keys_ascending x"
    and s: "\<forall>x \<in> set [[([97], [49])], [([97], [50])]]. keys_ascending x" by simp_all
  show ?thesis
    using merge_iterator_create_valid [OF list_iter_sound e] merge_iterator_create_valid [OF list_iter_sound n]
      merge_iterator_create_valid [OF list_iter_sound s] by (simp add: list_iter_ops_def)
qed


text \<open>C29: the \<open>debug_assert!\<close> of the \<open>peek_mut\<close> loop fires whenever a source goes
  backwards. Take any state with a current source and a heap with distinct indices.
  Suppose the heap's top source holds the current key, and its \<open>next\<close> moves it, still
  valid, to a smaller key. Then \<open>next\<close> puts it back into the heap and panics on the next
  turn of the loop, before the current source moves, whatever the other sources hold.
  So the contract that sources ascend strictly is checked, in a debug build, at the
  first step that breaks it.\<close>

theorem merge_iterator_unsorted_source_panics:
  assumes cur: "mi_current m = Some (ci, c)" and dh: "distinct (map fst (mi_iters m))"
    and pk: "heap_peek ops (mi_iters m) = Some (i, x)" and eq: "it_key ops x = it_key ops c"
    and nx: "it_next ops x = Some (x', None)" and v: "it_is_valid ops x'"
    and below: "it_key ops x' < it_key ops c"
  shows "mi_next ops m = Some (m\<lparr>mi_iters := heap_replace i (i, x') (mi_iters m)\<rparr>, Some Panic)"
proof -
  let ?h = "mi_iters m" and ?k = "it_key ops c"
  let ?h' = "heap_replace i (i, x') ?h"
  have step: "mi_skip ops ?k ?h = mi_skip ops ?k ?h'"
    using pk eq nx v by (simp add: mi_skip.simps [of ops ?k ?h])
  have dh': "distinct (map fst ?h')" using dh by (simp add: fst_heap_replace)
  have "(i, x') \<in> set ?h'"
    using set_heap_replace [OF dh heap_peek_in [OF pk]] by simp
  then obtain j y where pk': "heap_peek ops ?h' = Some (j, y)"
    by (cases "heap_peek ops ?h'") auto
  have "it_key ops y \<le> it_key ops x'"
    using heap_top_key_le [OF dh' pk' \<open>(i, x') \<in> set ?h'\<close>] .
  then have "\<not> ?k \<le> it_key ops y" using below by simp
  then have "mi_skip ops ?k ?h' = Some (?h', Some Panic)"
    using pk' by (simp add: mi_skip.simps [of ops ?k ?h'])
  then show ?thesis using cur step by (simp add: mi_next_def)
qed

theorem merge_iterator_unsorted_source_panics_witness:
  "mi_create list_iter_ops [[([1], [10]), ([3], [30])], [([1], [11]), ([0], [12])]] =
     \<lparr>mi_iters = [(1, [([1], [11]), ([0], [12])])], mi_current = Some (0, [([1], [10]), ([3], [30])])\<rparr> \<and>
   mi_next list_iter_ops
     \<lparr>mi_iters = [(1, [([1], [11]), ([0], [12])])], mi_current = Some (0, [([1], [10]), ([3], [30])])\<rparr> =
   Some (\<lparr>mi_iters = [(1, [([0], [12])])], mi_current = Some (0, [([1], [10]), ([3], [30])])\<rparr>, Some Panic)"
proof -
  have cr: "mi_create list_iter_ops [[([1], [10]), ([3], [30])], [([1], [11]), ([0], [12])]] =
     \<lparr>mi_iters = [(1, [([1], [11]), ([0], [12])])], mi_current = Some (0, [([1], [10]), ([3], [30])])\<rparr>"
    by (simp add: mi_create_def heap_pop_def heap_remove_def hw_less_def list_iter_ops_def)
  let ?m = "\<lparr>mi_iters = [(1, [([1], [11]), ([0], [12])])], mi_current = Some (0, [([1], [10]), ([3], [30 :: byte])])\<rparr>"
  have "mi_next list_iter_ops ?m =
     Some (?m\<lparr>mi_iters := heap_replace 1 (1, [([0], [12])]) (mi_iters ?m)\<rparr>, Some Panic)"
    by (rule merge_iterator_unsorted_source_panics [of ?m 0 "[([1], [10]), ([3], [30])]" list_iter_ops 1
        "[([1], [11]), ([0], [12])]" "[([0], [12])]"]) (simp_all add: list_iter_ops_def)
  then show ?thesis using cr by (simp add: heap_replace_def)
qed

text \<open>C33: the order the merge is proved over is the code's: \<open>hw_less a b\<close> holds exactly
  when \<open>HeapWrapper::partial_cmp a b\<close> is \<open>Some Less\<close>, so \<open>BinaryHeap\<close>'s \<open>a < b\<close> on the
  wrappers is the reversed order of (key, index).\<close>

theorem hw_less_partial_cmp:
  "hw_less ops a b \<longleftrightarrow> hw_partial_cmp ops a b = Some Less"
  by (auto simp: hw_partial_cmp_eq hw_less_def)

text \<open>C34: \<open>HeapWrapper\<close>'s trait implementations agree, as \<open>Ord\<close> and \<open>Eq\<close> require.
  \<open>cmp\<close> never panics on its \<open>unwrap\<close>. \<open>partial_cmp\<close> is antisymmetric: swapping the
  arguments reverses the result. \<open>eq\<close> holds exactly when both index and key agree, and
  it is \<open>cmp = Equal\<close>.\<close>

theorem hw_ord_laws:
  "hw_cmp ops a b \<noteq> Inl Panic \<and>
   hw_partial_cmp ops b a = map_option ord_reverse (hw_partial_cmp ops a b) \<and>
   hw_eq ops a b = Inr (fst a = fst b \<and> it_key ops (snd a) = it_key ops (snd b)) \<and>
   hw_eq ops a b = map_sum id (\<lambda>r. r = Equal) (hw_cmp ops a b)"
  by (auto simp: hw_cmp_def hw_eq_def hw_partial_cmp_eq)

end
