(* ===== verification/Read_Path.thy ===== *)
theory Read_Path
  imports Table_Iterator Merge_Iterator
begin

text \<open>
  The read path of the spec's data flow: SSTables built by \<open>SsTableBuilder\<close>, read by
  \<open>SsTableIterator\<close>s, merged by \<open>MergeIterator\<close>. \<open>sst_blocks t\<close> is the list of the pair
  lists a table's blocks read back as through \<open>read_block_cached\<close>; with it one invariant
  \<open>sst_ok\<close> and one view \<open>sst_abs\<close> serve iterators over different tables, so that the
  table iterator is a \<open>sound\<close> source of the generic merge.
\<close>

definition sst_blocks :: "sstable \<Rightarrow> kv list list" where
  "sst_blocks t =
     map (\<lambda>i. case read_block_cached t i of
                Inr b \<Rightarrow> (case block_entries b of Some es \<Rightarrow> es | None \<Rightarrow> [])
              | Inl _ \<Rightarrow> [])
         [0..<num_of_blocks t]"

definition sst_ok :: "sst_iter \<Rightarrow> bool" where
  "sst_ok s \<longleftrightarrow>
     table_holds (si_table s) (sst_blocks (si_table s)) \<and> blocks_ok (sst_blocks (si_table s)) \<and>
     keys_ascending (concat (sst_blocks (si_table s))) \<and> si_inv (si_table s) (sst_blocks (si_table s)) s"

definition sst_abs :: "sst_iter \<Rightarrow> kv list" where
  "sst_abs s = si_view (sst_blocks (si_table s)) s"

definition built_from :: "kv list \<Rightarrow> sstable \<Rightarrow> bool" where
  "built_from ps t \<longleftrightarrow>
     pairs_ok ps \<and> keys_ascending ps \<and> ps \<noteq> [] \<and> cache_ok t \<and>
     (\<exists>n sb table_id block_cache (path :: string).
        sb_add_all (sb_new n) ps = Some sb \<and> sb_build sb table_id block_cache path = Inr t)"

lemma sst_blocks_holds: "table_holds t bss \<Longrightarrow> sst_blocks t = bss"
  by (auto simp: table_holds_def sst_blocks_def intro!: nth_equalityI)

lemma si_view_suffix:
  assumes inv: "si_inv t bss s" and ok: "blocks_ok bss"
  shows "\<exists>pre. concat bss = pre @ si_view bss s"
proof (cases "si_blk_idx s < length bss")
  case True
  let ?i = "si_blk_idx s"
  have bi: "bi_inv (block_of_entries (bss ! ?i)) (bss ! ?i) (si_blk_iter s)"
    using inv True by (simp add: si_inv_def)
  have keys: "\<forall>e \<in> set (bss ! ?i). fst e \<noteq> []" using ok nth_mem [OF True] unfolding blocks_ok_def by blast
  have "\<forall>e \<in> set (drop (bi_idx (si_blk_iter s)) (bss ! ?i)). fst e \<noteq> []"
  proof
    fix e assume "e \<in> set (drop (bi_idx (si_blk_iter s)) (bss ! ?i))"
    then have "e \<in> set (bss ! ?i)" by (rule in_set_dropD)
    then show "fst e \<noteq> []" using keys by blast
  qed
  then have tw: "takeWhile (\<lambda>e. fst e \<noteq> []) (drop (bi_idx (si_blk_iter s)) (bss ! ?i)) =
      drop (bi_idx (si_blk_iter s)) (bss ! ?i)"
    by (simp add: takeWhile_eq_all_conv)
  obtain d where d: "bi_view (bss ! ?i) (si_blk_iter s) = drop d (bss ! ?i)"
  proof (cases "bi_key (si_blk_iter s) = []")
    case True
    then show ?thesis using that [of "length (bss ! ?i)"] by (simp add: bi_view_def)
  next
    case False
    then show ?thesis using that [of "bi_idx (si_blk_iter s)"] tw by (simp add: bi_view_def)
  qed
  have "concat bss = (concat (take ?i bss) @ take d (bss ! ?i)) @ si_view bss s"
    using concat_split_nth [OF True] d True by (simp add: si_view_def)
  then show ?thesis by blast
qed (simp add: si_view_def)

text \<open>Over tables whose blocks read back as non-empty lists of pairs in strictly
  ascending key order, the table iterator is a sound source.\<close>

lemma sst_sound: "sound sst_iter_ops sst_ok sst_abs"
proof -
  have lw: "lawful sst_iter_ops sst_ok sst_abs"
    unfolding lawful_def
  proof (intro allI impI conjI)
    fix s assume ok: "sst_ok s"
    let ?t = "si_table s" and ?bss = "sst_blocks (si_table s)"
    have h: "table_holds ?t ?bss" "blocks_ok ?bss" "si_inv ?t ?bss s"
      using ok by (simp_all add: sst_ok_def)
    note L = sst_iter_lawful [OF h(1,2)]
    show "it_is_valid sst_iter_ops s \<longleftrightarrow> sst_abs s \<noteq> []"
      using lawful_valid [OF L h(3)] by (simp add: sst_abs_def)
    show "(it_key sst_iter_ops s, it_value sst_iter_ops s) = hd (sst_abs s)" if "sst_abs s \<noteq> []"
      using lawful_head [OF L h(3)] that by (simp add: sst_abs_def)
    fix s' assume ne: "sst_abs s \<noteq> []" and nx: "it_next sst_iter_ops s = Some (s', None)"
    have r: "si_inv ?t ?bss s' \<and> si_view ?bss s' = tl (si_view ?bss s)"
      using lawful_next [OF L h(3) _ nx] ne by (simp add: sst_abs_def)
    then have t': "si_table s' = ?t" by (simp add: si_inv_def)
    show "sst_ok s'" using ok r t' by (simp add: sst_ok_def)
    show "sst_abs s' = tl (sst_abs s)" using r t' by (simp add: sst_abs_def)
  qed
  have tot: "\<forall>s. sst_ok s \<longrightarrow> it_is_valid sst_iter_ops s \<longrightarrow> (\<exists>s'. it_next sst_iter_ops s = Some (s', None))"
    using sst_next_total by (auto simp: sst_ok_def)
  have asc: "\<forall>s. sst_ok s \<longrightarrow> keys_ascending (sst_abs s)"
  proof (intro allI impI)
    fix s assume ok: "sst_ok s"
    obtain pre where "concat (sst_blocks (si_table s)) = pre @ sst_abs s"
      using si_view_suffix [of "si_table s" "sst_blocks (si_table s)" s] ok by (auto simp: sst_ok_def sst_abs_def)
    then show "keys_ascending (sst_abs s)" using ok by (metis sst_ok_def map_append sorted_wrt_append)
  qed
  show ?thesis using lw tot asc by (simp add: sound_def)
qed

text \<open>An SSTable built from a non-empty list of pairs in strictly ascending key order
  yields, through \<open>create_and_seek_to_first\<close>, an iterator that keeps \<open>sst_ok\<close> and
  presents the whole list.\<close>

lemma built_sst_iter:
  assumes ok: "pairs_ok ps" and asc: "keys_ascending ps" and ne: "ps \<noteq> []"
    and add: "sb_add_all (sb_new n) ps = Some sb" and bld: "sb_build sb table_id block_cache path = Inr t"
    and cache: "cache_ok t"
  shows "\<exists>s. si_create_and_seek_to_first t = Inr s \<and> sst_ok s \<and> sst_abs s = ps"
proof -
  obtain bs cur where repr: "sb_repr sb bs cur" and ps: "concat (bs @ [cur]) = ps"
    and shape: "bs = [] \<and> cur = [] \<or> cur \<noteq> []"
    using sb_add_all_new [OF ok add] by blast
  have cur: "cur \<noteq> []" using shape ps ne by auto
  have hold: "table_holds t (bs @ [cur])" using built_table_holds [OF repr bld cache] .
  have bok: "blocks_ok (bs @ [cur])" using built_blocks_ok [OF repr cur] .
  obtain s where cr: "si_create_and_seek_to_first t = Inr s" and inv: "si_inv t (bs @ [cur]) s"
    and vw: "si_view (bs @ [cur]) s = concat (bs @ [cur])"
    using si_first [OF hold bok] by blast
  have t: "si_table s = t" using inv by (simp add: si_inv_def)
  have blk: "sst_blocks t = bs @ [cur]" using sst_blocks_holds [OF hold] .
  have "sst_ok s" using hold bok inv asc ps t blk by (simp add: sst_ok_def)
  moreover have "sst_abs s = ps" using vw ps t blk by (simp add: sst_abs_def)
  ultimately show ?thesis using cr by blast
qed

lemma built_sst_iters:
  "list_all2 built_from pss ts \<Longrightarrow>
     \<exists>its. map si_create_and_seek_to_first ts = map Inr its \<and> map sst_abs its = pss \<and> (\<forall>s \<in> set its. sst_ok s)"
proof (induction rule: list_all2_induct)
  case (Cons ps pss t ts)
  obtain its where ih: "map si_create_and_seek_to_first ts = map Inr its" "map sst_abs its = pss"
      "\<forall>s \<in> set its. sst_ok s"
    using Cons.IH by blast
  obtain s where s: "si_create_and_seek_to_first t = Inr s" "sst_ok s" "sst_abs s = ps"
    using Cons.hyps(1) built_sst_iter unfolding built_from_def by metis
  show ?case by (rule exI [of _ "s # its"]) (simp add: ih s)
qed simp

text \<open>C27: the read path. SSTables built by \<open>SsTableBuilder\<close> from non-empty lists of
  pairs in strictly ascending key order, opened with
  \<open>SsTableIterator::create_and_seek_to_first\<close> and merged by \<open>MergeIterator::create\<close>
  in the order given, scan to the merge of the lists: every key once, in ascending order,
  with the value of the first table that holds it (the newest-wins order of spec
  section 4.6 when the tables are passed newest first).\<close>

theorem read_path_merge:
  assumes "list_all2 built_from pss ts"
  shows "\<exists>its. map si_create_and_seek_to_first ts = map Inr its \<and>
           drain (mi_ops sst_iter_ops) (length (merge_all pss)) (mi_create sst_iter_ops its) =
             Some (Inr (merge_all pss))"
proof -
  obtain its where cr: "map si_create_and_seek_to_first ts = map Inr its"
    and vw: "map sst_abs its = pss" and ok: "\<forall>s \<in> set its. sst_ok s"
    using built_sst_iters [OF assms] by blast
  have c: "mi_inv sst_iter_ops sst_ok (mi_create sst_iter_ops its)"
    "mi_view sst_abs (mi_create sst_iter_ops its) = merge_all pss"
    using mi_create_spec [OF sst_sound ok] vw by simp_all
  show ?thesis using cr drain_sound [OF mi_sound [OF sst_sound] c(1)] c(2) by auto
qed

theorem read_path_merge_witness:
  "\<exists>t1 t2 its.
     sb_build (the (sb_add_all (sb_new 16) [([1], [10]), ([3], [30])])) 1 None ''t1'' = Inr t1 \<and>
     sb_build (the (sb_add_all (sb_new 16) [([1], [99]), ([2], [20])])) 2 None ''t2'' = Inr t2 \<and>
     map si_create_and_seek_to_first [t1, t2] = map Inr its \<and>
     drain (mi_ops sst_iter_ops) 3 (mi_create sst_iter_ops its) = Some (Inr [([1], [10]), ([2], [20]), ([3], [30])])"
proof -
  let ?p1 = "[([1], [10]), ([3], [30])] :: kv list" and ?p2 = "[([1], [99]), ([2], [20])] :: kv list"
  obtain sb1 t1 where a1: "sb_add_all (sb_new 16) ?p1 = Some sb1" and b1: "sb_build sb1 1 None ''t1'' = Inr t1"
    and c1: "sst_block_cache t1 = None"
  proof -
    have "\<exists>sb t. sb_add_all (sb_new 16) ?p1 = Some sb \<and> sb_build sb 1 None ''t1'' = Inr t \<and> sst_block_cache t = None"
      by (simp add: sb_eval_simps)
    then show ?thesis using that by blast
  qed
  obtain sb2 t2 where a2: "sb_add_all (sb_new 16) ?p2 = Some sb2" and b2: "sb_build sb2 2 None ''t2'' = Inr t2"
    and c2: "sst_block_cache t2 = None"
  proof -
    have "\<exists>sb t. sb_add_all (sb_new 16) ?p2 = Some sb \<and> sb_build sb 2 None ''t2'' = Inr t \<and> sst_block_cache t = None"
      by (simp add: sb_eval_simps)
    then show ?thesis using that by blast
  qed
  have e1: "\<exists>n sb table_id block_cache (path :: string).
      sb_add_all (sb_new n) ?p1 = Some sb \<and> sb_build sb table_id block_cache path = Inr t1"
    using a1 b1 by blast
  have "pairs_ok ?p1 \<and> keys_ascending ?p1 \<and> ?p1 \<noteq> [] \<and> cache_ok t1"
    using c1 by (simp add: pairs_ok_def cache_ok_def)
  then have "built_from ?p1 t1" unfolding built_from_def using e1 by blast
  have e2: "\<exists>n sb table_id block_cache (path :: string).
      sb_add_all (sb_new n) ?p2 = Some sb \<and> sb_build sb table_id block_cache path = Inr t2"
    using a2 b2 by blast
  have "pairs_ok ?p2 \<and> keys_ascending ?p2 \<and> ?p2 \<noteq> [] \<and> cache_ok t2"
    using c2 by (simp add: pairs_ok_def cache_ok_def)
  then have "built_from ?p2 t2" unfolding built_from_def using e2 by blast
  moreover note \<open>built_from ?p1 t1\<close>
  ultimately have "list_all2 built_from [?p1, ?p2] [t1, t2]" by simp
  then obtain its where "map si_create_and_seek_to_first [t1, t2] = map Inr its"
      "drain (mi_ops sst_iter_ops) (length (merge_all [?p1, ?p2])) (mi_create sst_iter_ops its) =
         Some (Inr (merge_all [?p1, ?p2]))"
    using read_path_merge by blast
  moreover have "merge_all [?p1, ?p2] = [([1], [10]), ([2], [20]), ([3], [30])]" by simp
  ultimately show ?thesis using a1 a2 b1 b2 by (metis numeral_3_eq_3 length_Cons list.size(3) option.sel)
qed

end
