(* ===== verification/Block_Cache.thy ===== *)
theory Block_Cache
  imports Table
begin

text \<open>
  The block cache shared by several tables (spec sections 5 and 6), as a state machine
  over the cache contents. A step is one atomic operation of the cache: a table's
  \<open>read_block_cached\<close>, which runs \<open>try_get_with\<close> under the key \<open>(table id, block index)\<close>
  and leaves the cache \<open>try_get_with\<close> returns, or an eviction of any entry (moka's
  eviction policy is out of scope, so every entry may go at any time). Concurrent
  callers are interleavings of these atomic steps, as the get-or-compute contract
  makes each of them atomic. The invariant \<open>caches_consistent\<close> says that every table
  finds in the cache only blocks its own \<open>read_block\<close> returns; every step keeps it when
  the tables' ids are distinct, so every cached read returns what an uncached read
  returns.
\<close>

inductive cache_step :: "sstable list \<Rightarrow> block_cache \<Rightarrow> block_cache \<Rightarrow> bool" where
  read: "t \<in> set ts \<Longrightarrow> cache_step ts c (snd (try_get_with c (sst_id t, i) (read_block t i)))"
| evict: "cache_step ts c (c(k := None))"

inductive cache_reachable :: "sstable list \<Rightarrow> block_cache \<Rightarrow> bool" where
  empty: "cache_reachable ts Map.empty"
| step: "cache_reachable ts c \<Longrightarrow> cache_step ts c c' \<Longrightarrow> cache_reachable ts c'"

definition caches_consistent :: "sstable list \<Rightarrow> block_cache \<Rightarrow> bool" where
  "caches_consistent ts c \<longleftrightarrow> (\<forall>t \<in> set ts. cache_consistent t c)"

inductive_cases cache_step_cases: "cache_step ts c c'"

lemma try_get_with_other:
  "fst k \<noteq> sst_id t \<Longrightarrow> cache_consistent t c \<Longrightarrow> cache_consistent t (snd (try_get_with c k init))"
  by (auto simp: try_get_with_def cache_consistent_def split: option.splits sum.splits)

lemma cache_step_consistent:
  assumes step: "cache_step ts c c'" and ids: "distinct (map sst_id ts)" and inv: "caches_consistent ts c"
  shows "caches_consistent ts c'"
  using step
proof (cases rule: cache_step.cases)
  case (read t i)
  show ?thesis unfolding caches_consistent_def
  proof
    fix u assume u: "u \<in> set ts"
    have cu: "cache_consistent u c" using inv u by (simp add: caches_consistent_def)
    show "cache_consistent u c'"
    proof (cases "sst_id u = sst_id t")
      case True
      then have "u = t" using ids u read(2) by (metis distinct_map inj_onD)
      then show ?thesis using try_get_with_consistent(2) [OF cu] read(1) by simp
    next
      case False
      then show ?thesis using try_get_with_other [of "(sst_id t, i)" u c] cu read(1) by simp
    qed
  qed
next
  case (evict k)
  then show ?thesis using inv by (auto simp: caches_consistent_def cache_consistent_def)
qed

lemma cache_reachable_consistent:
  "cache_reachable ts c \<Longrightarrow> distinct (map sst_id ts) \<Longrightarrow> caches_consistent ts c"
proof (induction rule: cache_reachable.induct)
  case empty
  then show ?case by (simp add: caches_consistent_def cache_consistent_def)
next
  case (step c c')
  then show ?case using cache_step_consistent by blast
qed


lemma read_block_cache_indep [simp]: "read_block (t\<lparr>sst_block_cache := x\<rparr>) i = read_block t i"
  by (simp add: read_block_def Let_def split: option.split sum.split)

text \<open>C31: however the reads of the tables sharing one block cache and the cache's
  evictions interleave, as long as the tables' ids are distinct every
  \<open>read_block_cached\<close> returns exactly what \<open>read_block\<close> returns, block or error.\<close>

theorem shared_cache_reads_agree:
  assumes "cache_reachable ts c" and "distinct (map sst_id ts)" and "t \<in> set ts"
  shows "read_block_cached (t\<lparr>sst_block_cache := Some c\<rparr>) i = read_block t i"
proof -
  have "cache_consistent t c"
    using cache_reachable_consistent [OF assms(1,2)] assms(3) by (simp add: caches_consistent_def)
  then show ?thesis using try_get_with_consistent(1) [of t c i] by (simp add: read_block_cached_def)
qed

theorem shared_cache_reads_agree_witness:
  "read_block_cached
     (\<lparr>sst_file = \<lparr>fo_data = [0, 1, 1, 0, 1, 2, 0, 0, 0, 1, 0, 0, 0, 0, 0, 1, 1, 0, 0, 0, 10], fo_size = 21\<rparr>,
       sst_block_metas = [\<lparr>bm_offset = 0, bm_first_key = [1]\<rparr>], sst_block_meta_offset = 10, sst_id = 8,
       sst_block_cache = None\<rparr>\<lparr>sst_block_cache := Some
         (snd (try_get_with Map.empty (7, 0)
            (read_block \<lparr>sst_file = \<lparr>fo_data = [0, 1, 1, 0, 1, 3, 0, 0, 0, 1, 0, 0, 0, 0, 0, 1, 1, 0, 0, 0, 10], fo_size = 21\<rparr>,
               sst_block_metas = [\<lparr>bm_offset = 0, bm_first_key = [1]\<rparr>], sst_block_meta_offset = 10, sst_id = 7,
               sst_block_cache = None\<rparr> 0)))\<rparr>) 0
   = Inr \<lparr>blk_data = [0, 1, 1, 0, 1, 2], blk_offsets = [0]\<rparr>"
proof -
  let ?f8 = "\<lparr>fo_data = [0, 1, 1, 0, 1, 2, 0, 0, 0, 1, 0, 0, 0, 0, 0, 1, 1, 0, 0, 0, 10], fo_size = 21\<rparr>"
  let ?f7 = "\<lparr>fo_data = [0, 1, 1, 0, 1, 3, 0, 0, 0, 1, 0, 0, 0, 0, 0, 1, 1, 0, 0, 0, 10], fo_size = 21\<rparr>"
  let ?t8 = "\<lparr>sst_file = ?f8, sst_block_metas = [\<lparr>bm_offset = 0, bm_first_key = [1]\<rparr>], sst_block_meta_offset = 10,
     sst_id = 8, sst_block_cache = None\<rparr>"
  let ?t7 = "\<lparr>sst_file = ?f7, sst_block_metas = [\<lparr>bm_offset = 0, bm_first_key = [1]\<rparr>], sst_block_meta_offset = 10,
     sst_id = 7, sst_block_cache = None\<rparr>"
  let ?c = "snd (try_get_with Map.empty (7, 0) (read_block ?t7 0))"
  have "cache_step [?t7, ?t8] Map.empty (snd (try_get_with Map.empty (sst_id ?t7, 0) (read_block ?t7 0)))"
    using cache_step.read [of ?t7 "[?t7, ?t8]" Map.empty 0] by simp
  then have "cache_step [?t7, ?t8] Map.empty ?c" by simp
  then have r: "cache_reachable [?t7, ?t8] ?c" by (rule cache_reachable.step [OF cache_reachable.empty])
  have "read_block_cached (?t8\<lparr>sst_block_cache := Some ?c\<rparr>) 0 = read_block ?t8 0"
    by (rule shared_cache_reads_agree [OF r]) simp_all
  also have "\<dots> = Inr \<lparr>blk_data = [0, 1, 1, 0, 1, 2], blk_offsets = [0]\<rparr>"
    by (simp add: read_block_def fo_read_def chk_sub_def block_decode_def decode_offsets.simps)
  finally show ?thesis .
qed

text \<open>C32: the distinct ids are needed. Take any reachable cache that does not hold block
  \<open>i\<close> of table A, where A's own read of that block succeeds. A's cached read stores the
  block, and the cache it leaves is reachable. From then on, every table B with the same
  id reads A's block as its own block \<open>i\<close>, whatever B's file holds.\<close>

theorem shared_cache_same_id_stale:
  assumes reach: "cache_reachable ts c" and ta: "ta \<in> set ts" and same: "sst_id tb = sst_id ta"
    and miss: "c (sst_id ta, i) = None" and ra: "read_block ta i = Inr blk"
  shows "cache_reachable ts (c((sst_id ta, i) \<mapsto> blk)) \<and>
         read_block_cached (tb\<lparr>sst_block_cache := Some (c((sst_id ta, i) \<mapsto> blk))\<rparr>) i = Inr blk"
proof
  have "cache_step ts c (snd (try_get_with c (sst_id ta, i) (read_block ta i)))"
    using ta by (rule cache_step.read)
  then show "cache_reachable ts (c((sst_id ta, i) \<mapsto> blk))"
    using cache_reachable.step [OF reach] miss ra by (simp add: try_get_with_def)
next
  show "read_block_cached (tb\<lparr>sst_block_cache := Some (c((sst_id ta, i) \<mapsto> blk))\<rparr>) i = Inr blk"
    using same by (simp add: read_block_cached_def try_get_with_def)
qed

theorem shared_cache_same_id_stale_witness:
  "cache_reachable
     [\<lparr>sst_file = \<lparr>fo_data = [0, 1, 1, 0, 1, 2, 0, 0, 0, 1, 0, 0, 0, 0, 0, 1, 1, 0, 0, 0, 10], fo_size = 21\<rparr>,
       sst_block_metas = [\<lparr>bm_offset = 0, bm_first_key = [1]\<rparr>], sst_block_meta_offset = 10, sst_id = 7,
       sst_block_cache = None\<rparr>,
      \<lparr>sst_file = \<lparr>fo_data = [0, 1, 1, 0, 1, 3, 0, 0, 0, 1, 0, 0, 0, 0, 0, 1, 1, 0, 0, 0, 10], fo_size = 21\<rparr>,
       sst_block_metas = [\<lparr>bm_offset = 0, bm_first_key = [1]\<rparr>], sst_block_meta_offset = 10, sst_id = 7,
       sst_block_cache = None\<rparr>]
     [(7, 0) \<mapsto> \<lparr>blk_data = [0, 1, 1, 0, 1, 2], blk_offsets = [0]\<rparr>] \<and>
   read_block_cached
     \<lparr>sst_file = \<lparr>fo_data = [0, 1, 1, 0, 1, 3, 0, 0, 0, 1, 0, 0, 0, 0, 0, 1, 1, 0, 0, 0, 10], fo_size = 21\<rparr>,
      sst_block_metas = [\<lparr>bm_offset = 0, bm_first_key = [1]\<rparr>], sst_block_meta_offset = 10, sst_id = 7,
      sst_block_cache = Some [(7, 0) \<mapsto> \<lparr>blk_data = [0, 1, 1, 0, 1, 2], blk_offsets = [0]\<rparr>]\<rparr> 0
     = Inr \<lparr>blk_data = [0, 1, 1, 0, 1, 2], blk_offsets = [0]\<rparr> \<and>
   read_block
     \<lparr>sst_file = \<lparr>fo_data = [0, 1, 1, 0, 1, 3, 0, 0, 0, 1, 0, 0, 0, 0, 0, 1, 1, 0, 0, 0, 10], fo_size = 21\<rparr>,
      sst_block_metas = [\<lparr>bm_offset = 0, bm_first_key = [1]\<rparr>], sst_block_meta_offset = 10, sst_id = 7,
      sst_block_cache = None\<rparr> 0
     = Inr \<lparr>blk_data = [0, 1, 1, 0, 1, 3], blk_offsets = [0]\<rparr>"
proof -
  let ?ta = "\<lparr>sst_file = \<lparr>fo_data = [0, 1, 1, 0, 1, 2, 0, 0, 0, 1, 0, 0, 0, 0, 0, 1, 1, 0, 0, 0, 10], fo_size = 21\<rparr>,
     sst_block_metas = [\<lparr>bm_offset = 0, bm_first_key = [1]\<rparr>], sst_block_meta_offset = 10, sst_id = 7,
     sst_block_cache = None\<rparr>"
  let ?tb = "\<lparr>sst_file = \<lparr>fo_data = [0, 1, 1, 0, 1, 3, 0, 0, 0, 1, 0, 0, 0, 0, 0, 1, 1, 0, 0, 0, 10], fo_size = 21\<rparr>,
     sst_block_metas = [\<lparr>bm_offset = 0, bm_first_key = [1]\<rparr>], sst_block_meta_offset = 10, sst_id = 7,
     sst_block_cache = None\<rparr>"
  let ?blk = "\<lparr>blk_data = [0, 1, 1, 0, 1, 2 :: byte], blk_offsets = [0 :: 16 word]\<rparr>"
  have ra: "read_block ?ta 0 = Inr ?blk"
    by (simp add: read_block_def fo_read_def chk_sub_def block_decode_def decode_offsets.simps)
  have "cache_reachable [?ta, ?tb] (Map.empty((sst_id ?ta, 0) \<mapsto> ?blk)) \<and>
      read_block_cached (?tb\<lparr>sst_block_cache := Some (Map.empty((sst_id ?ta, 0) \<mapsto> ?blk))\<rparr>) 0 = Inr ?blk"
    by (rule shared_cache_same_id_stale [OF cache_reachable.empty _ _ _ ra]) simp_all
  moreover have "read_block ?tb 0 = Inr \<lparr>blk_data = [0, 1, 1, 0, 1, 3], blk_offsets = [0]\<rparr>"
    by (simp add: read_block_def fo_read_def chk_sub_def block_decode_def decode_offsets.simps)
  ultimately show ?thesis by simp
qed

end
