(* ===== verification/Spec2Isabelle.thy ===== *)
theory Spec2Isabelle
  imports Block_Builder Block_Iterator Table Table_Builder Table_Iterator Two_Merge_Iterator Merge_Iterator Read_Path Block_Cache
begin

text \<open>
  A shallow embedding of the storage layer and read-path iterators of the mini-LSM key-value
  store (\<open>src/mini-lsm-starter/src\<close>). Data flows from \<open>BlockBuilder\<close> to \<open>Block\<close>, from
  many blocks through \<open>SsTableBuilder\<close> to an SSTable file, from the file through
  \<open>SsTableIterator\<close> to the merge iterators (\<open>MergeIterator\<close>, \<open>TwoMergeIterator\<close>) and to
  the caller. Every iterator implements the \<open>StorageIterator\<close> capability, and the merge
  iterators consume it polymorphically.

  \<^bold>\<open>Theories and what they model.\<close>
  \<^item> \<open>Prelude\<close>: \<open>u8\<close>/\<open>u16\<close>/\<open>u32\<close> as \<open>8/16/32 word\<close>; byte strings ordered as Rust orders
    \<open>&[u8]\<close>; the error type (\<open>Panic\<close>, \<open>Io_error\<close>); the big-endian codecs of the
    \<open>bytes\<close> crate; debug-build checked addition and subtraction.
  \<^item> \<open>Block\<close> (\<open>block.rs\<close>): the \<open>Block\<close> record, \<open>encode\<close>, \<open>decode\<close>, the entry layout, and
    \<open>block_entries\<close>, the pairs a reader finds at the block's offsets.
  \<^item> \<open>Block_Builder\<close> (\<open>block/builder.rs\<close>): the builder record and \<open>new\<close>, \<open>add\<close>, \<open>is_empty\<close>,
    \<open>build\<close>; \<open>add\<close>'s \<open>u16\<close> sums are overflow-checked as in a debug build.
  \<^item> \<open>Block_Iterator\<close> (\<open>block/iterator.rs\<close>): every method, and the binary search of
    \<open>seek_to_key\<close> as a \<open>function\<close> with measure \<open>right - left\<close>.
  \<^item> \<open>Table\<close> (\<open>table.rs\<close>): \<open>BlockMeta\<close> encoding and decoding, \<open>FileObject\<close> as the file's
    bytes, \<open>SsTable::open\<close>, \<open>read_block\<close>, \<open>read_block_cached\<close>, \<open>find_block_idx\<close>.
  \<^item> \<open>Table_Builder\<close> (\<open>table/builder.rs\<close>): the builder record, \<open>add\<close> with its retry
    assertion, \<open>build_block\<close>, \<open>estimated_size\<close>, \<open>build\<close>.
  \<^item> \<open>Table_Iterator\<close> (\<open>table/iterator.rs\<close>): the iterator record, creation and seeks,
    \<open>next\<close> across block boundaries, with read errors as \<open>Inl\<close> values.
  \<^item> \<open>Storage_Iterator\<close>: the capability as a record \<open>iter_ops\<close> of \<open>key\<close>, \<open>value\<close>,
    \<open>is_valid\<close> and \<open>next\<close>, where \<open>next\<close> returns the state it leaves and an optional error,
    or \<open>None\<close> when it does not return. Also \<open>drain\<close>, the caller's loop; \<open>lawful\<close> and
    \<open>sound\<close>, the contract towards an abstract list of pairs; and \<open>list_iter_ops\<close>, a
    reference source used in the witnesses.
  \<^item> \<open>Merge_Spec\<close>: the abstract merges, \<open>merge2\<close> (the first source wins ties) and
    \<open>merge_all\<close> (the lowest index wins), characterised through \<open>map_of\<close>.
  \<^item> \<open>Two_Merge_Iterator\<close> (\<open>iterators/two_merge_iterator.rs\<close>): \<open>create\<close>, \<open>skip_b\<close>,
    \<open>select_ab\<close>, \<open>next\<close>; the \<open>skip_b\<close> loop is a \<open>partial_function (option)\<close>.
  \<^item> \<open>Merge_Iterator\<close> (\<open>iterators/merge_iterator.rs\<close>): \<open>HeapWrapper\<close>'s \<open>PartialEq\<close>,
    \<open>PartialOrd\<close> and \<open>Ord\<close> over an \<open>Ordering\<close> datatype, and the \<open>a < b\<close> they induce; the binary
    heap as the list of its elements, \<open>create\<close>, \<open>next\<close> (its \<open>peek_mut\<close> loop a
    \<open>partial_function (option)\<close>, its \<open>debug_assert!\<close> a \<open>Panic\<close>), \<open>key\<close>, \<open>value\<close> and
    \<open>is_valid\<close>.
  \<^item> \<open>Read_Path\<close>: the composition of the spec's data flow. SSTables built by
    \<open>SsTableBuilder\<close> are read by \<open>SsTableIterator\<close>s and merged by \<open>MergeIterator\<close>. One
    invariant and one view serve table iterators over different tables, through
    \<open>sst_blocks\<close>, the pair lists a table's blocks read back as.
  \<^item> \<open>Block_Cache\<close> (\<open>read_block_cached\<close> in \<open>table.rs\<close>, with the cache modelled from the
    spec): one cache shared by several tables, as the \<open>inductive\<close> step relation
    \<open>cache_step\<close>. A step is an atomic \<open>try_get_with\<close> by any table under the key
    (table id, block index), or the eviction of any entry. Concurrent callers are
    interleavings of these steps, and \<open>cache_reachable\<close> holds of the caches reachable
    from the empty cache.

  \<^bold>\<open>What the lemmas show.\<close> Each component theory has an abstraction and an invariant
  that its operations keep: \<open>bb_repr\<close>, \<open>sb_repr\<close>, \<open>si_inv\<close>, \<open>tm_inv\<close>, \<open>mi_inv\<close>.
  On that basis:
  \<^item> blocks, metadata and whole tables survive encode, decode and open;
  \<^item> the builders' failure conditions are exact: \<open>BlockBuilder::add\<close> panics on the \<open>u16\<close>
    overflow and \<open>SsTableBuilder::add\<close> on that or on its \<open>assert!\<close>; an encoded block can
    exceed its budget by less than two bytes per entry;
  \<^item> the seeks find lower bounds and predecessors;
  \<^item> the table iterator is lawful towards the concatenation of its blocks;
  \<^item> over \<open>sound\<close> sources, both merge iterators are \<open>sound\<close> towards \<open>merge2\<close> and
    \<open>merge_all\<close>, their loops end, and their \<open>next\<close> never fails;
  \<^item> the table iterator is a sound source, so the whole read path, from the builder
    to the merge, scans to the merge of the pairs the tables were built from;
  \<^item> under every interleaving of reads and evictions, a shared cache holds only the blocks
    \<open>read_block\<close> returns, provided the tables' ids are distinct. This is proved by rule
    induction on \<open>cache_reachable\<close>. Without distinct ids, one table reads another's block.
  \<^item> the order the heap proofs use is the one \<open>HeapWrapper::partial_cmp\<close> computes, and its
    \<open>Eq\<close> and \<open>Ord\<close> agree;
  \<^item> a failed block load leaves the table iterator invalid, and a retried \<open>next\<close> skips the
    block that failed.
  \<^item> the whole read path stays correct when the tables share one block cache, under any
    interleaving of its reads and evictions.
  Claims C1 to C38 are the numbered theorems, each after a text naming it; C1, C7, C25, C28
  and C38 are in this theory, the others in their component's theory.

  \<^bold>\<open>Bounds and fuel.\<close>
  \<^item> Key and value lengths are bounded by \<open>u16\<close> (\<open>fits_u16\<close>), as the entry layout requires.
  \<^item> Block offsets and the entry count fit \<open>u16\<close>; the builder's overflow-checked sums make
    this a proved consequence rather than an assumption.
  \<^item> Table files are below \<open>2 ^ 32\<close> bytes, as the \<open>u32\<close> offsets require (a hypothesis of C12).
    Beyond that bound the code truncates silently, and C37 shows the offsets read back
    modulo \<open>2 ^ 32\<close>.
  \<^item> \<open>drain\<close> is given as much fuel as the abstract view is long. This is enough because every
    successful \<open>next\<close> of a lawful iterator drops exactly the view's head.
  \<^item> The merge loops are \<open>partial_function (option)\<close>, so that a loop that never ends is
    \<open>None\<close>. That they return is proved by induction on the total length of the sources'
    views, which each turn strictly shrinks.

  \<^bold>\<open>Not modelled.\<close>
  \<^item> The block cache's eviction policy (which entry \<open>moka\<close> evicts, and when): any
    eviction is a step, so the results hold for every policy. Its deduplication of
    concurrent loads of one key: each load is one atomic step.
  \<^item> The cache insert of \<open>read_block_cached\<close> inside one table's scan. The model's
    \<open>read_block_cached\<close> returns the result of \<open>try_get_with\<close> and drops the cache it
    leaves, so a table carries a fixed snapshot of the cache for a whole scan. The inserts
    are modelled separately, as the \<open>read\<close> steps of \<open>cache_step\<close>. C31, C32 and C38 hold
    for every reachable snapshot, so what the code decides (the key and the producer) is
    covered at every point of an interleaving.
  \<^item> File-system failures of \<open>FileObject::create\<close>; \<open>FileObject::open\<close>, which is
    \<open>unimplemented!()\<close> in the source.
  \<^item> The heap's internal sift operations: they do not change which element \<open>peek\<close> returns.
  \<^item> Release-build wrap-around: the model follows the debug build throughout.
  \<^item> The memtable, write path, manifest, WAL, compaction and the engine: these are out of
    scope and not among the sources.
\<close>

section \<open>Properties spanning components\<close>

text \<open>C1. Block round trip (spec section 8): a block built by \<open>BlockBuilder\<close> from pairs
  with non-empty keys, encoded by \<open>Block::encode\<close> and decoded by \<open>Block::decode\<close>,
  is the same block, and a \<open>BlockIterator\<close> scan of it from \<open>seek_to_first\<close> until
  it is invalid yields exactly the pairs added, in order.\<close>

theorem block_roundtrip_scan:
  assumes "bb_repr b es" and "\<forall>e \<in> set es. fst e \<noteq> []"
  shows "block_decode (block_encode (bb_build b)) = Some (bb_build b) \<and>
    (\<exists>it. bi_create_and_seek_to_first (bb_build b) = Some it \<and>
          drain block_iter_ops (length es) it = Some (Inr es))"
proof -
  have "4 * length es \<le> length (bb_data b)"
    using assms(1) length_entries_ge [of es] by (simp add: bb_repr_def)
  then have "length (blk_offsets (bb_build b)) < 65536"
    using assms(1) bb_repr_data_bound [OF assms(1)] by (simp add: bb_repr_def bb_build_def)
  then have dec: "block_decode (block_encode (bb_build b)) = Some (bb_build b)"
    by (rule block_decode_encode_raw)
  have tw: "takeWhile (\<lambda>e. fst e \<noteq> []) es = es"
    using assms(2) by (simp add: takeWhile_eq_all_conv)
  show ?thesis
    using dec bi_scan_takeWhile [OF bb_repr_build_entries [OF assms(1)]] tw by simp
qed

theorem block_roundtrip_scan_witness:
  "bb_repr \<lparr>bb_block_size = 64, bb_data = [0, 1, 1, 0, 1, 10, 0, 1, 2, 0, 2, 20, 21],
      bb_offsets = [0, 6], bb_num_of_elements = 2, bb_next_offset = 13\<rparr>
      [([1], [10]), ([2], [20, 21])] \<and>
   (\<exists>it. bi_create_and_seek_to_first \<lparr>blk_data = [0, 1, 1, 0, 1, 10, 0, 1, 2, 0, 2, 20, 21],
        blk_offsets = [0, 6]\<rparr> = Some it \<and>
      drain block_iter_ops 2 it = Some (Inr [([1], [10]), ([2], [20, 21])]))"
proof -
  have r: "bb_repr \<lparr>bb_block_size = 64, bb_data = [0, 1, 1, 0, 1, 10, 0, 1, 2, 0, 2, 20, 21],
      bb_offsets = [0, 6], bb_num_of_elements = 2, bb_next_offset = 13\<rparr>
      [([1], [10]), ([2], [20, 21])]"
    by (simp add: bb_repr_def entry_encode_def put_u16_def kv_size_def)
  have k: "\<forall>e \<in> set [([1], [10]), ([2], [20, 21 :: byte])]. fst e \<noteq> ([] :: bytes)" by simp
  show ?thesis
    using block_roundtrip_scan [OF r k] r by (simp add: bb_build_def numeral_2_eq_2 del: drain.simps)
qed

text \<open>C7. Empty keys end a scan. \<open>BlockBuilder::add\<close> has no check on the key (its
  comment asks "Assert key empty?"), but \<open>BlockIterator::is_valid\<close> is
  \<open>!self.key.is_empty()\<close>. So the block of any builder holding the pairs \<open>es\<close> reads back
  as \<open>es\<close>, yet a scan from \<open>seek_to_first\<close> yields only the pairs before the first
  empty key. A block whose first key is empty scans as empty.\<close>

theorem empty_key_hides_block:
  assumes "bb_repr b es"
  shows "block_entries (bb_build b) = Some es \<and>
    (\<exists>it. bi_create_and_seek_to_first (bb_build b) = Some it \<and>
          drain block_iter_ops (length es) it = Some (Inr (takeWhile (\<lambda>e. fst e \<noteq> []) es)))"
  using bb_repr_build_entries [OF assms] bi_scan_takeWhile [OF bb_repr_build_entries [OF assms]] by simp

theorem empty_key_hides_block_witness:
  "bb_add (bb_new 64) [] [1] = Some (True, \<lparr>bb_block_size = 64, bb_data = [0, 0, 0, 1, 1],
      bb_offsets = [0], bb_num_of_elements = 1, bb_next_offset = 5\<rparr>) \<and>
   bb_add \<lparr>bb_block_size = 64, bb_data = [0, 0, 0, 1, 1], bb_offsets = [0], bb_num_of_elements = 1,
      bb_next_offset = 5\<rparr> [1] [2] = Some (True, \<lparr>bb_block_size = 64, bb_data = [0, 0, 0, 1, 1, 0, 1, 1, 0, 1, 2],
      bb_offsets = [0, 5], bb_num_of_elements = 2, bb_next_offset = 11\<rparr>) \<and>
   block_entries \<lparr>blk_data = [0, 0, 0, 1, 1, 0, 1, 1, 0, 1, 2], blk_offsets = [0, 5]\<rparr> = Some [([], [1]), ([1], [2])] \<and>
   (\<exists>it. bi_create_and_seek_to_first \<lparr>blk_data = [0, 0, 0, 1, 1, 0, 1, 1, 0, 1, 2], blk_offsets = [0, 5]\<rparr> = Some it \<and>
      drain block_iter_ops 2 it = Some (Inr []))"
proof -
  have a: "bb_add (bb_new 64) [] [1] = Some (True, \<lparr>bb_block_size = 64, bb_data = [0, 0, 0, 1, 1],
      bb_offsets = [0], bb_num_of_elements = 1, bb_next_offset = 5\<rparr>) \<and>
   bb_add \<lparr>bb_block_size = 64, bb_data = [0, 0, 0, 1, 1], bb_offsets = [0], bb_num_of_elements = 1,
      bb_next_offset = 5\<rparr> [1] [2] = Some (True, \<lparr>bb_block_size = 64, bb_data = [0, 0, 0, 1, 1, 0, 1, 1, 0, 1, 2],
      bb_offsets = [0, 5], bb_num_of_elements = 2, bb_next_offset = 11\<rparr>)"
    by (simp add: bb_add_unfold bb_new_def kv_size_def entry_encode_def put_u16_def)
  have r: "bb_repr \<lparr>bb_block_size = 64, bb_data = [0, 0, 0, 1, 1, 0, 1, 1, 0, 1, 2],
      bb_offsets = [0, 5], bb_num_of_elements = 2, bb_next_offset = 11\<rparr> [([], [1]), ([1], [2])]"
    by (simp add: bb_repr_def entry_encode_def put_u16_def kv_size_def)
  show ?thesis
    using a empty_key_hides_block [OF r] by (simp add: bb_build_def numeral_2_eq_2 del: drain.simps)
qed

text \<open>C25: over two sources of the same kind that keep the iterator contract, never fail
  and present strictly ascending pairs, \<open>MergeIterator\<close> over \<open>[a, b]\<close> and
  \<open>TwoMergeIterator\<close> over \<open>(a, b)\<close> are interchangeable: with enough fuel the caller's
  loop over either yields the same result (the first source wins ties in both).\<close>

theorem merge_equiv_two_merge:
  assumes snd: "sound ops I view" and a: "I a" and b: "I b"
    and n: "length (view a) + length (view b) \<le> n"
  shows "\<exists>t. tm_create ops ops a b = Some (Inr t) \<and>
           drain (mi_ops ops) n (mi_create ops [a, b]) = drain (tm_ops ops ops) n t"
proof -
  obtain t where cr: "tm_create ops ops a b = Some (Inr t)" and inv: "tm_inv ops ops I I t"
    and vw: "tm_view view view t = merge2 (view a) (view b)"
    using tm_create_spec [OF snd snd a b] by blast
  have len: "length (merge2 (view a) (view b)) \<le> n" using length_merge2_le n order_trans by blast
  have "drain (tm_ops ops ops) n t = Some (Inr (merge2 (view a) (view b)))"
    using drain_sound_le [OF tm_sound [OF snd snd] inv] vw len by simp
  moreover have "drain (mi_ops ops) n (mi_create ops [a, b]) = Some (Inr (merge2 (view a) (view b)))"
  proof -
    have "\<forall>x \<in> set [a, b]. I x" using a b by simp
    note c = mi_create_spec [OF snd this]
    then show ?thesis using drain_sound_le [OF mi_sound [OF snd] conjunct1 [OF c]] len by simp
  qed
  ultimately show ?thesis using cr by simp
qed

theorem merge_equiv_two_merge_witness:
  "\<exists>t. tm_create list_iter_ops list_iter_ops [([1], [10]), ([2], [20])] [([2], [99]), ([3], [30])] = Some (Inr t) \<and>
     drain (mi_ops list_iter_ops) 4 (mi_create list_iter_ops [[([1], [10]), ([2], [20])], [([2], [99]), ([3], [30])]]) =
     drain (tm_ops list_iter_ops list_iter_ops) 4 t"
proof -
  have "length (id [([1], [10]), ([2], [20])]) + length (id [([2], [99]), ([3], [30])]) \<le> (4::nat)" by simp
  moreover have "keys_ascending [([1], [10]), ([2], [20])]" "keys_ascending [([2], [99]), ([3], [30])]" by simp_all
  ultimately show ?thesis using merge_equiv_two_merge [OF list_iter_sound] by blast
qed


text \<open>C28: merges nest (spec section 9): a \<open>TwoMergeIterator\<close> whose two legs are
  \<open>MergeIterator\<close>s over the sources \<open>xs\<close> and \<open>ys\<close> (say, the memtables and the SSTables)
  returns from \<open>create\<close> and scans exactly as one \<open>MergeIterator\<close> over \<open>xs @ ys\<close>: to the
  merge of all the sources' views in which the lowest position wins.\<close>

theorem two_merge_of_merges:
  assumes snd: "sound ops I view" and xs: "\<forall>x \<in> set xs. I x" and ys: "\<forall>y \<in> set ys. I y"
  shows "\<exists>m. tm_create (mi_ops ops) (mi_ops ops) (mi_create ops xs) (mi_create ops ys) = Some (Inr m) \<and>
           drain (tm_ops (mi_ops ops) (mi_ops ops)) (length (merge_all (map view (xs @ ys)))) m =
             Some (Inr (merge_all (map view (xs @ ys))))"
proof -
  note S = mi_sound [OF snd]
  have cx: "mi_inv ops I (mi_create ops xs)" "mi_view view (mi_create ops xs) = merge_all (map view xs)"
    using mi_create_spec [OF snd xs] by simp_all
  have cy: "mi_inv ops I (mi_create ops ys)" "mi_view view (mi_create ops ys) = merge_all (map view ys)"
    using mi_create_spec [OF snd ys] by simp_all
  obtain m where cr: "tm_create (mi_ops ops) (mi_ops ops) (mi_create ops xs) (mi_create ops ys) = Some (Inr m)"
    and inv: "tm_inv (mi_ops ops) (mi_ops ops) (mi_inv ops I) (mi_inv ops I) m"
    and vw: "tm_view (mi_view view) (mi_view view) m = merge2 (merge_all (map view xs)) (merge_all (map view ys))"
    using tm_create_spec [OF S S cx(1) cy(1)] cx(2) cy(2) by auto
  have "\<forall>v \<in> set (map view xs @ map view ys). keys_ascending v"
    using sound_ascending [OF snd] xs ys by auto
  then have "merge2 (merge_all (map view xs)) (merge_all (map view ys)) = merge_all (map view (xs @ ys))"
    using merge_all_append [of "map view xs" "map view ys"] by simp
  then show ?thesis using cr drain_sound [OF tm_sound [OF S S] inv] vw by simp
qed

theorem two_merge_of_merges_witness:
  "\<exists>m. tm_create (mi_ops list_iter_ops) (mi_ops list_iter_ops)
       (mi_create list_iter_ops [[([2], [20])]])
       (mi_create list_iter_ops [[([1], [10]), ([2], [99])], [([3], [30])]]) = Some (Inr m) \<and>
     drain (tm_ops (mi_ops list_iter_ops) (mi_ops list_iter_ops)) 3 m =
       Some (Inr [([1], [10]), ([2], [20]), ([3], [30])])"
proof -
  let ?xs = "[[([2], [20])]] :: kv list list" and ?ys = "[[([1], [10]), ([2], [99])], [([3], [30])]] :: kv list list"
  have "\<forall>x \<in> set ?xs. keys_ascending x" "\<forall>y \<in> set ?ys. keys_ascending y" by simp_all
  from two_merge_of_merges [OF list_iter_sound this]
  obtain m where "tm_create (mi_ops list_iter_ops) (mi_ops list_iter_ops) (mi_create list_iter_ops ?xs)
        (mi_create list_iter_ops ?ys) = Some (Inr m)"
      "drain (tm_ops (mi_ops list_iter_ops) (mi_ops list_iter_ops)) (length (merge_all (map id (?xs @ ?ys)))) m =
        Some (Inr (merge_all (map id (?xs @ ?ys))))"
    by blast
  moreover have "merge_all (map id (?xs @ ?ys)) = [([1], [10]), ([2], [20]), ([3], [30])]" by simp
  ultimately show ?thesis by (metis numeral_3_eq_3 length_Cons list.size(3))
qed

text \<open>A built table attached to a cache that holds only its own blocks is a source of the
  read path.\<close>

lemma built_from_shared_cache:
  assumes "pairs_ok ps \<and> keys_ascending ps \<and> ps \<noteq> [] \<and>
      (\<exists>n sb tid bc (path :: string). sb_add_all (sb_new n) ps = Some sb \<and> sb_build sb tid bc path = Inr t)"
    and "cache_consistent t c"
  shows "built_from ps (t\<lparr>sst_block_cache := Some c\<rparr>)"
  using assms sb_build_with_cache
  by (fastforce simp: built_from_def cache_ok_def cache_consistent_def)

text \<open>C38: the read path stays correct when the tables share one block cache. For tables built
  by \<open>SsTableBuilder\<close> with distinct ids, all attached to one cache in any state reachable
  by interleaved reads and evictions, \<open>SsTableIterator\<close>s over them merged by
  \<open>MergeIterator\<close> scan to the merge of the pairs the tables were built from.\<close>

theorem read_path_shared_cache:
  assumes reach: "cache_reachable ts c" and ids: "distinct (map sst_id ts)"
    and built: "list_all2 (\<lambda>ps t. pairs_ok ps \<and> keys_ascending ps \<and> ps \<noteq> [] \<and>
        (\<exists>n sb tid bc (path :: string). sb_add_all (sb_new n) ps = Some sb \<and> sb_build sb tid bc path = Inr t))
        pss ts"
  shows "\<exists>its. map si_create_and_seek_to_first (map (\<lambda>t. t\<lparr>sst_block_cache := Some c\<rparr>) ts) = map Inr its \<and>
           drain (mi_ops sst_iter_ops) (length (merge_all pss)) (mi_create sst_iter_ops its) =
             Some (Inr (merge_all pss))"
proof -
  have cons: "\<forall>t \<in> set ts. cache_consistent t c"
    using cache_reachable_consistent [OF reach ids] by (simp add: caches_consistent_def)
  have "list_all2 built_from pss (map (\<lambda>t. t\<lparr>sst_block_cache := Some c\<rparr>) ts)"
    using built cons
    by (auto simp: list_all2_conv_all_nth intro!: built_from_shared_cache)
  then obtain its where cr: "map si_create_and_seek_to_first (map (\<lambda>t. t\<lparr>sst_block_cache := Some c\<rparr>) ts) = map Inr its"
    and vw: "map sst_abs its = pss" and ok: "\<forall>s \<in> set its. sst_ok s"
    using built_sst_iters by blast
  have inv: "mi_inv sst_iter_ops sst_ok (mi_create sst_iter_ops its)"
    and mv: "mi_view sst_abs (mi_create sst_iter_ops its) = merge_all pss"
    using mi_create_spec [OF sst_sound ok] vw by simp_all
  have "drain (mi_ops sst_iter_ops) (length (mi_view sst_abs (mi_create sst_iter_ops its))) (mi_create sst_iter_ops its)
      = Some (Inr (mi_view sst_abs (mi_create sst_iter_ops its)))"
    using drain_sound [OF mi_sound [OF sst_sound] inv] .
  then show ?thesis using cr unfolding mv by blast
qed

theorem read_path_shared_cache_witness:
  "\<exists>t1 t2 its.
     sb_build (the (sb_add_all (sb_new 16) [([1], [10]), ([3], [30])])) 1 None ''t1'' = Inr t1 \<and>
     sb_build (the (sb_add_all (sb_new 16) [([1], [99]), ([2], [20])])) 2 None ''t2'' = Inr t2 \<and>
     cache_reachable [t1, t2] (snd (try_get_with Map.empty (1, 0) (read_block t1 0))) \<and>
     map si_create_and_seek_to_first
       (map (\<lambda>t. t\<lparr>sst_block_cache := Some (snd (try_get_with Map.empty (1, 0) (read_block t1 0)))\<rparr>) [t1, t2])
       = map Inr its \<and>
     drain (mi_ops sst_iter_ops) 3 (mi_create sst_iter_ops its) = Some (Inr [([1], [10]), ([2], [20]), ([3], [30])])"
proof -
  let ?p1 = "[([1], [10]), ([3], [30])] :: kv list" and ?p2 = "[([1], [99]), ([2], [20])] :: kv list"
  obtain sb1 t1 where a1: "sb_add_all (sb_new 16) ?p1 = Some sb1" and b1: "sb_build sb1 1 None ''t1'' = Inr t1"
    by (fastforce simp: sb_eval_simps)
  obtain sb2 t2 where a2: "sb_add_all (sb_new 16) ?p2 = Some sb2" and b2: "sb_build sb2 2 None ''t2'' = Inr t2"
    by (fastforce simp: sb_eval_simps)
  let ?c = "snd (try_get_with Map.empty (1, 0) (read_block t1 0))"
  have id1: "sst_id t1 = 1" using sb_build_id [OF b1] .
  have id2: "sst_id t2 = 2" using sb_build_id [OF b2] .
  have "cache_step [t1, t2] Map.empty (snd (try_get_with Map.empty (sst_id t1, 0) (read_block t1 0)))"
    using cache_step.read [of t1 "[t1, t2]" Map.empty 0] by simp
  then have reach: "cache_reachable [t1, t2] ?c"
    using cache_reachable.step [OF cache_reachable.empty] id1 by simp
  have ids: "distinct (map sst_id [t1, t2])" using id1 id2 by simp
  have "list_all2 (\<lambda>ps t. pairs_ok ps \<and> keys_ascending ps \<and> ps \<noteq> [] \<and>
        (\<exists>n sb tid bc (path :: string). sb_add_all (sb_new n) ps = Some sb \<and> sb_build sb tid bc path = Inr t))
        [?p1, ?p2] [t1, t2]"
  proof -
    have k1: "pairs_ok ?p1 \<and> keys_ascending ?p1 \<and> ?p1 \<noteq> []" by (simp add: pairs_ok_def)
    have k2: "pairs_ok ?p2 \<and> keys_ascending ?p2 \<and> ?p2 \<noteq> []" by (simp add: pairs_ok_def)
    have e1: "\<exists>n sb tid bc (path :: string). sb_add_all (sb_new n) ?p1 = Some sb \<and> sb_build sb tid bc path = Inr t1"
      using a1 b1 by blast
    have e2: "\<exists>n sb tid bc (path :: string). sb_add_all (sb_new n) ?p2 = Some sb \<and> sb_build sb tid bc path = Inr t2"
      using a2 b2 by blast
    show ?thesis unfolding list_all2_Cons list_all2_Nil using k1 k2 e1 e2 by blast
  qed
  then obtain its where "map si_create_and_seek_to_first (map (\<lambda>t. t\<lparr>sst_block_cache := Some ?c\<rparr>) [t1, t2]) = map Inr its"
      "drain (mi_ops sst_iter_ops) (length (merge_all [?p1, ?p2])) (mi_create sst_iter_ops its) =
         Some (Inr (merge_all [?p1, ?p2]))"
    using read_path_shared_cache [OF reach ids] by blast
  moreover have "merge_all [?p1, ?p2] = [([1], [10]), ([2], [20]), ([3], [30])]" by simp
  ultimately show ?thesis using a1 a2 b1 b2 reach by (metis numeral_3_eq_3 length_Cons list.size(3) option.sel)
qed

end
